(* ===== verification/Prelude.thy ===== *)
theory Prelude
  imports Main "HOL-Library.Word" "HOL-Library.Sublist"
begin

unbundle bit_operations_syntax

text \<open>
  Shared vocabulary of the development: the machine types, the outcome of a Rust call, the
  crate's error values, checked arithmetic, big-endian byte encodings and the list lemmas the
  components use.

  Integer conventions. A byte is an \<open>8 word\<close>. Values of type \<open>u32\<close>, \<open>u64\<close> and
  \<open>usize\<close> that take part in arithmetic are natural numbers: the release profile of
  \<open>rust/Cargo.toml\<close> sets \<open>overflow-checks = true\<close>, so an addition, subtraction or
  multiplication that leaves the range panics, and the model writes that panic out
  (\<open>add_u64\<close>, \<open>mul_u64\<close>). \<open>debug_assert!\<close> is off in that profile and is not
  modelled. Structure fields and check sums that wrap or are stored at a width
  are \<open>w word\<close> values.
\<close>

section \<open>Types\<close>

type_synonym byte = "8 word"
type_synonym bytes = "byte list"
type_synonym u16 = "16 word"
type_synonym u64 = "64 word"

text \<open>A Rust \<open>&str\<close> is the list of its Unicode scalar values.\<close>

type_synonym str = "nat list"

text \<open>
  The keyed hash of the \<open>hmac\<close> and \<open>sha2\<close> crates: a function of key and data whose
  32-byte output array is a 256-bit word. It is a parameter of every definition that uses it.
\<close>

type_synonym mac = "bytes \<Rightarrow> bytes \<Rightarrow> 256 word"

section \<open>Outcome of a call\<close>

text \<open>
  \<open>Ok\<close> and \<open>Err\<close> are the two constructors of Rust's \<open>Result\<close>; \<open>Panic\<close> is an
  unwinding call, which no \<open>map_err\<close> of a caller turns into an \<open>Err\<close>.
\<close>

datatype ('a, 'e) res = Ok 'a | Err 'e | Panic

fun res_bind :: "('a, 'e) res \<Rightarrow> ('a \<Rightarrow> ('b, 'e) res) \<Rightarrow> ('b, 'e) res" where
  "res_bind (Ok x) f = f x"
| "res_bind (Err e) f = Err e"
| "res_bind Panic f = Panic"

fun map_err :: "('e \<Rightarrow> 'f) \<Rightarrow> ('a, 'e) res \<Rightarrow> ('a, 'f) res" where
  "map_err g (Ok x) = Ok x"
| "map_err g (Err e) = Err (g e)"
| "map_err g Panic = Panic"

fun is_ok :: "('a, 'e) res \<Rightarrow> bool" where
  "is_ok (Ok _) = True"
| "is_ok _ = False"

text \<open>Collecting an iterator of results stops at the first failure.\<close>

fun collect_res :: "('a \<Rightarrow> ('b, 'e) res) \<Rightarrow> 'a list \<Rightarrow> ('b list, 'e) res" where
  "collect_res f [] = Ok []"
| "collect_res f (x # xs) =
     res_bind (f x) (\<lambda>y. res_bind (collect_res f xs) (\<lambda>ys. Ok (y # ys)))"

lemma res_bind_eq_Ok [simp]:
  "res_bind r f = Ok y \<longleftrightarrow> (\<exists>x. r = Ok x \<and> f x = Ok y)"
  by (cases r) auto

lemma res_bind_eq_Err [simp]:
  "res_bind r f = Err e \<longleftrightarrow> r = Err e \<or> (\<exists>x. r = Ok x \<and> f x = Err e)"
  by (cases r) auto

lemma res_bind_eq_Panic [simp]:
  "res_bind r f = Panic \<longleftrightarrow> r = Panic \<or> (\<exists>x. r = Ok x \<and> f x = Panic)"
  by (cases r) auto

lemma map_err_eq_Ok [simp]: "map_err g r = Ok x \<longleftrightarrow> r = Ok x"
  by (cases r) auto

lemma map_err_eq_Panic [simp]: "map_err g r = Panic \<longleftrightarrow> r = Panic"
  by (cases r) auto

lemma res_bind_assoc: "res_bind (res_bind r f) g = res_bind r (\<lambda>x. res_bind (f x) g)"
  by (cases r) auto

lemma res_bind_Ok_right [simp]: "res_bind r Ok = r"
  by (cases r) auto

lemma is_ok_iff: "is_ok r \<longleftrightarrow> (\<exists>x. r = Ok x)"
  by (cases r) auto

lemma collect_res_all_Ok:
  "(\<And>x. x \<in> set xs \<Longrightarrow> f x = Ok (g x)) \<Longrightarrow> collect_res f xs = Ok (map g xs)"
  by (induction xs) auto

lemma collect_res_such:
  "(\<And>x. x \<in> set xs \<Longrightarrow> \<exists>y. f x = Ok y \<and> P y) \<Longrightarrow> \<exists>ys. collect_res f xs = Ok ys \<and> list_all P ys"
proof (induction xs)
  case (Cons x xs)
  then obtain y ys where "f x = Ok y \<and> P y" "collect_res f xs = Ok ys \<and> list_all P ys" by fastforce
  then show ?case by simp
qed simp

lemma collect_res_Ok:
  "(\<And>x. x \<in> set xs \<Longrightarrow> \<exists>y. f x = Ok y) \<Longrightarrow> \<exists>ys. collect_res f xs = Ok ys"
  using collect_res_such [of xs f "\<lambda>_. True"] by blast

lemma collect_res_OkD:
  "collect_res f xs = Ok ys \<Longrightarrow> length ys = length xs \<and> (\<forall>i < length xs. f (xs ! i) = Ok (ys ! i))"
proof (induction xs arbitrary: ys)
  case (Cons x xs)
  then obtain y zs where "f x = Ok y" "collect_res f xs = Ok zs" "ys = y # zs" by auto
  with Cons.IH show ?case by (auto simp: nth_Cons split: nat.split)
qed simp

section \<open>Error values\<close>

text \<open>
  One constructor per error the crate builds (the Rust code formats a \<open>String\<close>; the
  constructor keeps the values it interpolates), grouped by the code that raises it.
\<close>

datatype key_error =
    KeyEmpty
  | KeyTooMany nat
  | KeyBelowMin nat nat
  | KeyAboveMax nat nat
  | KeyNotSerialisable nat nat
  | KeyNotPrime nat nat
  | KeyDuplicate nat nat
  | V7KeyOutside nat nat
  | V7KeyDuplicate nat
  | KeygenCount nat
  | KeygenEmptyRange nat nat
  | KeygenExhausted nat nat nat nat
  | KeygenOutsideInterval nat nat

datatype pad_error =
    BlockTooLong nat
  | CoarseStride nat nat
  | FrameInvalid nat
  | FrameTooSmall nat nat
  | PaddedTooShort
  | PrefixNotByteValued nat nat
  | PrefixTooLong nat nat
  | MessageTooLong nat
  | AadTooLong nat
  | InputNotScalar nat nat

datatype token_error =
    MalformedToken nat nat
  | NotScalar nat nat
  | PlainNotScalar nat
  | RawRange nat nat
  | NoiseRunGuard
  | TokenCount
  | RealCount nat
  | Truncated nat nat nat nat nat
  | TokenBlobLength nat
  | CiphertextTooShort nat
  | Base64Decode
  | V7PlainNotScalar nat nat
  | ChunkTruncated
  | ChunkMalformed nat
  | ChunkNotScalar nat

datatype stream_error =
    FrameRange nat
  | ChunkLimit
  | HeaderTruncated nat
  | FormatId byte
  | HeaderFrame nat
  | LengthTruncated
  | SentinelTruncated
  | SentinelAuth
  | SentinelCount nat nat nat
  | Trailing nat
  | FrameLength nat nat
  | FrameTruncated
  | ChunkAuth nat
  | PushAfterFinish
  | FinishTwice

datatype kem_error =
    KemPublicKey
  | KemCiphertext
  | KemSecretKey
  | HybridSharedSecretSize nat
  | HybridAllZero
  | HybridPublicKeySize nat
  | HybridCiphertextSize nat
  | HybridSecretKeySize nat

datatype error =
    KeyError key_error
  | PadError pad_error
  | TokenError token_error
  | StreamError stream_error
  | KemError kem_error
  | AuthenticationFailed
  | CrngStuck
  | NotOperational

section \<open>Checked arithmetic\<close>

definition u64_limit :: nat where
  "u64_limit = 2 ^ 64"

definition add_u64 :: "nat \<Rightarrow> nat \<Rightarrow> (nat, 'e) res" where
  "add_u64 a b = (if a + b < u64_limit then Ok (a + b) else Panic)"

definition mul_u64 :: "nat \<Rightarrow> nat \<Rightarrow> (nat, 'e) res" where
  "mul_u64 a b = (if a * b < u64_limit then Ok (a * b) else Panic)"

lemma add_u64_Ok: "a + b < u64_limit \<Longrightarrow> add_u64 a b = Ok (a + b)"
  by (simp add: add_u64_def)

lemma mul_u64_Ok: "a * b < u64_limit \<Longrightarrow> mul_u64 a b = Ok (a * b)"
  by (simp add: mul_u64_def)

section \<open>Big-endian encodings\<close>

text \<open>\<open>to_be_bytes\<close> (the low \<open>w\<close> bytes, most significant first) and \<open>from_be_bytes\<close>.\<close>

fun be_bytes :: "nat \<Rightarrow> nat \<Rightarrow> bytes" where
  "be_bytes 0 n = []"
| "be_bytes (Suc w) n = be_bytes w (n div 256) @ [of_nat n]"

definition be_val :: "bytes \<Rightarrow> nat" where
  "be_val bs = foldl (\<lambda>acc b. acc * 256 + unat b) 0 bs"

lemma length_be_bytes [simp]: "length (be_bytes w n) = w"
  by (induction w arbitrary: n) auto

lemma be_bytes_eq_Nil [simp]: "be_bytes w n = [] \<longleftrightarrow> w = 0"
  by (metis length_0_conv length_be_bytes)

lemma be_bytes_zero: "be_bytes w 0 = replicate w 0"
  by (induction w) (simp_all add: replicate_append_same)

lemma be_val_Nil [simp]: "be_val [] = 0"
  by (simp add: be_val_def)

lemma be_val_snoc [simp]: "be_val (bs @ [b]) = be_val bs * 256 + unat b"
  by (simp add: be_val_def)

lemma unat_of_nat_byte [simp]: "unat (of_nat n :: byte) = n mod 256"
  by (simp add: unat_of_nat)

lemma unat_byte_less [simp]: "unat (b :: byte) < 256"
  using unsigned_less [of b, where 'a = nat] by simp

lemma be_val_be_bytes [simp]: "be_val (be_bytes w n) = n mod 256 ^ w"
proof (induction w arbitrary: n)
  case (Suc w)
  have "n mod 256 ^ Suc w = (n div 256 mod 256 ^ w) * 256 + n mod 256"
    by (metis add.commute mod_mult2_eq mult.commute power_Suc)
  then show ?case by (simp add: Suc.IH)
qed simp

lemma be_val_less: "be_val bs < 256 ^ length bs"
proof (induction bs rule: rev_induct)
  case (snoc b bs)
  have "be_val bs * 256 + unat b < (be_val bs + 1) * 256" using unat_byte_less [of b] by simp
  also have "\<dots> \<le> 256 ^ length bs * 256"
    using snoc.IH by (intro mult_le_mono1) simp
  finally show ?case by simp
qed simp

lemma be_bytes_be_val [simp]: "length bs = w \<Longrightarrow> be_bytes w (be_val bs) = bs"
proof (induction bs arbitrary: w rule: rev_induct)
  case (snoc b bs)
  have "unat b < 256" by simp
  then have "be_val (bs @ [b]) div 256 = be_val bs" by simp
  moreover have "(of_nat (be_val (bs @ [b])) :: byte) = b"
  proof -
    have "(256 :: byte) = 0" by simp
    then have "(of_nat (be_val bs) :: byte) * 256 = 0" by (simp only: mult_zero_right)
    then show ?thesis by simp
  qed
  ultimately show ?case using snoc by auto
qed simp

lemma be_bytes_mod [simp]: "be_bytes w (n mod 256 ^ w) = be_bytes w n"
  using be_bytes_be_val [of "be_bytes w n" w] by simp

lemma be_bytes_split: "be_bytes (a + b) n = be_bytes a (n div 256 ^ b) @ be_bytes b n"
  by (induction b arbitrary: n) (simp_all add: div_mult2_eq)

lemma be_val_take_be_bytes: "be_val (take a (be_bytes (a + b) n)) = n div 256 ^ b mod 256 ^ a"
  by (simp add: be_bytes_split)

lemma be_bytes_inj_on: "m < 256 ^ w \<Longrightarrow> n < 256 ^ w \<Longrightarrow> be_bytes w m = be_bytes w n \<longleftrightarrow> m = n"
  by (metis be_val_be_bytes mod_less)

section \<open>Byte-wise exclusive or\<close>

definition xor_bytes :: "bytes \<Rightarrow> bytes \<Rightarrow> bytes" where
  "xor_bytes as bs = map2 (\<lambda>a b. a XOR b) as bs"

lemma length_xor_bytes [simp]: "length (xor_bytes as bs) = min (length as) (length bs)"
  by (simp add: xor_bytes_def)

lemma xor_bytes_cancel: "length ks \<ge> length bs \<Longrightarrow> xor_bytes (xor_bytes bs ks) ks = bs"
  unfolding xor_bytes_def
proof (induction bs arbitrary: ks)
  case (Cons b bs)
  then obtain k ks' where "ks = k # ks'" by (cases ks) auto
  with Cons show ?case by (simp add: xor.assoc)
qed simp

section \<open>Indexing and loops\<close>

text \<open>
  A \<open>for\<close> loop whose body may panic, indexing and slicing with their bounds checks, and a
  subtraction of \<open>usize\<close> values. Lengths and indices stay below \<open>2^63\<close> (the largest
  allocation), so sums and products of a few of them by small constants do not overflow.
\<close>

fun fold_res :: "('a \<Rightarrow> 'b \<Rightarrow> ('b, 'e) res) \<Rightarrow> 'a list \<Rightarrow> 'b \<Rightarrow> ('b, 'e) res" where
  "fold_res f [] acc = Ok acc"
| "fold_res f (x # xs) acc = res_bind (f x acc) (fold_res f xs)"

definition nth_res :: "'a list \<Rightarrow> nat \<Rightarrow> ('a, 'e) res" where
  "nth_res xs i = (if i < length xs then Ok (xs ! i) else Panic)"

definition slice_res :: "'a list \<Rightarrow> nat \<Rightarrow> nat \<Rightarrow> ('a list, 'e) res" where
  "slice_res xs a b = (if a \<le> b \<and> b \<le> length xs then Ok (take (b - a) (drop a xs)) else Panic)"

definition sub_usize :: "nat \<Rightarrow> nat \<Rightarrow> (nat, 'e) res" where
  "sub_usize a b = (if b \<le> a then Ok (a - b) else Panic)"

text \<open>\<open>xs[i] = f(xs[i])\<close>\<close>

definition modify_res :: "'a list \<Rightarrow> nat \<Rightarrow> ('a \<Rightarrow> 'a) \<Rightarrow> ('a list, 'e) res" where
  "modify_res xs i f = (if i < length xs then Ok (xs[i := f (xs ! i)]) else Panic)"

lemma nth_res_Ok [simp]: "i < length xs \<Longrightarrow> nth_res xs i = Ok (xs ! i)"
  by (simp add: nth_res_def)

lemma slice_res_Ok [simp]:
  "a \<le> b \<Longrightarrow> b \<le> length xs \<Longrightarrow> slice_res xs a b = Ok (take (b - a) (drop a xs))"
  by (simp add: slice_res_def)

lemma sub_usize_Ok [simp]: "b \<le> a \<Longrightarrow> sub_usize a b = Ok (a - b)"
  by (simp add: sub_usize_def)

lemma modify_res_Ok [simp]: "i < length xs \<Longrightarrow> modify_res xs i f = Ok (xs[i := f (xs ! i)])"
  by (simp add: modify_res_def)

lemma fold_res_append: "fold_res f (xs @ ys) acc = res_bind (fold_res f xs acc) (fold_res f ys)"
proof (induction xs arbitrary: acc)
  case (Cons x xs)
  then show ?case by (cases "f x acc") simp_all
qed simp

text \<open>
  The invariant rule of the loop over a range: a body that keeps \<open>I\<close> and never panics under
  it carries \<open>I\<close> from the first index to the last.
\<close>

lemma fold_res_range:
  assumes "I a acc" and "a \<le> b"
    and step: "\<And>i acc. a \<le> i \<Longrightarrow> i < b \<Longrightarrow> I i acc \<Longrightarrow> \<exists>acc'. f i acc = Ok acc' \<and> I (Suc i) acc'"
  shows "\<exists>acc'. fold_res f [a..<b] acc = Ok acc' \<and> I b acc'"
  using assms(2) step
proof (induction b)
  case (Suc b)
  show ?case
  proof (cases "a = Suc b")
    case True
    with \<open>I a acc\<close> show ?thesis by simp
  next
    case False
    with Suc.prems(1) have "a \<le> b" by simp
    with Suc obtain r where r: "fold_res f [a..<b] acc = Ok r" "I b r" by force
    moreover obtain r' where "f b r = Ok r'" "I (Suc b) r'"
      using Suc.prems(2) [of b r] r \<open>a \<le> b\<close> by auto
    ultimately show ?thesis using \<open>a \<le> b\<close> by (simp add: fold_res_append)
  qed
qed (use assms(1) in simp)

text \<open>The rule for a loop over the elements of a list.\<close>

lemma fold_res_invariant:
  assumes "I acc" and "\<And>x acc. x \<in> set xs \<Longrightarrow> I acc \<Longrightarrow> \<exists>acc'. f x acc = Ok acc' \<and> I acc'"
  shows "\<exists>acc'. fold_res f xs acc = Ok acc' \<and> I acc'"
  using assms
proof (induction xs arbitrary: acc)
  case (Cons x xs)
  then obtain r where "f x acc = Ok r" "I r" by (metis list.set_intros(1))
  with Cons show ?case by auto
qed simp

section \<open>Lists\<close>

lemma length_concat_const:
  "(\<And>x. x \<in> set xs \<Longrightarrow> length (f x) = w) \<Longrightarrow> length (concat (map f xs)) = w * length xs"
  by (induction xs) auto

lemma take_length_append [simp]: "length xs = n \<Longrightarrow> take n (xs @ ys) = xs"
  by simp

lemma drop_length_append [simp]: "length xs = n \<Longrightarrow> drop n (xs @ ys) = ys"
  by simp

lemma take_drop_parts:
  "take a xs @ take b (drop a xs) @ take c (drop b (drop a xs)) @ drop (b + c) (drop a xs) = xs"
proof -
  let ?ys = "drop a xs"
  have "drop (b + c) ?ys = drop c (drop b ?ys)" by (simp add: add.commute add.left_commute)
  then have "take c (drop b ?ys) @ drop (b + c) ?ys = drop b ?ys" by (simp only: append_take_drop_id)
  then show ?thesis by (simp only: append_take_drop_id)
qed

section \<open>Decimal text\<close>

text \<open>\<open>{}\<close> of an unsigned integer\<close>

fun dec_string :: "nat \<Rightarrow> string" where
  "dec_string n = (if n < 10 then [char_of (48 + n)] else dec_string (n div 10) @ [char_of (48 + n mod 10)])"

declare dec_string.simps [simp del]

end
