(* ===== verification/F64.thy ===== *)
theory F64
  imports Prelude
begin

text \<open>
  The part of IEEE 754 binary64 the crate uses: \<open>isqrt_u64\<close> takes a square root as its
  first estimate, and the v7 noise schedule (\<open>derive_noise_p\<close>, \<open>is_noise_pos\<close>) is
  computed in \<open>f64\<close>. Every value there is zero or lies between \<open>2^-66\<close> and
  \<open>2^64\<close>, so neither subnormals, infinities nor NaN occur. A value \<open>(m, e)\<close> stands
  for \<open>m * 2^e\<close>; each operation computes the exact result and rounds it to 53 bits,
  to nearest with ties to even.
\<close>

type_synonym f64 = "nat \<times> int"

fun bit_len :: "nat \<Rightarrow> nat" where
  "bit_len n = (if n = 0 then 0 else Suc (bit_len (n div 2)))"

declare bit_len.simps [simp del]

definition round_f64 :: "nat \<Rightarrow> int \<Rightarrow> f64" where
  "round_f64 m e =
     (let s = bit_len m - 53;
          q = m div 2 ^ s;
          r = m mod 2 ^ s
      in if s = 0 then (m, e)
         else if 2 ^ (s - 1) < r \<or> r = 2 ^ (s - 1) \<and> odd q then (q + 1, e + int s)
         else (q, e + int s))"

definition f64_of_nat :: "nat \<Rightarrow> f64" where
  "f64_of_nat n = round_f64 n 0"

text \<open>Both operands over the smaller of the two exponents.\<close>

definition f64_align :: "f64 \<Rightarrow> f64 \<Rightarrow> nat \<times> nat \<times> int" where
  "f64_align x y =
     (let e = min (snd x) (snd y)
      in (fst x * 2 ^ nat (snd x - e), fst y * 2 ^ nat (snd y - e), e))"

definition f64_add :: "f64 \<Rightarrow> f64 \<Rightarrow> f64" where
  "f64_add x y = (case f64_align x y of (a, b, e) \<Rightarrow> round_f64 (a + b) e)"

text \<open>Subtraction of a smaller value; the code subtracts 0.75 from 0.99 only.\<close>

definition f64_sub :: "f64 \<Rightarrow> f64 \<Rightarrow> f64" where
  "f64_sub x y = (case f64_align x y of (a, b, e) \<Rightarrow> round_f64 (a - b) e)"

definition f64_mul :: "f64 \<Rightarrow> f64 \<Rightarrow> f64" where
  "f64_mul x y = round_f64 (fst x * fst y) (snd x + snd y)"

text \<open>Division by \<open>2^64\<close> only changes the exponent.\<close>

definition f64_div_two64 :: "f64 \<Rightarrow> f64" where
  "f64_div_two64 x = (fst x, snd x - 64)"

definition f64_less :: "f64 \<Rightarrow> f64 \<Rightarrow> bool" where
  "f64_less x y = (case f64_align x y of (a, b, e) \<Rightarrow> a < b)"

fun nat_sqrt :: "nat \<Rightarrow> nat" where
  "nat_sqrt n =
     (if n < 2 then n
      else let r = 2 * nat_sqrt (n div 4) in if (r + 1) * (r + 1) \<le> n then r + 1 else r)"

declare nat_sqrt.simps [simp del]

text \<open>
  The correctly rounded square root: 64 extra bits of an integer root and a sticky bit
  below them.
\<close>

definition f64_sqrt :: "f64 \<Rightarrow> f64" where
  "f64_sqrt x =
     (let (m, e) = (if even (snd x) then x else (2 * fst x, snd x - 1));
          s = nat_sqrt (m * 4 ^ 64);
          sticky = (if s * s = m * 4 ^ 64 then 0 else 1)
      in round_f64 (2 * s + sticky) (e div 2 - 65))"

text \<open>The cast \<open>as u64\<close> truncates and saturates.\<close>

definition f64_to_u64 :: "f64 \<Rightarrow> nat" where
  "f64_to_u64 x =
     min (u64_limit - 1)
       (if 0 \<le> snd x then fst x * 2 ^ nat (snd x) else fst x div 2 ^ nat (- snd x))"

text \<open>The two literals: 0.75 is exact, 0.99 is the nearest 53-bit value.\<close>

definition f64_0_75 :: f64 where
  "f64_0_75 = (3, -2)"

definition f64_0_99 :: f64 where
  "f64_0_99 = (0x1FAE147AE147AE, -53)"

lemma f64_0_99_nearest:
  "2 * \<bar>int (fst f64_0_99) * 100 - 99 * 2 ^ 53\<bar> < 100"
  by (simp add: f64_0_99_def)

end
