(* ===== verification/Primes.thy ===== *)
theory Primes
  imports F64
begin

text \<open>
  Key material checks of \<open>rust/src/lib.rs\<close>: primality by trial division, the prime
  generator and \<open>validate_key\<close>.
\<close>

section \<open>Constants\<close>

definition MIN_KEY_PRIME :: nat where "MIN_KEY_PRIME = 1000000"
definition MAX_KEY_PRIME :: nat where "MAX_KEY_PRIME = 14999999"
definition MAX_SAFE_KEY_PRIME :: nat where "MAX_SAFE_KEY_PRIME = (u64_limit - 1) div (0x10FFFF + 1)"
definition DEFAULT_KEY_COUNT :: nat where "DEFAULT_KEY_COUNT = 13"
definition MAX_KEY_ELEMENTS :: nat where "MAX_KEY_ELEMENTS = 128"
definition MAX_SERIALISABLE_KEY_PRIME :: nat where "MAX_SERIALISABLE_KEY_PRIME = 2 ^ 40 - 1"
definition KEYGEN_DRAWS_PER_PRIME :: nat where "KEYGEN_DRAWS_PER_PRIME = 4096"

definition SMALL_ODD_PRIMES :: "nat list" where
  "SMALL_ODD_PRIMES = [3, 5, 7, 11, 13, 17, 19, 23, 29, 31, 37, 41, 43, 47, 53]"

lemmas key_consts =
  MIN_KEY_PRIME_def MAX_KEY_PRIME_def MAX_SAFE_KEY_PRIME_def DEFAULT_KEY_COUNT_def
  MAX_KEY_ELEMENTS_def MAX_SERIALISABLE_KEY_PRIME_def

section \<open>Integer square root\<close>

text \<open>\<open>while r.checked_mul(r).map_or(true, |sq| sq > n) { r -= 1 }\<close>\<close>

function isqrt_down :: "nat \<Rightarrow> nat \<Rightarrow> nat" where
  "isqrt_down n r = (if u64_limit \<le> r * r \<or> n < r * r then isqrt_down n (r - 1) else r)"
  by pat_completeness auto
termination
proof (relation "measure snd", goal_cases)
  case (2 n r)
  then show ?case by (cases "r = 0") (simp_all add: u64_limit_def)
qed simp

text \<open>\<open>while (r + 1).checked_mul(r + 1).map_or(false, |sq| sq <= n) { r += 1 }\<close>\<close>

function isqrt_up :: "nat \<Rightarrow> nat \<Rightarrow> nat" where
  "isqrt_up n r =
     (if (r + 1) * (r + 1) < u64_limit \<and> (r + 1) * (r + 1) \<le> n then isqrt_up n (r + 1) else r)"
  by pat_completeness auto
termination
proof (relation "measure (\<lambda>(n, r). n - r)", goal_cases)
  case (2 n r)
  then have "r + 1 \<le> n" by (meson le_square order_trans)
  then show ?case by auto
qed simp

declare isqrt_down.simps [simp del] isqrt_up.simps [simp del]

definition isqrt_u64 :: "nat \<Rightarrow> nat" where
  "isqrt_u64 n = isqrt_up n (isqrt_down n (f64_to_u64 (f64_sqrt (f64_of_nat n))))"

section \<open>Trial division\<close>

function trial_division :: "nat \<Rightarrow> nat \<Rightarrow> nat \<Rightarrow> bool" where
  "trial_division n limit i =
     (if i \<le> limit then (if n mod i = 0 then False else trial_division n limit (i + 2))
      else True)"
  by pat_completeness auto
termination
  by (relation "measure (\<lambda>(n, limit, i). Suc limit - i)") auto

declare trial_division.simps [simp del]

fun small_prime_factor :: "nat list \<Rightarrow> nat \<Rightarrow> nat option" where
  "small_prime_factor [] n = None"
| "small_prime_factor (p # ps) n = (if n mod p = 0 then Some p else small_prime_factor ps n)"

definition is_prime :: "nat \<Rightarrow> bool" where
  "is_prime n =
     (if n < 2 then False
      else if n mod 2 = 0 then n = 2
      else case small_prime_factor SMALL_ODD_PRIMES n of
             Some p \<Rightarrow> n = p
           | None \<Rightarrow> trial_division n (isqrt_u64 n) 59)"

section \<open>Key validation\<close>

fun validate_ranges :: "nat \<Rightarrow> nat list \<Rightarrow> (unit, error) res" where
  "validate_ranges i [] = Ok ()"
| "validate_ranges i (k # ks) =
     (if k < MIN_KEY_PRIME then Err (KeyError (KeyBelowMin i k))
      else if MAX_KEY_PRIME < k then Err (KeyError (KeyAboveMax i k))
      else if MAX_SERIALISABLE_KEY_PRIME < k then Err (KeyError (KeyNotSerialisable i k))
      else validate_ranges (Suc i) ks)"

fun validate_primality :: "nat \<Rightarrow> nat list \<Rightarrow> (unit, error) res" where
  "validate_primality i [] = Ok ()"
| "validate_primality i (k # ks) =
     (if \<not> is_prime k then Err (KeyError (KeyNotPrime i k)) else validate_primality (Suc i) ks)"

text \<open>The inner loop \<open>for j in (i + 1)..key.len()\<close>, then the outer one.\<close>

fun find_duplicate :: "nat \<Rightarrow> nat \<Rightarrow> nat \<Rightarrow> nat list \<Rightarrow> (unit, error) res" where
  "find_duplicate i k j [] = Ok ()"
| "find_duplicate i k j (x # xs) =
     (if k = x then Err (KeyError (KeyDuplicate j i)) else find_duplicate i k (Suc j) xs)"

fun validate_distinct :: "nat \<Rightarrow> nat list \<Rightarrow> (unit, error) res" where
  "validate_distinct i [] = Ok ()"
| "validate_distinct i (k # ks) =
     res_bind (find_duplicate i k (Suc i) ks) (\<lambda>_. validate_distinct (Suc i) ks)"

definition validate_key :: "nat list \<Rightarrow> (unit, error) res" where
  "validate_key key =
     (if key = [] then Err (KeyError KeyEmpty)
      else if MAX_KEY_ELEMENTS < length key then Err (KeyError (KeyTooMany (length key)))
      else res_bind (validate_ranges 0 key) (\<lambda>_.
           res_bind (validate_primality 0 key) (\<lambda>_.
           validate_distinct 0 key)))"

text \<open>The relaxed policy of the v7 decryptors.\<close>

fun validate_v7_elements :: "nat \<Rightarrow> nat list \<Rightarrow> nat list \<Rightarrow> (unit, error) res" where
  "validate_v7_elements i seen [] = Ok ()"
| "validate_v7_elements i seen (k # ks) =
     (if \<not> (2 \<le> k \<and> k \<le> MAX_SERIALISABLE_KEY_PRIME) then Err (KeyError (V7KeyOutside i k))
      else if k \<in> set seen then Err (KeyError (V7KeyDuplicate i))
      else validate_v7_elements (Suc i) (seen @ [k]) ks)"

definition validate_key_v7_decrypt :: "nat list \<Rightarrow> (unit, error) res" where
  "validate_key_v7_decrypt key =
     (if key = [] then Err (KeyError KeyEmpty)
      else if MAX_KEY_ELEMENTS < length key then Err (KeyError (KeyTooMany (length key)))
      else validate_v7_elements 0 [] key)"

section \<open>Prime generation\<close>

text \<open>
  \<open>Vec::binary_search\<close> on a sorted vector: \<open>None\<close> when the value is present, otherwise
  the insertion index that keeps the vector sorted.
\<close>

definition binary_search_slot :: "nat list \<Rightarrow> nat \<Rightarrow> nat option" where
  "binary_search_slot xs x =
     (if x \<in> set xs then None else Some (length (takeWhile (\<lambda>y. y < x) xs)))"

definition insert_at :: "nat \<Rightarrow> 'a \<Rightarrow> 'a list \<Rightarrow> 'a list" where
  "insert_at pos x xs = take pos xs @ x # drop pos xs"

text \<open>
  The sampling loop. \<open>draw\<close> is the sequence of values the \<open>Uniform\<close> distribution of the
  \<open>rand\<close> crate yields, \<open>left\<close> the number of attempts that remain
  (\<open>max_attempts - attempts\<close>).
\<close>

fun keygen_loop ::
    "(nat \<Rightarrow> nat) \<Rightarrow> nat \<Rightarrow> nat \<Rightarrow> nat \<Rightarrow> nat list \<Rightarrow> nat list \<Rightarrow> nat list" where
  "keygen_loop draw count 0 attempts index primes = primes"
| "keygen_loop draw count (Suc left) attempts index primes =
     (if length primes < count then
        (let num = draw attempts in
         case binary_search_slot index num of
           None \<Rightarrow> keygen_loop draw count left (Suc attempts) index primes
         | Some pos \<Rightarrow>
             (if is_prime num
              then keygen_loop draw count left (Suc attempts) (insert_at pos num index) (primes @ [num])
              else keygen_loop draw count left (Suc attempts) index primes))
      else primes)"

definition generate_prime_numbers_core ::
    "(nat \<Rightarrow> nat) \<Rightarrow> nat \<Rightarrow> nat \<Rightarrow> nat \<Rightarrow> (nat list, error) res" where
  "generate_prime_numbers_core draw count min_val max_val =
     (if count = 0 \<or> MAX_KEY_ELEMENTS < count then Err (KeyError (KeygenCount count))
      else if max_val \<le> min_val then Err (KeyError (KeygenEmptyRange min_val max_val))
      else let max_attempts = min (u64_limit - 1) (max count 1 * KEYGEN_DRAWS_PER_PRIME);
               primes = keygen_loop draw count max_attempts 0 [] []
           in if length primes < count
              then Err (KeyError (KeygenExhausted count min_val max_val max_attempts))
              else Ok primes)"

section \<open>Correctness of the primality test\<close>

definition prime_number :: "nat \<Rightarrow> bool" where
  "prime_number n \<longleftrightarrow> 1 < n \<and> (\<forall>m. m dvd n \<longrightarrow> m = 1 \<or> m = n)"

lemma isqrt_down_square: "isqrt_down n r * isqrt_down n r \<le> n"
proof (induction n r rule: isqrt_down.induct)
  case (1 n r)
  then show ?case by (subst (1 2) isqrt_down.simps) (simp add: not_less)
qed

lemma isqrt_up_bounds:
  assumes "r * r \<le> n" "n < u64_limit"
  shows "isqrt_up n r * isqrt_up n r \<le> n \<and> n < (isqrt_up n r + 1) * (isqrt_up n r + 1)"
  using assms
proof (induction n r rule: isqrt_up.induct)
  case (1 n r)
  show ?case
  proof (cases "(r + 1) * (r + 1) < u64_limit \<and> (r + 1) * (r + 1) \<le> n")
    case True
    then show ?thesis using 1 by (subst (1 2 3 4) isqrt_up.simps) simp
  next
    case False
    then show ?thesis using 1(2,3) by (subst (1 2 3 4) isqrt_up.simps) auto
  qed
qed

lemma isqrt_u64_bounds:
  "n < u64_limit \<Longrightarrow> isqrt_u64 n * isqrt_u64 n \<le> n \<and> n < (isqrt_u64 n + 1) * (isqrt_u64 n + 1)"
  unfolding isqrt_u64_def by (intro isqrt_up_bounds isqrt_down_square)

lemma isqrt_u64_max: "n < u64_limit \<Longrightarrow> d * d \<le> n \<Longrightarrow> d \<le> isqrt_u64 n"
  using isqrt_u64_bounds [of n] mult_le_mono [of "isqrt_u64 n + 1" d "isqrt_u64 n + 1" d]
  by (metis Suc_eq_plus1 leD le_trans not_less_eq_eq)

lemma isqrt_u64_unique:
  assumes "n < u64_limit" "r * r \<le> n" "n < (r + 1) * (r + 1)"
  shows "isqrt_u64 n = r"
proof (rule ccontr)
  let ?s = "isqrt_u64 n"
  assume "?s \<noteq> r"
  with isqrt_u64_max [OF assms(1,2)] have "r + 1 \<le> ?s" by simp
  then have "(r + 1) * (r + 1) \<le> ?s * ?s" by (intro mult_le_mono)
  with isqrt_u64_bounds [OF assms(1)] assms(3) show False by linarith
qed

lemma trial_division_iff:
  "trial_division n limit i \<longleftrightarrow> (\<forall>k. i + 2 * k \<le> limit \<longrightarrow> \<not> (i + 2 * k) dvd n)"
proof (induction n limit i rule: trial_division.induct)
  case (1 n limit i)
  show ?case
  proof (cases "i \<le> limit \<and> n mod i \<noteq> 0")
    case True
    have "(\<forall>k. i + 2 * k \<le> limit \<longrightarrow> \<not> (i + 2 * k) dvd n) \<longleftrightarrow>
          \<not> i dvd n \<and> (\<forall>k. i + 2 + 2 * k \<le> limit \<longrightarrow> \<not> (i + 2 + 2 * k) dvd n)"
      (is "?A \<longleftrightarrow> ?B")
    proof
      assume A: ?A
      have "\<not> i dvd n" using spec [OF A, of 0] True by simp
      moreover have "\<not> i + 2 + 2 * k dvd n" if "i + 2 + 2 * k \<le> limit" for k
        using spec [OF A, of "Suc k"] that by (simp add: algebra_simps)
      ultimately show ?B by blast
    next
      assume B: ?B
      show ?A
      proof
        fix k
        show "i + 2 * k \<le> limit \<longrightarrow> \<not> (i + 2 * k) dvd n"
          using B by (cases k) (auto simp: algebra_simps)
      qed
    qed
    then show ?thesis using True 1 by (subst trial_division.simps) (auto simp: dvd_eq_mod_eq_0)
  next
    case False
    then show ?thesis
      by (subst trial_division.simps) (auto simp: dvd_eq_mod_eq_0 intro: exI [of _ 0])
  qed
qed

lemma small_prime_factor_None:
  "small_prime_factor ps n = None \<longleftrightarrow> (\<forall>p \<in> set ps. \<not> p dvd n)"
  by (induction ps) (auto simp: dvd_eq_mod_eq_0)

lemma small_prime_factor_Some:
  "small_prime_factor ps n = Some p \<Longrightarrow> p \<in> set ps \<and> p dvd n"
  by (induction ps) (auto simp: dvd_eq_mod_eq_0 split: if_splits)

lemma prime_number_upt: "prime_number n \<longleftrightarrow> 1 < n \<and> (\<forall>m \<in> set [2..<n]. n mod m \<noteq> 0)"
proof (intro iffI conjI ballI)
  assume n: "prime_number n"
  then show "1 < n" by (simp add: prime_number_def)
  fix m assume "m \<in> set [2..<n]"
  with n show "n mod m \<noteq> 0" by (auto simp: prime_number_def dvd_eq_mod_eq_0)
next
  assume n: "1 < n \<and> (\<forall>m \<in> set [2..<n]. n mod m \<noteq> 0)"
  have "m = 1 \<or> m = n" if "m dvd n" for m
  proof -
    have "m \<noteq> 0" using that n by (intro notI) simp
    moreover have "m \<le> n" "n mod m = 0" using that n by (auto dest: dvd_imp_le)
    moreover have "\<not> (2 \<le> m \<and> m < n)" using bspec [of "set [2..<n]" _ m] n \<open>n mod m = 0\<close>
      by (metis atLeastLessThan_iff set_upt)
    ultimately show ?thesis by linarith
  qed
  with n show "prime_number n" by (simp add: prime_number_def)
qed

lemma small_odd_primes_prime: "list_all prime_number SMALL_ODD_PRIMES"
  by (simp add: prime_number_upt SMALL_ODD_PRIMES_def)

lemma small_odd_primes_cover:
  assumes "1 < d" "d < 59" "odd d"
  shows "\<exists>p \<in> set SMALL_ODD_PRIMES. p dvd d"
proof -
  have "list_all (\<lambda>d. odd d \<longrightarrow> list_ex (\<lambda>p. p dvd d) SMALL_ODD_PRIMES) [2..<59]"
    by (simp add: SMALL_ODD_PRIMES_def)
  moreover have "d \<in> set [2..<59]" using assms(1,2) by (simp only: set_upt atLeastLessThan_iff) simp
  ultimately show ?thesis using assms(3) by (simp only: list_all_iff list_ex_iff) blast
qed

lemma least_divisor:
  assumes "1 < n" "\<not> prime_number n"
  obtains d where "1 < d" "d dvd n" "d * d \<le> n"
proof -
  from assms obtain m where m: "m dvd n" "m \<noteq> 1" "m \<noteq> n" by (auto simp: prime_number_def)
  then obtain k where k: "n = m * k" by blast
  have ne: "m \<noteq> 0" "k \<noteq> 0" "k \<noteq> 1" using assms m k by (auto intro: gr0I)
  show thesis
  proof (cases "m \<le> k")
    case True
    then show ?thesis using that [of m] ne m k by simp
  next
    case False
    then show ?thesis using that [of k] ne m k by simp
  qed
qed

lemma is_prime_iff:
  assumes n: "n < u64_limit"
  shows "is_prime n \<longleftrightarrow> prime_number n"
proof -
  consider "n < 2" | "2 \<le> n" "even n"
    | p where "2 \<le> n" "odd n" "small_prime_factor SMALL_ODD_PRIMES n = Some p"
    | "2 \<le> n" "odd n" "small_prime_factor SMALL_ODD_PRIMES n = None"
    by (cases "small_prime_factor SMALL_ODD_PRIMES n") force+
  then show ?thesis
  proof cases
    case 1
    then show ?thesis by (simp add: is_prime_def prime_number_def)
  next
    case 2
    have "prime_number 2" unfolding prime_number_upt by simp
    moreover have "n = 2" if "prime_number n" using that 2 by (auto simp: prime_number_def)
    ultimately show ?thesis using 2 by (auto simp: is_prime_def even_iff_mod_2_eq_zero)
  next
    case (3 p)
    have p: "p dvd n" "prime_number p"
      using small_prime_factor_Some [OF 3(3)] small_odd_primes_prime by (auto simp: list_all_iff)
    then have "n = p" if "prime_number n" using that by (auto simp: prime_number_def)
    then show ?thesis using 3 p by (auto simp: is_prime_def odd_iff_mod_2_eq_one)
  next
    case 4
    let ?s = "isqrt_u64 n"
    have "is_prime n = trial_division n ?s 59"
      using 4 by (simp add: is_prime_def odd_iff_mod_2_eq_one)
    also have "\<dots> = prime_number n"
    proof
      assume td: "trial_division n ?s 59"
      show "prime_number n"
      proof (rule ccontr)
        assume "\<not> prime_number n"
        then obtain d where d: "1 < d" "d dvd n" "d * d \<le> n" using least_divisor [of n] 4(1) by auto
        have "odd d" using d(2) 4(2) dvd_trans by blast
        show False
        proof (cases "d < 59")
          case True
          then show False using small_odd_primes_cover [OF d(1) _ \<open>odd d\<close>] 4(3) d(2)
            by (auto simp: small_prime_factor_None dest: dvd_trans)
        next
          case False
          then have "d = 59 + 2 * ((d - 59) div 2)" using \<open>odd d\<close> by presburger
          then show False using td d isqrt_u64_max [OF n d(3)]
            by (metis trial_division_iff)
        qed
      qed
    next
      assume "prime_number n"
      show "trial_division n ?s 59"
        unfolding trial_division_iff
      proof (intro allI impI notI)
        fix k assume k: "59 + 2 * k \<le> ?s" "59 + 2 * k dvd n"
        then have "59 + 2 * k = n" using \<open>prime_number n\<close> by (auto simp: prime_number_def)
        moreover have "?s * ?s \<le> n" using isqrt_u64_bounds [OF n] by simp
        moreover have "n * n \<le> ?s * ?s" using k(1) calculation by (simp add: mult_le_mono)
        ultimately have "n * n \<le> n * 1" by linarith
        then show False using 4(1) by (simp only: mult_le_cancel1) simp
      qed
    qed
    finally show ?thesis .
  qed
qed

section \<open>What a validated key is\<close>

text \<open>The specification of a key: the elements the paper's set of primes allows.\<close>

definition valid_key :: "nat list \<Rightarrow> bool" where
  "valid_key key \<longleftrightarrow>
     key \<noteq> [] \<and> length key \<le> MAX_KEY_ELEMENTS \<and> distinct key \<and>
     (\<forall>k \<in> set key. MIN_KEY_PRIME \<le> k \<and> k \<le> MAX_KEY_PRIME \<and> prime_number k)"

lemma validate_ranges_Ok:
  "validate_ranges i ks = Ok () \<longleftrightarrow> (\<forall>k \<in> set ks. MIN_KEY_PRIME \<le> k \<and> k \<le> MAX_KEY_PRIME)"
  by (induction i ks rule: validate_ranges.induct) (auto simp: key_consts)

lemma validate_primality_Ok:
  "validate_primality i ks = Ok () \<longleftrightarrow> (\<forall>k \<in> set ks. is_prime k)"
  by (induction i ks rule: validate_primality.induct) auto

lemma find_duplicate_Ok: "find_duplicate i k j ks = Ok () \<longleftrightarrow> k \<notin> set ks"
  by (induction i k j ks rule: find_duplicate.induct) auto

lemma validate_distinct_Ok: "validate_distinct i ks = Ok () \<longleftrightarrow> distinct ks"
  by (induction i ks rule: validate_distinct.induct) (auto simp: find_duplicate_Ok)

lemma find_duplicate_not_Panic: "find_duplicate i k j ks \<noteq> Panic"
  by (induction i k j ks rule: find_duplicate.induct) auto

lemma validate_not_Panic [simp]:
  "validate_ranges i ks \<noteq> Panic" "validate_primality i ks \<noteq> Panic" "validate_distinct i ks \<noteq> Panic"
proof -
  show "validate_ranges i ks \<noteq> Panic" by (induction i ks rule: validate_ranges.induct) auto
  show "validate_primality i ks \<noteq> Panic" by (induction i ks rule: validate_primality.induct) auto
  show "validate_distinct i ks \<noteq> Panic"
  proof (induction i ks rule: validate_distinct.induct)
    case (2 i k ks)
    then show ?case
      using find_duplicate_not_Panic [of i k "Suc i" ks]
      by (cases "find_duplicate i k (Suc i) ks") auto
  qed simp
qed

lemma validate_key_not_Panic: "validate_key key \<noteq> Panic"
  by (simp add: validate_key_def)

lemma validate_key_Ok_iff: "validate_key key = Ok () \<longleftrightarrow> valid_key key"
proof -
  have "is_prime k \<longleftrightarrow> prime_number k" if "k \<le> MAX_KEY_PRIME" for k
    using that by (intro is_prime_iff) (simp add: u64_limit_def key_consts)
  then show ?thesis
    by (auto simp: validate_key_def valid_key_def validate_ranges_Ok validate_primality_Ok
        validate_distinct_Ok)
qed

lemma valid_keyD:
  assumes "valid_key key"
  shows "key \<noteq> []" "length key \<le> 128" "distinct key"
    "\<And>k. k \<in> set key \<Longrightarrow> 1000000 \<le> k \<and> k \<le> 14999999"
  using assms by (auto simp: valid_key_def key_consts)

lemma validate_v7_elements_Ok:
  "validate_v7_elements i seen ks = Ok () \<longleftrightarrow>
     (\<forall>k \<in> set ks. 2 \<le> k \<and> k < 2 ^ 40) \<and> distinct ks \<and> set ks \<inter> set seen = {}"
  by (induction i seen ks rule: validate_v7_elements.induct) (auto simp: key_consts)

definition v7_key :: "nat list \<Rightarrow> bool" where
  "v7_key key \<longleftrightarrow> key \<noteq> [] \<and> length key \<le> MAX_KEY_ELEMENTS \<and> distinct key \<and>
     (\<forall>k \<in> set key. 2 \<le> k \<and> k < 2 ^ 40)"

lemma validate_key_v7_decrypt_Ok_iff: "validate_key_v7_decrypt key = Ok () \<longleftrightarrow> v7_key key"
  by (auto simp: validate_key_v7_decrypt_def v7_key_def validate_v7_elements_Ok)

lemma valid_key_v7: "valid_key key \<Longrightarrow> v7_key key"
  by (auto simp: valid_key_def v7_key_def key_consts)

section \<open>What the generator returns\<close>

definition drawn :: "nat \<Rightarrow> nat \<Rightarrow> nat \<Rightarrow> nat list \<Rightarrow> bool" where
  "drawn count lo hi ps \<longleftrightarrow>
     distinct ps \<and> length ps \<le> count \<and> (\<forall>k \<in> set ps. is_prime k \<and> lo \<le> k \<and> k \<le> hi)"

lemma set_insert_at: "set (insert_at pos x xs) = insert x (set xs)"
  unfolding insert_at_def
  by (metis append_take_drop_id list.simps(15) set_append Un_insert_right)

lemma keygen_loop_drawn:
  assumes "\<And>i. lo \<le> draw i \<and> draw i \<le> hi"
  shows "set index = set primes \<Longrightarrow> drawn count lo hi primes \<Longrightarrow>
         drawn count lo hi (keygen_loop draw count left attempts index primes)"
proof (induction left arbitrary: attempts index primes)
  case (Suc left)
  let ?num = "draw attempts"
  show ?case
  proof (cases "length primes < count \<and> ?num \<notin> set index \<and> is_prime ?num")
    case True
    then have "drawn count lo hi (primes @ [?num])"
      using Suc.prems assms by (simp add: drawn_def)
    then show ?thesis
      using True Suc.prems(1) by (simp add: Let_def binary_search_slot_def Suc.IH set_insert_at)
  next
    case False
    then show ?thesis using Suc.prems by (auto simp: Let_def binary_search_slot_def Suc.IH)
  qed
qed simp

lemma generate_prime_numbers_core_Ok:
  assumes "generate_prime_numbers_core draw count lo hi = Ok primes"
    and "\<And>i. lo \<le> draw i \<and> draw i \<le> hi" and "hi < u64_limit"
  shows "length primes = count \<and> distinct primes \<and>
         (\<forall>k \<in> set primes. lo \<le> k \<and> k \<le> hi \<and> prime_number k)"
proof -
  from assms(1) obtain left where primes: "primes = keygen_loop draw count left 0 [] []"
      and len: "count \<le> length primes"
    by (auto simp: generate_prime_numbers_core_def Let_def split: if_splits)
  have "drawn count lo hi primes"
    unfolding primes by (rule keygen_loop_drawn [OF assms(2)]) (simp_all add: drawn_def)
  with len assms(3) show ?thesis by (auto simp: drawn_def is_prime_iff)
qed

section \<open>A concrete key\<close>

definition sample_key :: "nat list" where
  "sample_key = [1000003, 1000033]"

lemma is_prime_near_million:
  assumes "1000000 \<le> n" "n < 1002001" "odd n" "small_prime_factor SMALL_ODD_PRIMES n = None"
    and "trial_division n 1000 59"
  shows "is_prime n"
proof -
  have "isqrt_u64 n = 1000" using assms(1,2) by (intro isqrt_u64_unique) (simp_all add: u64_limit_def)
  with assms show ?thesis by (simp add: is_prime_def odd_iff_mod_2_eq_one)
qed

text \<open>One evaluation of the trial division per prime.\<close>

lemma trial_1000003: "trial_division 1000003 1000 59"
  by (simp add: trial_division.simps)

lemma trial_1000033: "trial_division 1000033 1000 59"
  by (simp add: trial_division.simps)

lemma sample_primes: "is_prime 1000003" "is_prime 1000033"
  by (simp_all add: is_prime_near_million trial_1000003 trial_1000033 SMALL_ODD_PRIMES_def)

lemma validate_sample_key: "validate_key sample_key = Ok ()"
  by (simp add: validate_key_def sample_key_def key_consts sample_primes)

lemma valid_sample_key: "valid_key sample_key"
  using validate_sample_key by (simp add: validate_key_Ok_iff)

section \<open>Properties\<close>

text \<open>
  C18: trial division decides primality: for every \<open>u64\<close> value \<open>is_prime\<close> returns true
  exactly when the value exceeds one and has no divisor besides one and itself.
\<close>

theorem is_prime_correct:
  assumes "n < u64_limit"
  shows "is_prime n \<longleftrightarrow> prime_number n"
  by (rule is_prime_iff [OF assms])

theorem is_prime_correct_witness:
  "is_prime 1000003 \<and> prime_number 1000003"
  using is_prime_correct [of 1000003] sample_primes(1) by (simp add: u64_limit_def)

text \<open>
  C17: \<open>validate_key\<close> accepts exactly the non-empty tuples of at most 128 distinct primes
  of the normative interval, and answers every other tuple with an error, never with a panic.
\<close>

theorem validate_key_characterisation:
  "(validate_key key = Ok () \<longleftrightarrow>
      key \<noteq> [] \<and> length key \<le> 128 \<and> distinct key \<and>
      list_all (\<lambda>k. 1000000 \<le> k \<and> k \<le> 14999999 \<and> prime_number k) key)
   \<and> validate_key key \<noteq> Panic"
  using validate_key_Ok_iff [of key] validate_key_not_Panic [of key]
  by (simp add: valid_key_def key_consts list_all_iff)

end
