(* ===== verification/Derive.thy ===== *)
theory Derive
  imports Primes
begin

text \<open>
  The HMAC schedule of \<open>rust/src/lib.rs\<close>: every secret value is the digest of
  \<open>domain || nonce || context\<close> under one key. \<open>H\<close> is the keyed hash. The derivations
  that divide by \<open>key_element - 1\<close> or slice their argument return \<open>Panic\<close> where the
  Rust expression panics.
\<close>

section \<open>Sizes and alphabets\<close>

definition NONCE_SIZE :: nat where "NONCE_SIZE = 16"
definition TAG_SIZE :: nat where "TAG_SIZE = 32"
definition AAD_LEN_WIDTH_V8 :: nat where "AAD_LEN_WIDTH_V8 = 8"
definition AAD_LEN_WIDTH_V7 :: nat where "AAD_LEN_WIDTH_V7 = 4"
definition NOISE_ALPHABET :: nat where "NOISE_ALPHABET = 96"
definition PAD_ALPHABET :: nat where "PAD_ALPHABET = 95"
definition ASCII_PRINTABLE_BASE :: nat where "ASCII_PRINTABLE_BASE = 32"
definition MAX_NOISE_RUN :: nat where "MAX_NOISE_RUN = 19"
definition FORMAT_BLOCK_V8 :: byte where "FORMAT_BLOCK_V8 = 0x01"
definition FORMAT_STREAM_AE_V8 :: byte where "FORMAT_STREAM_AE_V8 = 0x02"

lemmas size_consts [simp] =
  NONCE_SIZE_def TAG_SIZE_def AAD_LEN_WIDTH_V8_def AAD_LEN_WIDTH_V7_def MAX_NOISE_RUN_def

lemmas alphabet_consts = NOISE_ALPHABET_def PAD_ALPHABET_def ASCII_PRINTABLE_BASE_def

section \<open>Serialisation helpers\<close>

text \<open>\<open>k.to_be_bytes()[3..8]\<close> for each element.\<close>

definition be5 :: "nat \<Rightarrow> bytes" where
  "be5 n = drop 3 (be_bytes 8 n)"

definition key_bytes :: "nat list \<Rightarrow> bytes" where
  "key_bytes key = concat (map be5 key)"

definition hmac_digest :: "mac \<Rightarrow> bytes \<Rightarrow> bytes \<Rightarrow> bytes" where
  "hmac_digest H kb data = be_bytes 32 (unat (H kb data))"

definition u64_from_be8 :: "bytes \<Rightarrow> nat" where
  "u64_from_be8 b = be_val (take 8 b)"

definition u32_from_be4 :: "bytes \<Rightarrow> nat" where
  "u32_from_be4 b = be_val (take 4 b)"

text \<open>The \<open>assert!\<close> of a prefix narrower than eight bytes is a release-mode panic.\<close>

definition be_len_prefix :: "nat \<Rightarrow> nat \<Rightarrow> (bytes, error) res" where
  "be_len_prefix n width =
     (if width < 8 \<and> \<not> n < 2 ^ (8 * width) then Panic
      else Ok (drop (8 - width) (be_bytes 8 n)))"

definition check_v7_aad_len :: "nat \<Rightarrow> (unit, error) res" where
  "check_v7_aad_len aad_len =
     (if 2 ^ 32 - 1 < aad_len then Err (PadError (AadTooLong aad_len)) else Ok ())"

text \<open>\<open>subtle::ConstantTimeEq\<close> on slices: equal lengths and equal bytes.\<close>

definition ct_eq_bytes :: "bytes \<Rightarrow> bytes \<Rightarrow> bool" where
  "ct_eq_bytes a b \<longleftrightarrow> length a = length b \<and> list_all (\<lambda>(x, y). x = y) (zip a b)"

section \<open>Derivations\<close>

definition schedule_data :: "byte \<Rightarrow> bytes \<Rightarrow> bytes \<Rightarrow> bytes" where
  "schedule_data domain nonce ctx = domain # nonce @ ctx"

text \<open>\<open>u64 as f64 / TWO_POW_64 < noise_p\<close>, the v7 decision.\<close>

definition is_noise_pos :: "mac \<Rightarrow> bytes \<Rightarrow> bytes \<Rightarrow> nat \<Rightarrow> f64 \<Rightarrow> bool" where
  "is_noise_pos H kb nonce ct_pos noise_p =
     (let d = hmac_digest H kb (schedule_data 0x00 nonce (be5 ct_pos));
          v = f64_div_two64 (f64_of_nat (u64_from_be8 d))
      in f64_less v noise_p)"

definition derive_addend :: "mac \<Rightarrow> bytes \<Rightarrow> bytes \<Rightarrow> nat \<Rightarrow> nat \<Rightarrow> (nat, error) res" where
  "derive_addend H kb nonce real_idx key_element =
     (let d = hmac_digest H kb (schedule_data 0x01 nonce (be5 real_idx))
      in if key_element < 2 then Panic
         else Ok (u32_from_be4 d mod (key_element - 1) + 1))"

definition derive_noise_char :: "mac \<Rightarrow> bytes \<Rightarrow> bytes \<Rightarrow> nat \<Rightarrow> nat" where
  "derive_noise_char H kb nonce ct_pos =
     (let d = hmac_digest H kb (schedule_data 0x04 nonce (be5 ct_pos))
      in u32_from_be4 d mod NOISE_ALPHABET + ASCII_PRINTABLE_BASE)"

definition derive_noise_token_addend ::
    "mac \<Rightarrow> bytes \<Rightarrow> bytes \<Rightarrow> nat \<Rightarrow> nat \<Rightarrow> (nat, error) res" where
  "derive_noise_token_addend H kb nonce ct_pos key_element =
     (let d = hmac_digest H kb (schedule_data 0x05 nonce (be5 ct_pos))
      in if key_element < 2 then Panic
         else Ok (u32_from_be4 d mod (key_element - 1) + 1))"

definition derive_noise_p :: "mac \<Rightarrow> bytes \<Rightarrow> bytes \<Rightarrow> f64" where
  "derive_noise_p H kb nonce =
     (let d = hmac_digest H kb (schedule_data 0x02 nonce []);
          t = f64_div_two64 (f64_of_nat (u64_from_be8 d))
      in f64_add f64_0_75 (f64_mul t (f64_sub f64_0_99 f64_0_75)))"

definition THETA_MIN :: nat where "THETA_MIN = 75 * 2 ^ 64 div 100"
definition THETA_MAX :: nat where "THETA_MAX = 99 * 2 ^ 64 div 100"

definition derive_noise_threshold_v8 :: "mac \<Rightarrow> bytes \<Rightarrow> bytes \<Rightarrow> nat" where
  "derive_noise_threshold_v8 H kb nonce =
     (let d = hmac_digest H kb (schedule_data 0x02 nonce []);
          tau = u64_from_be8 d
      in THETA_MIN + tau * (THETA_MAX - THETA_MIN) div 2 ^ 64)"

definition is_noise_pos_v8 :: "mac \<Rightarrow> bytes \<Rightarrow> bytes \<Rightarrow> nat \<Rightarrow> nat \<Rightarrow> bool" where
  "is_noise_pos_v8 H kb nonce ct_pos theta =
     (let d = hmac_digest H kb (schedule_data 0x00 nonce (be5 ct_pos))
      in u64_from_be8 d < theta)"

text \<open>\<open>split_at\<close> panics on a payload shorter than the nonce.\<close>

definition compute_auth_tag :: "mac \<Rightarrow> bytes \<Rightarrow> bytes \<Rightarrow> bytes \<Rightarrow> nat \<Rightarrow> (bytes, error) res" where
  "compute_auth_tag H kb aad payload aad_len_width =
     (if length payload < NONCE_SIZE then Panic
      else res_bind (be_len_prefix (length aad) aad_len_width) (\<lambda>prefix.
        Ok (hmac_digest H kb
              (schedule_data 0x03 (take NONCE_SIZE payload)
                 (prefix @ aad @ drop NONCE_SIZE payload)))))"

definition derive_format_subkey :: "mac \<Rightarrow> bytes \<Rightarrow> byte \<Rightarrow> bytes" where
  "derive_format_subkey H sk format_id = hmac_digest H sk [0x0B, format_id]"

definition synthetic_nonce :: "mac \<Rightarrow> bytes \<Rightarrow> bytes \<Rightarrow> bytes \<Rightarrow> (bytes, error) res" where
  "synthetic_nonce H sk_fmt aad message =
     res_bind (be_len_prefix (length aad) AAD_LEN_WIDTH_V8) (\<lambda>prefix.
       Ok (take NONCE_SIZE (hmac_digest H sk_fmt (0x0A # prefix @ aad @ message))))"

section \<open>Facts about the schedule\<close>

lemma length_be5 [simp]: "length (be5 n) = 5"
  by (simp add: be5_def)

lemma length_hmac_digest [simp]: "length (hmac_digest H kb data) = 32"
  by (simp add: hmac_digest_def)

lemma length_key_bytes [simp]: "length (key_bytes key) = 5 * length key"
  unfolding key_bytes_def by (rule length_concat_const) simp

lemma hmac_digest_inj: "hmac_digest H kb x = hmac_digest H' kb' y \<longleftrightarrow> H kb x = H' kb' y"
proof
  assume "hmac_digest H kb x = hmac_digest H' kb' y"
  then have "unat (H kb x) mod 256 ^ 32 = unat (H' kb' y) mod 256 ^ 32"
    unfolding hmac_digest_def by (metis be_val_be_bytes)
  moreover have "unat w < 256 ^ 32" for w :: "256 word"
    using unsigned_less [of w, where 'a = nat] by simp
  ultimately show "H kb x = H' kb' y" by (simp only: mod_less unsigned_word_eqI)
qed (simp add: hmac_digest_def)

lemma ct_eq_bytes_iff [simp]: "ct_eq_bytes a b \<longleftrightarrow> a = b"
  by (auto simp: ct_eq_bytes_def list_all_iff list_eq_iff_zip_eq)

lemma be_len_prefix_8 [simp]: "be_len_prefix n 8 = Ok (be_bytes 8 n)"
  by (simp add: be_len_prefix_def)

definition addend_value :: "mac \<Rightarrow> bytes \<Rightarrow> bytes \<Rightarrow> byte \<Rightarrow> nat \<Rightarrow> nat \<Rightarrow> nat" where
  "addend_value H kb nonce domain i k =
     u32_from_be4 (hmac_digest H kb (schedule_data domain nonce (be5 i))) mod (k - 1) + 1"

lemma addend_value_bounds: "2 \<le> k \<Longrightarrow> 0 < addend_value H kb nonce d i k \<and> addend_value H kb nonce d i k < k"
  unfolding addend_value_def
  using mod_less_divisor [of "k - 1" "u32_from_be4 (hmac_digest H kb (schedule_data d nonce (be5 i)))"]
  by linarith

lemma derive_addend_Ok: "2 \<le> k \<Longrightarrow> derive_addend H kb nonce i k = Ok (addend_value H kb nonce 0x01 i k)"
  by (simp add: derive_addend_def addend_value_def)

lemma derive_noise_token_addend_Ok:
  "2 \<le> k \<Longrightarrow> derive_noise_token_addend H kb nonce i k = Ok (addend_value H kb nonce 0x05 i k)"
  by (simp add: derive_noise_token_addend_def addend_value_def)

lemma derive_noise_char_bounds:
  "32 \<le> derive_noise_char H kb nonce i \<and> derive_noise_char H kb nonce i \<le> 127"
proof -
  have "x mod 96 + 32 \<le> 127" for x :: nat using mod_less_divisor [of 96 x] by linarith
  then show ?thesis by (simp add: derive_noise_char_def alphabet_consts Let_def)
qed

lemma u64_from_be8_less: "u64_from_be8 b < 2 ^ 64"
proof -
  have "be_val (take 8 b) < 256 ^ length (take 8 b)" by (rule be_val_less)
  also have "\<dots> \<le> 256 ^ 8" by (rule power_increasing) simp_all
  finally show ?thesis by (simp add: u64_from_be8_def)
qed

lemma theta_bounds:
  "THETA_MIN \<le> derive_noise_threshold_v8 H kb nonce \<and>
   derive_noise_threshold_v8 H kb nonce \<le> THETA_MAX \<and> THETA_MAX < u64_limit"
proof -
  let ?tau = "u64_from_be8 (hmac_digest H kb (schedule_data 0x02 nonce []))"
  let ?w = "THETA_MAX - THETA_MIN"
  have "?tau * ?w \<le> 2 ^ 64 * ?w"
    using u64_from_be8_less by (intro mult_le_mono1) (simp add: less_imp_le)
  then have "?tau * ?w div 2 ^ 64 \<le> ?w" by (metis div_le_mono nonzero_mult_div_cancel_left power_not_zero zero_neq_numeral)
  moreover have "THETA_MIN \<le> THETA_MAX" by (simp add: THETA_MIN_def THETA_MAX_def)
  ultimately show ?thesis
    by (simp add: derive_noise_threshold_v8_def Let_def THETA_MAX_def u64_limit_def del: One_nat_def)
qed

lemma compute_auth_tag_v8:
  "16 \<le> length payload \<Longrightarrow>
   compute_auth_tag H kb aad payload AAD_LEN_WIDTH_V8 =
     Ok (hmac_digest H kb (schedule_data 0x03 (take 16 payload)
           (be_bytes 8 (length aad) @ aad @ drop 16 payload)))"
  by (simp add: compute_auth_tag_def)

lemma compute_auth_tag_v7:
  "16 \<le> length payload \<Longrightarrow> length aad < 2 ^ 32 \<Longrightarrow>
   compute_auth_tag H kb aad payload AAD_LEN_WIDTH_V7 =
     Ok (hmac_digest H kb (schedule_data 0x03 (take 16 payload)
           (drop 4 (be_bytes 8 (length aad)) @ aad @ drop 16 payload)))"
  by (simp add: compute_auth_tag_def be_len_prefix_def)

lemma synthetic_nonce_Ok:
  "synthetic_nonce H sk_fmt aad message =
     Ok (take 16 (hmac_digest H sk_fmt (0x0A # be_bytes 8 (length aad) @ aad @ message)))"
  by (simp add: synthetic_nonce_def)

lemma schedule_data_length: "length (schedule_data d nonce ctx) = 1 + length nonce + length ctx"
  by (simp add: schedule_data_def)

text \<open>Two schedule inputs with nonces of one length agree only part by part.\<close>

lemma schedule_data_inj:
  "length n1 = length n2 \<Longrightarrow>
   schedule_data d1 n1 c1 = schedule_data d2 n2 c2 \<longleftrightarrow> d1 = d2 \<and> n1 = n2 \<and> c1 = c2"
  by (simp add: schedule_data_def)

end
