(* ===== verification/Padding.thy ===== *)
theory Padding
  imports Derive
begin

text \<open>
  Length hiding of \<open>rust/src/lib.rs\<close>: the padding profiles, the padded block with its
  two-codepoint length prefix, its removal, and the HMAC-CTR keystream.
\<close>

section \<open>Padding profiles\<close>

definition PAD_MIN_EXP :: nat where "PAD_MIN_EXP = 4"
definition PAD_MAX_EXP :: nat where "PAD_MAX_EXP = 16"
definition MAX_PLAINTEXT_CODEPOINTS :: nat where "MAX_PLAINTEXT_CODEPOINTS = 0xFFFF"

lemmas pad_consts [simp] = PAD_MIN_EXP_def PAD_MAX_EXP_def MAX_PLAINTEXT_CODEPOINTS_def

datatype PadProfile = Bucket | Coarse nat | Frame nat

text \<open>\<open>usize::BITS - n.leading_zeros()\<close> is the number of significant bits.\<close>

definition bit_length :: "nat \<Rightarrow> nat" where
  "bit_length n = bit_len n"

definition bucket_block_size :: "nat \<Rightarrow> nat" where
  "bucket_block_size n = 2 ^ max (bit_length n) PAD_MIN_EXP"

fun trailing_zeros :: "nat \<Rightarrow> nat \<Rightarrow> nat" where
  "trailing_zeros 0 n = 0"
| "trailing_zeros (Suc w) n = (if odd n then 0 else Suc (trailing_zeros w (n div 2)))"

definition is_power_of_two :: "nat \<Rightarrow> bool" where
  "is_power_of_two n \<longleftrightarrow> 0 < n \<and> n = 2 ^ (bit_len n - 1)"

fun block_size :: "PadProfile \<Rightarrow> nat \<Rightarrow> (nat, error) res" where
  "block_size profile n =
     (if 2 ^ PAD_MAX_EXP \<le> n then Err (PadError (BlockTooLong n))
      else let e = max (bit_length n) PAD_MIN_EXP in
        case profile of
          Bucket \<Rightarrow> Ok (bucket_block_size n)
        | Coarse g \<Rightarrow>
            let span = PAD_MAX_EXP - PAD_MIN_EXP in
            if g = 0 \<or> span mod g \<noteq> 0 then Err (PadError (CoarseStride g span))
            else let steps = (e - PAD_MIN_EXP + g - 1) div g in Ok (2 ^ (PAD_MIN_EXP + g * steps))
        | Frame f \<Rightarrow>
            if \<not> is_power_of_two f \<or> trailing_zeros 32 f < PAD_MIN_EXP
               \<or> PAD_MAX_EXP < trailing_zeros 32 f
            then Err (PadError (FrameInvalid f))
            else if f \<le> n then Err (PadError (FrameTooSmall f n))
            else Ok f)"

declare block_size.simps [simp del]

section \<open>The padded block\<close>

definition pad_codepoint :: "mac \<Rightarrow> bytes \<Rightarrow> bytes \<Rightarrow> nat \<Rightarrow> nat" where
  "pad_codepoint H kb nonce i =
     (let d = hmac_digest H kb (schedule_data 0x06 nonce (be_bytes 4 i))
      in u32_from_be4 d mod PAD_ALPHABET + ASCII_PRINTABLE_BASE)"

definition pad_to_block :: "mac \<Rightarrow> str \<Rightarrow> bytes \<Rightarrow> bytes \<Rightarrow> nat \<Rightarrow> (str, error) res" where
  "pad_to_block H msg kb nonce blk_size =
     (let n = length msg in
      if \<not> n < blk_size then Panic
      else Ok ([n div 256 mod 256, n mod 256] @ msg @
               map (pad_codepoint H kb nonce) [0..<blk_size - n]))"

definition pad_message :: "mac \<Rightarrow> str \<Rightarrow> bytes \<Rightarrow> bytes \<Rightarrow> (str, error) res" where
  "pad_message H msg kb nonce =
     (if \<not> length msg \<le> MAX_PLAINTEXT_CODEPOINTS then Panic
      else pad_to_block H msg kb nonce (bucket_block_size (length msg)))"

definition unpad_message :: "str \<Rightarrow> (str, error) res" where
  "unpad_message padded =
     (if length padded < 2 then Err (PadError PaddedTooShort)
      else if 0xFF < padded ! 0 \<or> 0xFF < padded ! 1
      then Err (PadError (PrefixNotByteValued (padded ! 0) (padded ! 1)))
      else let n = padded ! 0 * 256 + padded ! 1 in
        if length padded < 2 + n then Err (PadError (PrefixTooLong n (length padded - 2)))
        else Ok (take n (drop 2 padded)))"

section \<open>Keystream\<close>

definition keystream_block :: "mac \<Rightarrow> bytes \<Rightarrow> bytes \<Rightarrow> nat \<Rightarrow> bytes" where
  "keystream_block H kb nonce block = hmac_digest H kb (schedule_data 0x07 nonce (be_bytes 4 block))"

text \<open>\<open>block += 1\<close> on a \<open>u32\<close> panics when the counter would leave its range.\<close>

function keystream_loop :: "mac \<Rightarrow> bytes \<Rightarrow> bytes \<Rightarrow> nat \<Rightarrow> nat \<Rightarrow> bytes \<Rightarrow> (bytes, error) res" where
  "keystream_loop H kb nonce len block out =
     (if length out < len
      then if block + 1 < 2 ^ 32
           then keystream_loop H kb nonce len (block + 1) (out @ keystream_block H kb nonce block)
           else Panic
      else Ok (take len out))"
  by pat_completeness auto
termination
  by (relation "measure (\<lambda>(H, kb, nonce, len, block, out). 2 ^ 32 - block)") auto

declare keystream_loop.simps [simp del]

definition varint_keystream :: "mac \<Rightarrow> bytes \<Rightarrow> bytes \<Rightarrow> nat \<Rightarrow> (bytes, error) res" where
  "varint_keystream H kb nonce len = keystream_loop H kb nonce len 0 []"

section \<open>Block sizes\<close>

lemma bit_len_0 [simp]: "bit_len 0 = 0"
  by (simp add: bit_len.simps)

lemma less_two_bit_len: "n < 2 ^ bit_len n"
proof (induction n rule: bit_len.induct)
  case (1 n)
  show ?case
  proof (cases "n = 0")
    case False
    with 1 have "n div 2 < 2 ^ bit_len (n div 2)" by blast
    then have "n < 2 * 2 ^ bit_len (n div 2)" by linarith
    then show ?thesis using False by (subst bit_len.simps) simp
  qed simp
qed

lemma bit_len_le: "n < 2 ^ e \<Longrightarrow> bit_len n \<le> e"
proof (induction e arbitrary: n)
  case (Suc e)
  then have "bit_len (n div 2) \<le> e" by simp
  then show ?case by (subst bit_len.simps) simp
qed simp

lemma bit_len_unique:
  assumes "2 ^ e \<le> n" "n < 2 ^ Suc e"
  shows "bit_len n = Suc e"
proof -
  have "\<not> bit_len n \<le> e"
    using less_two_bit_len [of n] assms(1) power_increasing [of "bit_len n" e "2 :: nat"] by linarith
  with bit_len_le [OF assms(2)] show ?thesis by simp
qed

lemma bit_len_power: "bit_len (2 ^ e) = Suc e"
  by (induction e) (simp_all add: bit_len.simps [of "Suc 0"] bit_len.simps [of "2 * _"])

lemma trailing_zeros_power: "trailing_zeros w (2 ^ e) = min w e"
proof (induction w arbitrary: e)
  case (Suc w)
  then show ?case by (cases e) simp_all
qed simp

definition reachable_block :: "nat \<Rightarrow> bool" where
  "reachable_block B \<longleftrightarrow> (\<exists>e. PAD_MIN_EXP \<le> e \<and> e \<le> PAD_MAX_EXP \<and> B = 2 ^ e)"

lemma power_of_two_guard:
  "is_power_of_two f \<and> PAD_MIN_EXP \<le> trailing_zeros 32 f \<and> trailing_zeros 32 f \<le> PAD_MAX_EXP
     \<longleftrightarrow> reachable_block f"
proof
  assume f: "is_power_of_two f \<and> PAD_MIN_EXP \<le> trailing_zeros 32 f \<and> trailing_zeros 32 f \<le> PAD_MAX_EXP"
  then obtain e where e: "f = 2 ^ e" by (auto simp: is_power_of_two_def)
  with f show "reachable_block f" by (auto simp: trailing_zeros_power reachable_block_def)
next
  assume "reachable_block f"
  then obtain e where "4 \<le> e" "e \<le> 16" "f = 2 ^ e" by (auto simp: reachable_block_def)
  then show "is_power_of_two f \<and> PAD_MIN_EXP \<le> trailing_zeros 32 f \<and> trailing_zeros 32 f \<le> PAD_MAX_EXP"
    by (simp add: is_power_of_two_def bit_len_power trailing_zeros_power)
qed

lemma bucket_block_size_gt: "n < bucket_block_size n"
proof -
  have "(2 :: nat) ^ bit_len n \<le> 2 ^ max (bit_len n) 4" by (intro power_increasing) simp_all
  with less_two_bit_len [of n] have "n < 2 ^ max (bit_len n) 4" by linarith
  then show ?thesis by (simp add: bucket_block_size_def bit_length_def)
qed

lemma bucket_block_size_reachable: "n < 2 ^ 16 \<Longrightarrow> reachable_block (bucket_block_size n)"
  using bit_len_le [of n 16] unfolding reachable_block_def bucket_block_size_def
  by (intro exI [of _ "max (bit_length n) PAD_MIN_EXP"]) (simp add: bit_length_def)

lemma coarse_exponent:
  assumes "0 < g" "12 mod g = 0" "x \<le> 12"
  shows "x \<le> g * ((x + g - 1) div g) \<and> g * ((x + g - 1) div g) \<le> (12 :: nat)"
proof -
  let ?s = "(x + g - 1) div g"
  have m: "g * ?s + (x + g - 1) mod g = x + g - 1" by simp
  have r: "(x + g - 1) mod g < g" using assms(1) by simp
  from m r have lo: "x \<le> g * ?s" by linarith
  from assms(2) obtain q where q: "12 = g * q" by (metis dvd_eq_mod_eq_0 dvd_def)
  have "g * ?s < g * (q + 1)" using m assms(3) assms(1) unfolding distrib_left q [symmetric] by linarith
  then have "?s \<le> q" by (simp only: mult_less_cancel1) simp
  then have "g * ?s \<le> 12" unfolding q by simp
  with lo show ?thesis by blast
qed

lemma block_size_Ok:
  assumes "block_size profile n = Ok B"
  shows "reachable_block B \<and> n < B"
proof (cases profile)
  case Bucket
  then show ?thesis
    using assms bucket_block_size_gt bucket_block_size_reachable
    by (auto simp: block_size.simps Let_def split: if_splits)
next
  case (Coarse g)
  let ?x = "max (bit_length n) 4 - 4"
  have g: "n < 2 ^ 16" "0 < g" "12 mod g = 0" and B: "B = 2 ^ (4 + g * ((?x + g - 1) div g))"
    using assms Coarse by (auto simp: block_size.simps Let_def split: if_splits)
  have "?x \<le> 12" using bit_len_le [of n 16] g(1) by (simp add: bit_length_def)
  note c = coarse_exponent [OF g(2,3) this]
  have "bit_len n \<le> 4 + ?x" by (simp add: bit_length_def)
  also have "\<dots> \<le> 4 + g * ((?x + g - 1) div g)" using c by linarith
  finally have "bit_len n \<le> 4 + g * ((?x + g - 1) div g)" .
  then have "(2 :: nat) ^ bit_len n \<le> B" unfolding B by (intro power_increasing) simp_all
  then have "n < B" using less_two_bit_len [of n] by linarith
  moreover have "reachable_block B"
    unfolding reachable_block_def B using c by (intro exI conjI) auto
  ultimately show ?thesis by blast
next
  case (Frame f)
  then show ?thesis
    using assms power_of_two_guard [of f]
    by (auto simp: block_size.simps Let_def not_less split: if_splits)
qed

lemma block_size_Bucket: "n < 2 ^ 16 \<Longrightarrow> block_size Bucket n = Ok (bucket_block_size n)"
  by (simp add: block_size.simps)

lemma block_size_not_Panic: "block_size profile n \<noteq> Panic"
  by (simp add: block_size.simps Let_def split: PadProfile.split)

lemma reachable_block_cases: "reachable_block B \<Longrightarrow> 16 \<le> B \<and> B \<le> 65536"
  unfolding reachable_block_def
  using power_increasing [of 4 _ "2 :: nat"] power_increasing [of _ 16 "2 :: nat"] by fastforce

section \<open>Padding and its removal\<close>

lemma pad_to_block_Ok:
  assumes "length msg < B"
  obtains padded where "pad_to_block H msg kb nonce B = Ok padded" "length padded = B + 2"
  using assms by (auto simp: pad_to_block_def Let_def)

lemma unpad_pad:
  assumes "pad_to_block H msg kb nonce B = Ok padded" and "length msg < 2 ^ 16"
  shows "unpad_message padded = Ok msg"
proof -
  have "length msg div 256 < 256" using assms(2) by simp
  then have "length msg div 256 mod 256 * 256 + length msg mod 256 = length msg" by simp
  with assms show ?thesis
    by (auto simp: pad_to_block_def unpad_message_def Let_def not_less split: if_splits)
qed

lemma pad_codepoint_bounds: "32 \<le> pad_codepoint H kb nonce i \<and> pad_codepoint H kb nonce i \<le> 126"
proof -
  have "x mod 95 + 32 \<le> 126" for x :: nat using mod_less_divisor [of 95 x] by linarith
  then show ?thesis by (simp add: pad_codepoint_def alphabet_consts Let_def)
qed

lemma unpad_message_not_Panic: "unpad_message padded \<noteq> Panic"
  by (simp add: unpad_message_def Let_def)

section \<open>The keystream\<close>

definition keystream_spec :: "mac \<Rightarrow> bytes \<Rightarrow> bytes \<Rightarrow> nat \<Rightarrow> bytes" where
  "keystream_spec H kb nonce len =
     take len (concat (map (keystream_block H kb nonce) [0..<(len + 31) div 32]))"

lemma length_keystream_blocks [simp]:
  "length (concat (map (keystream_block H kb nonce) bs)) = 32 * length bs"
  by (rule length_concat_const) (simp add: keystream_block_def)

lemma keystream_loop_spec:
  assumes "len \<le> 32 * (2 ^ 32 - 1)" "32 * b < len + 32"
  shows "keystream_loop H kb nonce len b (concat (map (keystream_block H kb nonce) [0..<b]))
         = Ok (keystream_spec H kb nonce len)"
  using assms(2)
proof (induction "len - 32 * b" arbitrary: b rule: less_induct)
  case less
  show ?case
  proof (cases "32 * b < len")
    case True
    then have "b + 1 < 2 ^ 32" using assms(1) by simp
    then show ?thesis using True less(1) [of "b + 1"] by (subst keystream_loop.simps) simp
  next
    case False
    then have "b = (len + 31) div 32" using less(2) by simp
    then show ?thesis using False by (subst keystream_loop.simps) (simp add: keystream_spec_def)
  qed
qed

lemma varint_keystream_Ok:
  "len \<le> 32 * (2 ^ 32 - 1) \<Longrightarrow> varint_keystream H kb nonce len = Ok (keystream_spec H kb nonce len)"
  unfolding varint_keystream_def using keystream_loop_spec [of len 0] by simp

lemma length_keystream_spec [simp]: "length (keystream_spec H kb nonce len) = len"
  by (simp add: keystream_spec_def)

lemma keystream_loop_length:
  "keystream_loop H kb nonce len b out = Ok ks \<Longrightarrow> length ks = len"
proof (induction H kb nonce len b out rule: keystream_loop.induct)
  case (1 H kb nonce len block out)
  from "1.prems" show ?case
    by (subst (asm) keystream_loop.simps) (auto split: if_splits dest: "1.IH")
qed

lemma varint_keystream_length: "varint_keystream H kb nonce len = Ok ks \<Longrightarrow> length ks = len"
  unfolding varint_keystream_def by (rule keystream_loop_length)

end
