(* ===== verification/Tokens.thy ===== *)
theory Tokens
  imports Padding
begin

text \<open>
  The arithmetic layer of \<open>rust/src/lib.rs\<close>: text as codepoints and as UTF-8 bytes, the
  fixed-width token codec, the v8 emission loop with its capped noise runs, and the decoder
  that runs in lock-step with it (shared by the block format and the streaming chunks).
\<close>

section \<open>Text\<close>

text \<open>\<open>char::from_u32\<close> accepts exactly the Unicode scalar values.\<close>

definition is_scalar :: "nat \<Rightarrow> bool" where
  "is_scalar c \<longleftrightarrow> c \<le> 0x10FFFF \<and> \<not> (0xD800 \<le> c \<and> c \<le> 0xDFFF)"

text \<open>\<open>str::as_bytes\<close>.\<close>

definition utf8_char :: "nat \<Rightarrow> bytes" where
  "utf8_char c =
     (if c < 0x80 then [of_nat c]
      else if c < 0x800 then [of_nat (0xC0 + c div 64), of_nat (0x80 + c mod 64)]
      else if c < 0x10000
      then [of_nat (0xE0 + c div 4096), of_nat (0x80 + c div 64 mod 64), of_nat (0x80 + c mod 64)]
      else [of_nat (0xF0 + c div 262144), of_nat (0x80 + c div 4096 mod 64),
            of_nat (0x80 + c div 64 mod 64), of_nat (0x80 + c mod 64)])"

definition utf8_bytes :: "str \<Rightarrow> bytes" where
  "utf8_bytes s = concat (map utf8_char s)"

section \<open>Fixed-width token codec\<close>

definition TOKEN_WIDTH :: nat where [simp]: "TOKEN_WIDTH = 8"

definition fixed_encode_tokens :: "nat list \<Rightarrow> bytes" where
  "fixed_encode_tokens tokens = concat (map (be_bytes TOKEN_WIDTH) tokens)"

text \<open>\<open>data.chunks_exact(TOKEN_WIDTH)\<close>, each chunk read big-endian.\<close>

fun decode_chunks :: "nat \<Rightarrow> bytes \<Rightarrow> nat list" where
  "decode_chunks 0 data = []"
| "decode_chunks (Suc n) data = be_val (take TOKEN_WIDTH data) # decode_chunks n (drop TOKEN_WIDTH data)"

definition fixed_decode_tokens :: "bytes \<Rightarrow> (nat list, error) res" where
  "fixed_decode_tokens data =
     (if length data mod TOKEN_WIDTH \<noteq> 0 then Err (TokenError (TokenBlobLength (length data)))
      else Ok (decode_chunks (length data div TOKEN_WIDTH) data))"

section \<open>Emission\<close>

text \<open>\<open>key[(real_idx % kk) as usize]\<close>: the remainder panics for an empty key.\<close>

definition key_at :: "nat list \<Rightarrow> nat \<Rightarrow> (nat, error) res" where
  "key_at key real_idx = (if key = [] then Panic else Ok (key ! (real_idx mod length key)))"

definition noise_token :: "mac \<Rightarrow> bytes \<Rightarrow> bytes \<Rightarrow> nat \<Rightarrow> nat \<Rightarrow> (nat, error) res" where
  "noise_token H kb nonce ct_pos k =
     res_bind (mul_u64 (derive_noise_char H kb nonce ct_pos) k) (\<lambda>p.
     res_bind (derive_noise_token_addend H kb nonce ct_pos k) (\<lambda>a. add_u64 p a))"

text \<open>The expression \<open>c as u64 * k + derive_addend(kb, nonce, real_idx, k)\<close>.\<close>

definition real_token :: "mac \<Rightarrow> bytes \<Rightarrow> bytes \<Rightarrow> nat \<Rightarrow> nat \<Rightarrow> nat \<Rightarrow> (nat, error) res" where
  "real_token H kb nonce real_idx c k =
     res_bind (mul_u64 c k) (\<lambda>p.
     res_bind (derive_addend H kb nonce real_idx k) (\<lambda>a. add_u64 p a))"

text \<open>
  The inner \<open>loop\<close> for one codepoint: the tokens it pushes and the position after them.
  The guard \<open>noise_run < MAX_NOISE_RUN\<close> bounds it.
\<close>

function emit_codepoint ::
    "mac \<Rightarrow> bytes \<Rightarrow> bytes \<Rightarrow> nat list \<Rightarrow> nat \<Rightarrow> nat \<Rightarrow> nat \<Rightarrow> nat \<Rightarrow> nat \<Rightarrow> (nat list \<times> nat, error) res" where
  "emit_codepoint H kb nonce primes theta c real_idx ct_pos noise_run =
     res_bind (key_at primes real_idx) (\<lambda>k.
       if noise_run < MAX_NOISE_RUN \<and> is_noise_pos_v8 H kb nonce ct_pos theta
       then res_bind (noise_token H kb nonce ct_pos k) (\<lambda>t.
            res_bind (emit_codepoint H kb nonce primes theta c real_idx (ct_pos + 1) (noise_run + 1))
              (\<lambda>(ts, pos). Ok (t # ts, pos)))
       else res_bind (real_token H kb nonce real_idx c k) (\<lambda>t. Ok ([t], ct_pos + 1)))"
  by pat_completeness auto
termination
  by (relation "measure (\<lambda>(H, kb, nonce, primes, theta, c, real_idx, ct_pos, noise_run).
        MAX_NOISE_RUN - noise_run)") auto

declare emit_codepoint.simps [simp del]

text \<open>The loop \<open>for &c in padded\<close>.\<close>

fun emit_codepoints ::
    "mac \<Rightarrow> bytes \<Rightarrow> bytes \<Rightarrow> nat list \<Rightarrow> nat \<Rightarrow> str \<Rightarrow> nat \<Rightarrow> nat \<Rightarrow> (nat list \<times> nat \<times> nat, error) res" where
  "emit_codepoints H kb nonce primes theta [] real_idx ct_pos = Ok ([], real_idx, ct_pos)"
| "emit_codepoints H kb nonce primes theta (c # cs) real_idx ct_pos =
     res_bind (emit_codepoint H kb nonce primes theta c real_idx ct_pos 0) (\<lambda>(ts, pos).
     res_bind (emit_codepoints H kb nonce primes theta cs (real_idx + 1) pos) (\<lambda>(us, i, pos').
       Ok (ts @ us, i, pos')))"

text \<open>The loop \<open>while cypher.len() < ceiling\<close>; \<open>missing\<close> is the difference.\<close>

fun top_up ::
    "mac \<Rightarrow> bytes \<Rightarrow> bytes \<Rightarrow> nat list \<Rightarrow> nat \<Rightarrow> nat \<Rightarrow> nat \<Rightarrow> (nat list, error) res" where
  "top_up H kb nonce primes real_idx ct_pos 0 = Ok []"
| "top_up H kb nonce primes real_idx ct_pos (Suc missing) =
     res_bind (key_at primes real_idx) (\<lambda>k.
     res_bind (noise_token H kb nonce ct_pos k) (\<lambda>t.
     res_bind (top_up H kb nonce primes real_idx (ct_pos + 1) missing) (\<lambda>ts. Ok (t # ts))))"

definition emit_tokens_v8 ::
    "mac \<Rightarrow> str \<Rightarrow> nat list \<Rightarrow> bytes \<Rightarrow> bytes \<Rightarrow> (nat list, error) res" where
  "emit_tokens_v8 H padded primes sk_fmt nonce =
     (let noise_theta = derive_noise_threshold_v8 H sk_fmt nonce;
          ceiling = length padded * (MAX_NOISE_RUN + 1)
      in res_bind (emit_codepoints H sk_fmt nonce primes noise_theta padded 0 0) (\<lambda>(ts, real_idx, ct_pos).
         res_bind (top_up H sk_fmt nonce primes real_idx ct_pos (ceiling - length ts)) (\<lambda>us.
           Ok (ts @ us))))"

section \<open>Recovery\<close>

text \<open>The inner \<open>while\<close> of both decoders: position and run length where it stops.\<close>

function skip_noise :: "mac \<Rightarrow> bytes \<Rightarrow> bytes \<Rightarrow> nat \<Rightarrow> nat \<Rightarrow> nat \<Rightarrow> nat \<Rightarrow> nat \<times> nat" where
  "skip_noise H kb nonce theta n_tokens ct_pos noise_run =
     (if noise_run < MAX_NOISE_RUN \<and> ct_pos < n_tokens \<and> is_noise_pos_v8 H kb nonce ct_pos theta
      then skip_noise H kb nonce theta n_tokens (ct_pos + 1) (noise_run + 1)
      else (ct_pos, noise_run))"
  by pat_completeness auto
termination
  by (relation "measure (\<lambda>(H, kb, nonce, theta, n_tokens, ct_pos, noise_run). n_tokens - ct_pos)") auto

declare skip_noise.simps [simp del]

text \<open>The three errors of a decoder, which differ in wording between the two formats.\<close>

record decode_errors =
  truncated :: "nat \<Rightarrow> nat \<Rightarrow> nat \<Rightarrow> error"
  malformed :: "nat \<Rightarrow> nat \<Rightarrow> error"
  not_scalar :: "nat \<Rightarrow> nat \<Rightarrow> error"

text \<open>
  One token: \<open>token < addend || (token - addend) % k != 0\<close> is malformed, the quotient must
  be a Unicode scalar value.
\<close>

definition recover_token :: "decode_errors \<Rightarrow> nat \<Rightarrow> nat \<Rightarrow> nat \<Rightarrow> nat \<Rightarrow> (nat, error) res" where
  "recover_token errs token addend k ct_pos =
     (if token < addend \<or> (token - addend) mod k \<noteq> 0 then Err (malformed errs ct_pos k)
      else let cp = (token - addend) div k in
        if \<not> is_scalar cp then Err (not_scalar errs cp ct_pos) else Ok cp)"

text \<open>The outer \<open>while real_idx < real_count\<close>; \<open>todo\<close> is \<open>real_count - real_idx\<close>.\<close>

fun recover_loop ::
    "mac \<Rightarrow> decode_errors \<Rightarrow> bytes \<Rightarrow> bytes \<Rightarrow> nat list \<Rightarrow> nat list \<Rightarrow> nat \<Rightarrow> nat \<Rightarrow> nat \<Rightarrow> nat \<Rightarrow> (str, error) res" where
  "recover_loop H errs kb nonce key cypher theta 0 real_idx ct_pos = Ok []"
| "recover_loop H errs kb nonce key cypher theta (Suc todo) real_idx ct_pos =
     (case skip_noise H kb nonce theta (length cypher) ct_pos 0 of
        (pos, noise_run) \<Rightarrow>
          if length cypher \<le> pos then Err (truncated errs pos real_idx noise_run)
          else res_bind (key_at key real_idx) (\<lambda>k.
               res_bind (derive_addend H kb nonce real_idx k) (\<lambda>addend.
               res_bind (recover_token errs (cypher ! pos) addend k pos) (\<lambda>cp.
               res_bind (recover_loop H errs kb nonce key cypher theta todo (real_idx + 1) (pos + 1)) (\<lambda>cps.
                 Ok (cp # cps))))))"

definition block_errors :: "nat \<Rightarrow> nat \<Rightarrow> decode_errors" where
  "block_errors n_tokens real_count =
     \<lparr>truncated = (\<lambda>ct_pos real_idx noise_run.
         TokenError (Truncated ct_pos n_tokens real_idx real_count noise_run)),
      malformed = (\<lambda>ct_pos k. TokenError (MalformedToken ct_pos k)),
      not_scalar = (\<lambda>cp ct_pos. TokenError (NotScalar cp ct_pos))\<rparr>"

definition decrypt_core_v8 ::
    "mac \<Rightarrow> bytes \<Rightarrow> nat list \<Rightarrow> nat list \<Rightarrow> bytes \<Rightarrow> (str, error) res" where
  "decrypt_core_v8 H nonce cypher key kb =
     (let ceiling_unit = MAX_NOISE_RUN + 1;
          n_tokens = length cypher;
          real_count = n_tokens div ceiling_unit
      in if n_tokens mod ceiling_unit \<noteq> 0 then Err (TokenError TokenCount)
         else if \<not> (2 \<le> real_count \<and> is_power_of_two (real_count - 2)
                    \<and> PAD_MIN_EXP \<le> trailing_zeros 64 (real_count - 2)
                    \<and> trailing_zeros 64 (real_count - 2) \<le> PAD_MAX_EXP)
         then Err (TokenError (RealCount real_count))
         else res_bind
                (recover_loop H (block_errors n_tokens real_count) kb nonce key cypher
                   (derive_noise_threshold_v8 H kb nonce) real_count 0 0)
                unpad_message)"

definition chunk_errors :: decode_errors where
  "chunk_errors =
     \<lparr>truncated = (\<lambda>_ _ _. TokenError ChunkTruncated),
      malformed = (\<lambda>ct_pos _. TokenError (ChunkMalformed ct_pos)),
      not_scalar = (\<lambda>cp _. TokenError (ChunkNotScalar cp))\<rparr>"

definition decrypt_v8_stream_chunk_core ::
    "mac \<Rightarrow> nat list \<Rightarrow> nat list \<Rightarrow> bytes \<Rightarrow> bytes \<Rightarrow> nat \<Rightarrow> (str, error) res" where
  "decrypt_v8_stream_chunk_core H chunk_tokens primes sk_fmt sub_nonce f =
     recover_loop H chunk_errors sk_fmt sub_nonce primes chunk_tokens
       (derive_noise_threshold_v8 H sk_fmt sub_nonce) f 0 0"

section \<open>Token codec round trips\<close>

lemma length_fixed_encode_tokens [simp]: "length (fixed_encode_tokens ts) = 8 * length ts"
  unfolding fixed_encode_tokens_def by (rule length_concat_const) simp

lemma decode_chunks_encode:
  "(\<And>t. t \<in> set ts \<Longrightarrow> t < u64_limit) \<Longrightarrow> decode_chunks (length ts) (fixed_encode_tokens ts) = ts"
  by (induction ts) (auto simp: fixed_encode_tokens_def u64_limit_def)

lemma fixed_decode_encode:
  "(\<And>t. t \<in> set ts \<Longrightarrow> t < u64_limit) \<Longrightarrow> fixed_decode_tokens (fixed_encode_tokens ts) = Ok ts"
  by (simp add: fixed_decode_tokens_def decode_chunks_encode)

lemma length_decode_chunks [simp]: "length (decode_chunks n data) = n"
  by (induction n arbitrary: data) auto

lemma encode_decode_chunks:
  "length data = 8 * n \<Longrightarrow> fixed_encode_tokens (decode_chunks n data) = data"
  by (induction n arbitrary: data) (auto simp: fixed_encode_tokens_def)

lemma fixed_encode_decode: "fixed_decode_tokens data = Ok ts \<Longrightarrow> fixed_encode_tokens ts = data"
  by (auto simp: fixed_decode_tokens_def encode_decode_chunks split: if_splits)

lemma fixed_decode_not_Panic: "fixed_decode_tokens data \<noteq> Panic"
  by (simp add: fixed_decode_tokens_def)

section \<open>Tokens of a safe key\<close>

text \<open>What the arithmetic needs of a key: no division by zero and no \<open>u64\<close> overflow.\<close>

definition safe_key :: "nat list \<Rightarrow> bool" where
  "safe_key key \<longleftrightarrow> key \<noteq> [] \<and> (\<forall>k \<in> set key. 2 \<le> k \<and> k \<le> MAX_SAFE_KEY_PRIME)"

lemma valid_key_safe: "valid_key key \<Longrightarrow> safe_key key"
  by (auto simp: safe_key_def valid_key_def key_consts u64_limit_def)

lemma v7_key_safe: "v7_key key \<Longrightarrow> safe_key key"
  by (force simp: safe_key_def v7_key_def key_consts u64_limit_def)

lemma key_at_Ok:
  assumes "safe_key key"
  obtains k where "key_at key i = Ok k" "2 \<le> k" "k \<le> MAX_SAFE_KEY_PRIME"
  using assms nth_mem [of "i mod length key" key] by (auto simp: key_at_def safe_key_def)

lemma token_bound:
  assumes "c \<le> 0x10FFFF" "a < k" "k \<le> MAX_SAFE_KEY_PRIME"
  shows "c * k + a < u64_limit"
proof -
  have "c * k + a < (c + 1) * k" using assms(2) by simp
  also have "\<dots> \<le> 0x110000 * MAX_SAFE_KEY_PRIME" using assms by (intro mult_le_mono) simp_all
  also have "\<dots> \<le> u64_limit" by (simp add: MAX_SAFE_KEY_PRIME_def u64_limit_def)
  finally show ?thesis .
qed

lemma real_token_Ok:
  assumes "c \<le> 0x10FFFF" "2 \<le> k" "k \<le> MAX_SAFE_KEY_PRIME"
  shows "real_token H kb nonce i c k = Ok (c * k + addend_value H kb nonce 0x01 i k)"
    and "c * k + addend_value H kb nonce 0x01 i k < u64_limit"
proof -
  show lt: "c * k + addend_value H kb nonce 0x01 i k < u64_limit"
    using assms token_bound addend_value_bounds by blast
  then show "real_token H kb nonce i c k = Ok (c * k + addend_value H kb nonce 0x01 i k)"
    using assms(2) by (simp add: real_token_def derive_addend_Ok mul_u64_def add_u64_def)
qed

definition noise_value :: "mac \<Rightarrow> bytes \<Rightarrow> bytes \<Rightarrow> nat \<Rightarrow> nat \<Rightarrow> nat" where
  "noise_value H kb nonce p k = derive_noise_char H kb nonce p * k + addend_value H kb nonce 0x05 p k"

lemma noise_token_Ok:
  assumes "2 \<le> k" "k \<le> MAX_SAFE_KEY_PRIME"
  shows "noise_token H kb nonce p k = Ok (noise_value H kb nonce p k)"
    and "noise_value H kb nonce p k < u64_limit"
proof -
  have "derive_noise_char H kb nonce p \<le> 0x10FFFF"
    using derive_noise_char_bounds [of H kb nonce p] by simp
  then show lt: "noise_value H kb nonce p k < u64_limit"
    unfolding noise_value_def using assms token_bound addend_value_bounds by blast
  then show "noise_token H kb nonce p k = Ok (noise_value H kb nonce p k)"
    using assms(1)
    by (simp add: noise_token_def derive_noise_token_addend_Ok mul_u64_def add_u64_def noise_value_def)
qed

lemma recover_real_token:
  "is_scalar c \<Longrightarrow> a < k \<Longrightarrow> recover_token errs (c * k + a) a k p = Ok c"
  by (simp add: recover_token_def)

section \<open>Emission and recovery in lock-step\<close>

lemma emit_codepoint_lockstep:
  assumes key: "safe_key primes" and c: "c \<le> 0x10FFFF" and "noise_run \<le> 19"
  shows "\<exists>ts. emit_codepoint H kb nonce primes theta c real_idx ct_pos noise_run
                = Ok (ts, ct_pos + length ts)
          \<and> 1 \<le> length ts \<and> noise_run + length ts \<le> 20 \<and> (\<forall>t \<in> set ts. t < u64_limit)
          \<and> real_token H kb nonce real_idx c (primes ! (real_idx mod length primes)) = Ok (last ts)
          \<and> (\<forall>n \<ge> ct_pos + length ts. skip_noise H kb nonce theta n ct_pos noise_run
                = (ct_pos + length ts - 1, noise_run + length ts - 1))"
  (is "\<exists>ts. ?P ts ct_pos noise_run")
  using assms(3)
proof (induction "19 - noise_run" arbitrary: ct_pos noise_run rule: less_induct)
  case less
  obtain k where k: "key_at primes real_idx = Ok k" "2 \<le> k" "k \<le> MAX_SAFE_KEY_PRIME"
    using key_at_Ok [OF key] by blast
  have k': "k = primes ! (real_idx mod length primes)"
    using k(1) by (simp add: key_at_def split: if_splits)
  show ?case
  proof (cases "noise_run < 19 \<and> is_noise_pos_v8 H kb nonce ct_pos theta")
    case True
    then obtain ts where ts: "?P ts (ct_pos + 1) (noise_run + 1)"
      using less.hyps [of "noise_run + 1" "ct_pos + 1"] diff_less_mono2 [of noise_run "noise_run + 1" 19]
      by force
    have "?P (noise_value H kb nonce ct_pos k # ts) ct_pos noise_run"
      using True ts noise_token_Ok [OF k(2,3), of H kb nonce ct_pos] k(1)
      by (auto simp: emit_codepoint.simps [of H kb nonce primes theta c real_idx ct_pos]
          skip_noise.simps [of H kb nonce theta _ ct_pos noise_run])
    then show ?thesis by blast
  next
    case False
    have "?P [c * k + addend_value H kb nonce 0x01 real_idx k] ct_pos noise_run"
      using False less.prems real_token_Ok [OF c k(2,3), of H kb nonce real_idx] k(1) k'
      by (auto simp: emit_codepoint.simps [of H kb nonce primes theta c real_idx ct_pos]
          skip_noise.simps [of H kb nonce theta _ ct_pos noise_run])
    then show ?thesis by blast
  qed
qed

lemma emit_codepoints_lockstep:
  assumes key: "safe_key primes" and "\<forall>c \<in> set cs. is_scalar c"
  shows "\<exists>ts. emit_codepoints H kb nonce primes theta cs real_idx ct_pos
                = Ok (ts, real_idx + length cs, ct_pos + length ts)
          \<and> length cs \<le> length ts \<and> length ts \<le> 20 * length cs \<and> (\<forall>t \<in> set ts. t < u64_limit)
          \<and> (\<forall>pre post. length pre = ct_pos \<longrightarrow>
               recover_loop H errs kb nonce primes (pre @ ts @ post) theta (length cs) real_idx ct_pos
               = Ok cs)"
  (is "\<exists>ts. ?P ts cs real_idx ct_pos")
  using assms(2)
proof (induction cs arbitrary: real_idx ct_pos)
  case (Cons c cs)
  let ?k = "primes ! (real_idx mod length primes)"
  have "is_scalar c" and c: "c \<le> 0x10FFFF" using Cons.prems by (auto simp: is_scalar_def)
  have k: "key_at primes real_idx = Ok ?k" "2 \<le> ?k" "?k \<le> MAX_SAFE_KEY_PRIME"
  proof -
    obtain k where "key_at primes real_idx = Ok k" "2 \<le> k" "k \<le> MAX_SAFE_KEY_PRIME"
      by (rule key_at_Ok [OF key])
    moreover from this(1) have "k = ?k" by (simp add: key_at_def split: if_splits)
    ultimately show "key_at primes real_idx = Ok ?k" "2 \<le> ?k" "?k \<le> MAX_SAFE_KEY_PRIME"
      by simp_all
  qed
  obtain ts where ts: "emit_codepoint H kb nonce primes theta c real_idx ct_pos 0
        = Ok (ts, ct_pos + length ts)"
      "1 \<le> length ts" "length ts \<le> 20" "\<forall>t \<in> set ts. t < u64_limit"
      "real_token H kb nonce real_idx c ?k = Ok (last ts)"
      "\<And>n. n \<ge> ct_pos + length ts \<Longrightarrow>
         skip_noise H kb nonce theta n ct_pos 0 = (ct_pos + length ts - 1, length ts - 1)"
    using emit_codepoint_lockstep [OF key c, of 0 H kb nonce theta real_idx ct_pos] by auto
  obtain us where us: "?P us cs (real_idx + 1) (ct_pos + length ts)"
    using Cons by (metis list.set_intros(2))
  have last: "last ts = c * ?k + addend_value H kb nonce 0x01 real_idx ?k"
    using real_token_Ok(1) [OF c k(2,3), of H kb nonce real_idx] ts(5)
    by (metis res.inject(1))
  have "recover_loop H errs kb nonce primes (pre @ (ts @ us) @ post) theta (length (c # cs)) real_idx ct_pos
        = Ok (c # cs)" if "length pre = ct_pos" for pre post
  proof -
    have "(pre @ ts @ us @ post) ! (ct_pos + length ts - 1) = last ts"
      using that ts(2) by (cases ts rule: rev_cases) (auto simp: nth_append)
    moreover have "recover_loop H errs kb nonce primes ((pre @ ts) @ us @ post) theta (length cs)
        (real_idx + 1) (ct_pos + length ts) = Ok cs"
      using us that by (metis length_append)
    moreover have "recover_token errs (last ts) (addend_value H kb nonce 0x01 real_idx ?k) ?k p = Ok c" for p
      unfolding last using \<open>is_scalar c\<close> addend_value_bounds [OF k(2)] by (blast intro: recover_real_token)
    moreover obtain m where "length ts = Suc m" using ts(2) by (cases ts) auto
    ultimately show ?thesis
      using ts(6) that k(1) derive_addend_Ok [OF k(2), of H kb nonce real_idx] by simp
  qed
  then have "?P (ts @ us) (c # cs) real_idx ct_pos" using ts us by auto
  then show ?case by blast
qed simp

lemma top_up_Ok:
  assumes "safe_key primes"
  shows "\<exists>us. top_up H kb nonce primes real_idx ct_pos missing = Ok us \<and> length us = missing
              \<and> (\<forall>t \<in> set us. t < u64_limit)"
proof (induction missing arbitrary: ct_pos)
  case (Suc missing)
  obtain k where k: "key_at primes real_idx = Ok k" "2 \<le> k" "k \<le> MAX_SAFE_KEY_PRIME"
    using key_at_Ok [OF assms] by blast
  with noise_token_Ok [OF k(2,3), of H kb nonce ct_pos] Suc.IH [of "ct_pos + 1"] show ?case by auto
qed simp

lemma emit_tokens_v8_Ok:
  assumes "safe_key primes" "\<forall>c \<in> set padded. is_scalar c"
  obtains ts where "emit_tokens_v8 H padded primes kb nonce = Ok ts"
    "length ts = 20 * length padded" "\<forall>t \<in> set ts. t < u64_limit"
    "\<And>errs. recover_loop H errs kb nonce primes ts (derive_noise_threshold_v8 H kb nonce)
       (length padded) 0 0 = Ok padded"
proof -
  let ?theta = "derive_noise_threshold_v8 H kb nonce"
  obtain ts where ts: "emit_codepoints H kb nonce primes ?theta padded 0 0
        = Ok (ts, length padded, length ts)"
      "length ts \<le> 20 * length padded" "\<forall>t \<in> set ts. t < u64_limit"
    using emit_codepoints_lockstep [OF assms, of H kb nonce ?theta 0 0 chunk_errors] by auto
  have dec: "recover_loop H errs kb nonce primes (ts @ post) ?theta (length padded) 0 0 = Ok padded"
    for errs post
    using emit_codepoints_lockstep [OF assms, of H kb nonce ?theta 0 0 errs] ts(1) by auto
  obtain us where us: "top_up H kb nonce primes (length padded) (length ts)
        (20 * length padded - length ts) = Ok us"
      "length us = 20 * length padded - length ts" "\<forall>t \<in> set us. t < u64_limit"
    using top_up_Ok [OF assms(1)] by blast
  have "emit_tokens_v8 H padded primes kb nonce = Ok (ts @ us)"
    using ts us by (simp add: emit_tokens_v8_def Let_def mult.commute)
  with that [of "ts @ us"] ts us dec show thesis by auto
qed

section \<open>The decoder does not panic\<close>

lemma recover_token_not_Panic: "recover_token errs token addend k p \<noteq> Panic"
  by (simp add: recover_token_def Let_def)

lemma recover_loop_not_Panic:
  assumes "safe_key key"
  shows "recover_loop H errs kb nonce key cypher theta todo real_idx ct_pos \<noteq> Panic"
proof (induction todo arbitrary: real_idx ct_pos)
  case (Suc todo)
  obtain k where "key_at key real_idx = Ok k" "2 \<le> k" using key_at_Ok [OF assms] by metis
  then show ?case using Suc.IH recover_token_not_Panic derive_addend_Ok [of k H kb nonce real_idx]
    by (auto split: prod.split)
qed simp

lemma decrypt_core_v8_not_Panic: "safe_key key \<Longrightarrow> decrypt_core_v8 H nonce cypher key kb \<noteq> Panic"
  by (simp add: decrypt_core_v8_def Let_def recover_loop_not_Panic unpad_message_not_Panic)

lemma length_recover_loop:
  "recover_loop H errs kb nonce key cypher theta todo real_idx ct_pos = Ok cps \<Longrightarrow> length cps = todo"
  by (induction todo arbitrary: real_idx ct_pos cps) (auto split: prod.splits if_splits)

lemma power_of_two_reachable:
  assumes "is_power_of_two B" "PAD_MIN_EXP \<le> trailing_zeros 64 B" "trailing_zeros 64 B \<le> PAD_MAX_EXP"
  shows "reachable_block B"
proof -
  from assms(1) obtain e where e: "B = 2 ^ e" by (auto simp: is_power_of_two_def)
  with assms(2,3) show ?thesis by (auto simp: reachable_block_def trailing_zeros_power min_def split: if_splits)
qed

lemma decrypt_core_v8_shape:
  assumes "decrypt_core_v8 H nonce cypher key kb = Ok s"
  obtains B where "reachable_block B" "length cypher = 20 * (B + 2)" "length s \<le> B"
proof -
  let ?r = "length cypher div 20"
  from assms have r: "length cypher mod 20 = 0" "2 \<le> ?r" "reachable_block (?r - 2)"
    by (auto simp: decrypt_core_v8_def Let_def intro!: power_of_two_reachable split: if_splits)
  from assms obtain padded where "length padded = ?r" "unpad_message padded = Ok s"
    by (auto simp: decrypt_core_v8_def Let_def dest: length_recover_loop split: if_splits)
  then have "length s \<le> ?r - 2" by (auto simp: unpad_message_def Let_def split: if_splits)
  moreover have "length cypher = 20 * (?r - 2 + 2)" using r by auto
  ultimately show thesis using that r(3) by blast
qed

section \<open>Properties\<close>

text \<open>
  C14: the emission loop of v8 terminates with exactly twenty tokens per padded codepoint,
  whatever the key, nonce and noise decisions are, every token fits in a \<open>u64\<close>, and the
  decoder, which only re-derives the noise positions, recovers the codepoints in order.
\<close>

theorem emission_lock_step:
  assumes "valid_key primes" "list_all is_scalar padded"
  shows "\<exists>ts. emit_tokens_v8 H padded primes sk_fmt nonce = Ok ts \<and>
     length ts = 20 * length padded \<and> list_all (\<lambda>t. t < 2 ^ 64) ts \<and>
     decrypt_v8_stream_chunk_core H ts primes sk_fmt nonce (length padded) = Ok padded"
proof -
  from assms(2) have "\<forall>c \<in> set padded. is_scalar c" by (simp add: list_all_iff)
  from emit_tokens_v8_Ok [OF valid_key_safe [OF assms(1)] this, of H sk_fmt nonce] show ?thesis
    by (metis decrypt_v8_stream_chunk_core_def list_all_iff u64_limit_def)
qed

theorem emission_lock_step_witness:
  "\<exists>ts. emit_tokens_v8 (\<lambda>_ _. 0) [72] sample_key [1] [2] = Ok ts \<and>
     length ts = 20 \<and> list_all (\<lambda>t. t < 2 ^ 64) ts \<and>
     decrypt_v8_stream_chunk_core (\<lambda>_ _. 0) ts sample_key [1] [2] 1 = Ok [72]"
  using emission_lock_step [OF valid_sample_key, of "[72]" "\<lambda>_ _. 0" "[1]" "[2]"]
  by (simp add: is_scalar_def)

end
