(* ===== verification/PostGate.thy ===== *)
theory PostGate
  imports Derive
begin

text \<open>
  The power-on self-test latch of \<open>rust/src/self_test.rs\<close> and the continuous
  random-number test of \<open>rust/src/lib.rs\<close>. The sequential part gives the gate and the
  state-changing operations as functions on the module state; the second part interleaves them
  between threads, with the lock and the thread-local flag written out.
\<close>

section \<open>Module state\<close>

datatype post_state = POST_NOT_RUN | POST_RUNNING | POST_PASSED | POST_FAILED

text \<open>
  \<open>fips_gate\<close> is the cargo feature, \<open>in_post\<close> the thread-local flag of the calling
  thread, \<open>prev_nonce\<close> the static \<open>PREV_NONCE\<close>.
\<close>

record module_state =
  fips_gate :: bool
  post :: post_state
  in_post :: bool
  prev_nonce :: "bytes option"

datatype self_test_error =
    KatEncryptMismatch | KatDecryptMismatch | KatTamperNotRejected
  | KatV8EncryptFailed | KatV8DecryptFailed | KatV8StructuralAccept | KatV8TamperNotRejected
  | KatKemFailed | KatStreamFailed | BuildProvenanceMismatch | IntegrityCheckFailed
  | NotOperationalPost | InternalError string

section \<open>Gate\<close>

fun admit :: "post_state \<Rightarrow> bool \<Rightarrow> (unit, self_test_error) res" where
  "admit POST_PASSED posting_thread = Ok ()"
| "admit POST_RUNNING posting_thread = (if posting_thread then Ok () else Err NotOperationalPost)"
| "admit _ posting_thread = Err NotOperationalPost"

definition require_post :: "module_state \<Rightarrow> (unit, self_test_error) res" where
  "require_post m = (if in_post m then admit (post m) True else admit (post m) False)"

text \<open>
  The head of every entry point:
  \<open>#[cfg(feature = "fips_gate")] self_test::require_post().map_err(|e| e.to_string())?\<close>.
\<close>

definition fips_check :: "module_state \<Rightarrow> (unit, error) res" where
  "fips_check m = (if fips_gate m then map_err (\<lambda>_. NotOperational) (require_post m) else Ok ())"

definition enter_error_state :: "module_state \<Rightarrow> module_state" where
  "enter_error_state m = m\<lparr>post := POST_FAILED\<rparr>"

text \<open>
  The self-tests run in order and stop at the first failure; they read the module state
  through the gate, with \<open>in_post\<close> set. The tests themselves are parameters.
\<close>

fun run_kats :: "(module_state \<Rightarrow> (unit, self_test_error) res) list \<Rightarrow> module_state \<Rightarrow> (unit, self_test_error) res" where
  "run_kats [] m = Ok ()"
| "run_kats (kat # kats) m = res_bind (kat m) (\<lambda>_. run_kats kats m)"

text \<open>A panicking test leaves \<open>POST_RUNNING\<close> behind and clears the thread-local flag.\<close>

definition run_power_on_self_tests ::
    "(module_state \<Rightarrow> (unit, self_test_error) res) list \<Rightarrow> module_state
       \<Rightarrow> (unit, self_test_error) res \<times> module_state" where
  "run_power_on_self_tests kats m =
     (if post m = POST_FAILED then (Err NotOperationalPost, m)
      else let running = m\<lparr>post := POST_RUNNING, in_post := True\<rparr>;
               result = run_kats kats running
           in (result,
               running\<lparr>in_post := False,
                       post := (case result of Ok _ \<Rightarrow> POST_PASSED | Err _ \<Rightarrow> POST_FAILED
                                | Panic \<Rightarrow> POST_RUNNING)\<rparr>))"

section \<open>Continuous random-number test\<close>

text \<open>\<open>nonce\<close> is the draw of the system generator.\<close>

definition generate_nonce_with_crng_check ::
    "bytes \<Rightarrow> module_state \<Rightarrow> (bytes, error) res \<times> module_state" where
  "generate_nonce_with_crng_check nonce m =
     (case prev_nonce m of
        Some prev \<Rightarrow>
          if ct_eq_bytes nonce prev then (Err CrngStuck, enter_error_state m)
          else (Ok nonce, m\<lparr>prev_nonce := Some nonce\<rparr>)
      | None \<Rightarrow> (Ok nonce, m\<lparr>prev_nonce := Some nonce\<rparr>))"

section \<open>Sequential facts\<close>

lemma admit_Ok_iff: "admit s b = Ok () \<longleftrightarrow> s = POST_PASSED \<or> s = POST_RUNNING \<and> b"
  by (cases s) auto

lemma admit_not_Panic [simp]: "admit s b \<noteq> Panic"
  by (cases s) auto

lemma fips_check_cases:
  "fips_check m = Ok () \<or> fips_check m = Err NotOperational"
  by (cases "require_post m") (auto simp: fips_check_def require_post_def split: if_splits)

lemma fips_check_Ok_iff:
  "fips_check m = Ok () \<longleftrightarrow>
     \<not> fips_gate m \<or> post m = POST_PASSED \<or> post m = POST_RUNNING \<and> in_post m"
  by (auto simp: fips_check_def require_post_def admit_Ok_iff)

lemma run_power_on_self_tests_outcome:
  assumes "run_power_on_self_tests kats m = (r, m')"
  shows "post m' = POST_PASSED \<longleftrightarrow> r = Ok ()"
    and "post m = POST_FAILED \<Longrightarrow> r = Err NotOperationalPost \<and> post m' = POST_FAILED"
    and "r = Err e \<Longrightarrow> post m' = POST_FAILED"
  using assms
  by (auto simp: run_power_on_self_tests_def Let_def split: if_splits res.splits)

lemma crng_cases:
  obtains (stuck) "prev_nonce m = Some nonce"
      "generate_nonce_with_crng_check nonce m = (Err CrngStuck, m\<lparr>post := POST_FAILED\<rparr>)"
    | (fresh) "prev_nonce m \<noteq> Some nonce"
      "generate_nonce_with_crng_check nonce m = (Ok nonce, m\<lparr>prev_nonce := Some nonce\<rparr>)"
  by (cases "prev_nonce m = Some nonce")
    (auto simp: generate_nonce_with_crng_check_def enter_error_state_def split: option.splits)

section \<open>Interleaving\<close>

text \<open>
  Threads are numbered. \<open>holder\<close> is the owner of \<open>POST_LOCK\<close>, \<open>posting\<close> the set of
  threads whose \<open>IN_POST\<close> flag is set.
\<close>

record post_sys =
  latch :: post_state
  holder :: "nat option"
  posting :: "nat set"

definition post_init :: post_sys where
  "post_init = \<lparr>latch = POST_NOT_RUN, holder = None, posting = {}\<rparr>"

inductive post_step :: "post_sys \<Rightarrow> post_sys \<Rightarrow> bool" where
  begin_post: "holder s = None \<Longrightarrow> latch s \<noteq> POST_FAILED \<Longrightarrow>
     post_step s (s\<lparr>holder := Some t, latch := POST_RUNNING, posting := insert t (posting s)\<rparr>)"
| pass_post: "holder s = Some t \<Longrightarrow> t \<in> posting s \<Longrightarrow>
     post_step s (s\<lparr>latch := POST_PASSED, posting := posting s - {t}, holder := None\<rparr>)"
| fail_post: "holder s = Some t \<Longrightarrow> t \<in> posting s \<Longrightarrow>
     post_step s (s\<lparr>latch := POST_FAILED, posting := posting s - {t}, holder := None\<rparr>)"
| panic_post: "holder s = Some t \<Longrightarrow> t \<in> posting s \<Longrightarrow>
     post_step s (s\<lparr>posting := posting s - {t}, holder := None\<rparr>)"
| crng_failure: "holder s = None \<Longrightarrow> post_step s (s\<lparr>latch := POST_FAILED\<rparr>)"

inductive_cases post_stepE: "post_step s s'"

definition post_reachable :: "post_sys \<Rightarrow> bool" where
  "post_reachable s \<longleftrightarrow> post_step\<^sup>*\<^sup>* post_init s"

text \<open>
  What \<open>require_post\<close> returns to thread \<open>t\<close> when its last load of the latch happens at a
  state: the lock it takes while a self-test runs only delays that load.
\<close>

definition gate_returns :: "post_sys \<Rightarrow> nat \<Rightarrow> (unit, self_test_error) res \<Rightarrow> bool" where
  "gate_returns s t r \<longleftrightarrow>
     r = (if t \<in> posting s then admit (latch s) True else admit (latch s) False)"

definition post_inv :: "post_sys \<Rightarrow> bool" where
  "post_inv s \<longleftrightarrow>
     (case holder s of None \<Rightarrow> posting s = {} | Some t \<Rightarrow> posting s = {t} \<and> latch s = POST_RUNNING)"

lemma post_inv_step: "post_step s s' \<Longrightarrow> post_inv s \<Longrightarrow> post_inv s'"
  by (induction rule: post_step.induct) (auto simp: post_inv_def)

lemma post_inv_reachable: "post_reachable s \<Longrightarrow> post_inv s"
  unfolding post_reachable_def
  by (induction rule: rtranclp_induct) (auto simp: post_inv_step, simp add: post_inv_def post_init_def)

lemma post_failed_step: "post_step s s' \<Longrightarrow> post_inv s \<Longrightarrow> latch s = POST_FAILED \<Longrightarrow> latch s' = POST_FAILED"
  by (induction rule: post_step.induct) (auto simp: post_inv_def)

lemma post_failed_sticky:
  "post_step\<^sup>*\<^sup>* s s' \<Longrightarrow> post_inv s \<Longrightarrow> latch s = POST_FAILED \<Longrightarrow> latch s' = POST_FAILED \<and> post_inv s'"
  by (induction rule: rtranclp_induct) (auto intro: post_failed_step post_inv_step)

section \<open>Properties\<close>

text \<open>
  C13: mutual exclusion of the self-test. In every reachable state of the interleaved system
  the gate admits a thread only when the self-tests have passed, or when the thread is the one
  that is running them and owns the lock; every other answer is the not-operational error.
\<close>

theorem gate_admits_only_after_post:
  assumes "post_reachable s" "gate_returns s t r"
  shows "r = (if latch s = POST_PASSED \<or> latch s = POST_RUNNING \<and> holder s = Some t
              then Ok () else Err NotOperationalPost)"
proof -
  have "t \<in> posting s \<longleftrightarrow> holder s = Some t"
    using post_inv_reachable [OF assms(1)] by (auto simp: post_inv_def split: option.splits)
  then show ?thesis using assms(2) by (cases "latch s") (auto simp: gate_returns_def)
qed

theorem gate_admits_only_after_post_witness:
  "\<exists>s. post_reachable s \<and> latch s = POST_RUNNING \<and> holder s = Some 1 \<and>
       gate_returns s 1 (Ok ()) \<and> gate_returns s 2 (Err NotOperationalPost)"
proof -
  let ?s = "post_init\<lparr>holder := Some 1, latch := POST_RUNNING, posting := insert 1 (posting post_init)\<rparr>"
  have "post_step post_init ?s" by (rule begin_post) (simp_all add: post_init_def)
  then have r: "post_reachable ?s" by (simp add: post_reachable_def)
  have "gate_returns ?s t (if t = 1 then Ok () else Err NotOperationalPost)" for t
    using gate_admits_only_after_post [OF r, of t "if t \<in> posting ?s then admit (latch ?s) True else admit (latch ?s) False"]
    by (auto simp: gate_returns_def post_init_def)
  from this [of 1] this [of 2] r show ?thesis by (intro exI [of _ ?s]) simp
qed

text \<open>
  C12: the error state is sticky. Whatever the threads do after the latch has reached
  \<open>POST_FAILED\<close> (new self-test runs, panics, further failures), the latch stays there and
  the gate refuses every thread.
\<close>

theorem error_state_sticky:
  assumes "post_reachable s" "latch s = POST_FAILED" "post_step\<^sup>*\<^sup>* s s'" "gate_returns s' t r"
  shows "latch s' = POST_FAILED \<and> r = Err NotOperationalPost"
  using post_failed_sticky [OF assms(3) post_inv_reachable [OF assms(1)] assms(2)] assms(4)
  by (simp add: gate_returns_def split: if_splits)

theorem error_state_sticky_witness:
  "\<exists>s r. post_reachable s \<and> latch s = POST_FAILED \<and> gate_returns s 5 r \<and> r = Err NotOperationalPost"
proof -
  let ?s = "post_init\<lparr>latch := POST_FAILED\<rparr>"
  have "post_step post_init ?s" by (rule crng_failure) (simp add: post_init_def)
  then have r: "post_reachable ?s" by (simp add: post_reachable_def)
  have g: "gate_returns ?s 5 (admit POST_FAILED False)" by (simp add: gate_returns_def post_init_def)
  from error_state_sticky [OF r _ _ g] r g show ?thesis by auto
qed

text \<open>
  The continuous random-number test. A draw equal to the previous one is refused and
  latches the error state, after which the gate refuses every caller and a new self-test run
  does not clear it; any other draw is returned and remembered.
\<close>

lemma crng_failure_latches:
  "case generate_nonce_with_crng_check nonce m of (r, m') \<Rightarrow>
     (if prev_nonce m = Some nonce
      then r = Err CrngStuck \<and> require_post m' = Err NotOperationalPost \<and>
           run_power_on_self_tests kats m' = (Err NotOperationalPost, m')
      else r = Ok nonce \<and> m' = m\<lparr>prev_nonce := Some nonce\<rparr>)"
  by (cases rule: crng_cases [of m nonce]) (auto simp: require_post_def run_power_on_self_tests_def)

end
