(* ===== verification/BlockV8.thy ===== *)
theory BlockV8
  imports Tokens PostGate
begin

text \<open>
  The v8 block format of \<open>rust/src/lib.rs\<close>: encryption with a synthetic nonce and a
  padding profile, decryption with tag check and structural checks, and the gated entry
  points.
\<close>

section \<open>Encryption\<close>

definition encrypt_bytes_v8_core_inner ::
    "mac \<Rightarrow> bytes \<Rightarrow> str \<Rightarrow> nat list \<Rightarrow> bytes \<Rightarrow> PadProfile \<Rightarrow> (bytes, error) res" where
  "encrypt_bytes_v8_core_inner H sk_fmt message primes aad pad_profile =
     res_bind (synthetic_nonce H sk_fmt aad (utf8_bytes message)) (\<lambda>nonce.
       let codepoints = message in
       if MAX_PLAINTEXT_CODEPOINTS < length codepoints
       then Err (PadError (MessageTooLong (length codepoints)))
       else res_bind (block_size pad_profile (length codepoints)) (\<lambda>blk.
            res_bind (pad_to_block H codepoints sk_fmt nonce blk) (\<lambda>padded.
            res_bind (emit_tokens_v8 H padded primes sk_fmt nonce) (\<lambda>cypher.
              let blob = fixed_encode_tokens cypher in
              res_bind (varint_keystream H sk_fmt nonce (length blob)) (\<lambda>ks.
                let masked = xor_bytes blob ks;
                    payload = nonce @ masked
                in res_bind (compute_auth_tag H sk_fmt aad payload AAD_LEN_WIDTH_V8) (\<lambda>tag.
                     Ok (payload @ tag)))))))"

definition encrypt_bytes_v8_core ::
    "mac \<Rightarrow> str \<Rightarrow> nat list \<Rightarrow> bytes \<Rightarrow> bytes \<Rightarrow> PadProfile \<Rightarrow> (bytes, error) res" where
  "encrypt_bytes_v8_core H message primes sk aad pad_profile =
     encrypt_bytes_v8_core_inner H (derive_format_subkey H sk FORMAT_BLOCK_V8) message primes aad pad_profile"

definition encrypt_bytes_v8_with_profile ::
    "mac \<Rightarrow> module_state \<Rightarrow> str \<Rightarrow> nat list \<Rightarrow> bytes \<Rightarrow> bytes \<Rightarrow> PadProfile \<Rightarrow> (bytes, error) res" where
  "encrypt_bytes_v8_with_profile H m message primes sk aad pad_profile =
     res_bind (fips_check m) (\<lambda>_.
     res_bind (validate_key primes) (\<lambda>_.
       encrypt_bytes_v8_core H message primes sk aad pad_profile))"

definition encrypt_bytes_v8 ::
    "mac \<Rightarrow> module_state \<Rightarrow> str \<Rightarrow> nat list \<Rightarrow> bytes \<Rightarrow> bytes \<Rightarrow> (bytes, error) res" where
  "encrypt_bytes_v8 H m message primes sk aad =
     encrypt_bytes_v8_with_profile H m message primes sk aad Bucket"

section \<open>Decryption\<close>

definition to_text :: "str \<Rightarrow> (str, error) res" where
  "to_text codepoints =
     collect_res (\<lambda>c. if is_scalar c then Ok c else Err (TokenError (PlainNotScalar c))) codepoints"

definition decrypt_bytes_v8_core_inner ::
    "mac \<Rightarrow> bytes \<Rightarrow> bytes \<Rightarrow> nat list \<Rightarrow> bytes \<Rightarrow> (str, error) res" where
  "decrypt_bytes_v8_core_inner H sk_fmt ciphertext primes aad =
     (let split = length ciphertext - TAG_SIZE;
          payload = take split ciphertext;
          recv_tag = drop split ciphertext
      in res_bind (compute_auth_tag H sk_fmt aad payload AAD_LEN_WIDTH_V8) (\<lambda>calc_tag.
           if \<not> ct_eq_bytes recv_tag calc_tag then Err AuthenticationFailed
           else let nonce = take NONCE_SIZE payload;
                    masked = drop NONCE_SIZE payload
                in res_bind (varint_keystream H sk_fmt nonce (length masked)) (\<lambda>ks.
                   res_bind (fixed_decode_tokens (xor_bytes masked ks)) (\<lambda>tokens.
                   res_bind (decrypt_core_v8 H nonce tokens primes sk_fmt) to_text))))"

definition decrypt_bytes_v8_core ::
    "mac \<Rightarrow> bytes \<Rightarrow> nat list \<Rightarrow> bytes \<Rightarrow> bytes \<Rightarrow> (str, error) res" where
  "decrypt_bytes_v8_core H ciphertext primes sk aad =
     (if length ciphertext < NONCE_SIZE + TAG_SIZE
      then Err (TokenError (CiphertextTooShort (length ciphertext)))
      else let blob_len = length ciphertext - NONCE_SIZE - TAG_SIZE in
        if blob_len mod (TOKEN_WIDTH * (MAX_NOISE_RUN + 1)) \<noteq> 0 then Err (TokenError TokenCount)
        else decrypt_bytes_v8_core_inner H (derive_format_subkey H sk FORMAT_BLOCK_V8) ciphertext primes aad)"

definition decrypt_bytes_v8 ::
    "mac \<Rightarrow> module_state \<Rightarrow> bytes \<Rightarrow> nat list \<Rightarrow> bytes \<Rightarrow> bytes \<Rightarrow> (str, error) res" where
  "decrypt_bytes_v8 H m ciphertext primes sk aad =
     res_bind (fips_check m) (\<lambda>_.
     res_bind (validate_key primes) (\<lambda>_.
       decrypt_bytes_v8_core H ciphertext primes sk aad))"

definition retag_block_v8 :: "mac \<Rightarrow> bytes \<Rightarrow> bytes \<Rightarrow> bytes \<Rightarrow> (bytes, error) res" where
  "retag_block_v8 H payload sk aad =
     compute_auth_tag H (derive_format_subkey H sk FORMAT_BLOCK_V8) aad payload AAD_LEN_WIDTH_V8"

section \<open>Shape of a ciphertext\<close>

text \<open>The input of the block tag.\<close>

definition block_tag_input :: "bytes \<Rightarrow> bytes \<Rightarrow> bytes" where
  "block_tag_input aad payload =
     schedule_data 0x03 (take 16 payload) (be_bytes 8 (length aad) @ aad @ drop 16 payload)"

lemma compute_block_tag:
  "16 \<le> length payload \<Longrightarrow>
   compute_auth_tag H kb aad payload 8 = Ok (hmac_digest H kb (block_tag_input aad payload))"
  using compute_auth_tag_v8 [of payload H kb aad] by (simp add: block_tag_input_def)

lemma block_tag_input_inj:
  assumes "block_tag_input aad payload = block_tag_input aad' payload'"
    and "16 \<le> length payload" "16 \<le> length payload'"
    and "length aad < u64_limit" "length aad' < u64_limit"
  shows "aad = aad' \<and> payload = payload'"
proof -
  have *: "take 16 payload = take 16 payload'"
    "be_bytes 8 (length aad) @ aad @ drop 16 payload = be_bytes 8 (length aad') @ aad' @ drop 16 payload'"
    using assms by (auto simp: block_tag_input_def schedule_data_inj)
  from *(2) have "be_bytes 8 (length aad) = be_bytes 8 (length aad')"
    and rest: "aad @ drop 16 payload = aad' @ drop 16 payload'" by auto
  then have "length aad = length aad'"
    using assms(4,5) be_bytes_inj_on [of "length aad" 8 "length aad'"] by (simp add: u64_limit_def)
  with rest have "aad = aad'" "drop 16 payload = drop 16 payload'" by auto
  with *(1) show ?thesis by (metis append_take_drop_id)
qed

lemma padded_scalars:
  assumes "pad_to_block H msg kb nonce B = Ok padded" "\<forall>c \<in> set msg. is_scalar c"
  shows "\<forall>c \<in> set padded. is_scalar c"
proof -
  have "is_scalar c" if "c \<le> 0xFF" for c using that by (simp add: is_scalar_def)
  moreover have "x mod 256 \<le> 0xFF" for x :: nat using mod_less_divisor [of 256 x] by linarith
  moreover have "pad_codepoint H kb nonce i \<le> 0xFF" for i
    using pad_codepoint_bounds [of H kb nonce i] by linarith
  ultimately show ?thesis
    using assms by (auto simp: pad_to_block_def Let_def split: if_splits)
qed

lemma encrypt_core_inner_Ok:
  assumes key: "safe_key primes" and msg: "\<forall>c \<in> set message. is_scalar c" "length message < 2 ^ 16"
    and blk: "block_size profile (length message) = Ok B"
  obtains nonce masked padded ts where
    "encrypt_bytes_v8_core_inner H sk_fmt message primes aad profile
       = Ok (nonce @ masked @ hmac_digest H sk_fmt (block_tag_input aad (nonce @ masked)))"
    "length nonce = 16" "length masked = 160 * (B + 2)"
    "nonce = take 16 (hmac_digest H sk_fmt (0x0A # be_bytes 8 (length aad) @ aad @ utf8_bytes message))"
    "pad_to_block H message sk_fmt nonce B = Ok padded" "length padded = B + 2"
    "masked = xor_bytes (fixed_encode_tokens ts) (keystream_spec H sk_fmt nonce (160 * (B + 2)))"
    "length ts = 20 * (B + 2)" "\<forall>t \<in> set ts. t < u64_limit"
    "\<And>errs. recover_loop H errs sk_fmt nonce primes ts (derive_noise_threshold_v8 H sk_fmt nonce)
       (B + 2) 0 0 = Ok padded"
proof -
  define nonce where
    "nonce = take 16 (hmac_digest H sk_fmt (0x0A # be_bytes 8 (length aad) @ aad @ utf8_bytes message))"
  have B: "reachable_block B" "length message < B" using block_size_Ok [OF blk] by auto
  note B' = reachable_block_cases [OF B(1)]
  obtain padded where padded: "pad_to_block H message sk_fmt nonce B = Ok padded" "length padded = B + 2"
    using pad_to_block_Ok [OF B(2)] .
  obtain ts where ts: "emit_tokens_v8 H padded primes sk_fmt nonce = Ok ts"
      "length ts = 20 * (B + 2)" "\<forall>t \<in> set ts. t < u64_limit"
      "\<And>errs. recover_loop H errs sk_fmt nonce primes ts (derive_noise_threshold_v8 H sk_fmt nonce)
         (B + 2) 0 0 = Ok padded"
    using emit_tokens_v8_Ok [OF key padded_scalars [OF padded(1) msg(1)]] padded(2) by metis
  define ks where "ks = keystream_spec H sk_fmt nonce (160 * (B + 2))"
  define masked where "masked = xor_bytes (fixed_encode_tokens ts) ks"
  have nonce: "length nonce = 16" by (simp add: nonce_def)
  have masked: "length masked = 160 * (B + 2)" using ts(2) by (simp add: masked_def ks_def)
  have ks: "varint_keystream H sk_fmt nonce (8 * length ts) = Ok ks"
    using ts(2) B' by (simp add: varint_keystream_Ok ks_def)
  have tag: "compute_auth_tag H sk_fmt aad (nonce @ masked) 8
      = Ok (hmac_digest H sk_fmt (block_tag_input aad (nonce @ masked)))"
    by (rule compute_block_tag) (simp add: nonce)
  have "encrypt_bytes_v8_core_inner H sk_fmt message primes aad profile
      = Ok (nonce @ masked @ hmac_digest H sk_fmt (block_tag_input aad (nonce @ masked)))"
    using msg(2)
    by (simp add: encrypt_bytes_v8_core_inner_def synthetic_nonce_Ok Let_def blk padded(1) ts(1) ks tag
        flip: nonce_def masked_def)
  from that [OF this nonce masked nonce_def padded masked_def [unfolded ks_def] ts(2-)] show thesis .
qed

section \<open>Round trip\<close>

lemma to_text_Ok: "\<forall>c \<in> set s. is_scalar c \<Longrightarrow> to_text s = Ok s"
  unfolding to_text_def by (subst collect_res_all_Ok [where g = id]) auto

lemma to_text_not_Panic: "to_text s \<noteq> Panic"
  unfolding to_text_def by (induction s) auto

lemma decrypt_core_v8_recover:
  assumes "length ts = 20 * (B + 2)" "reachable_block B"
    and "\<And>errs. recover_loop H errs kb nonce primes ts (derive_noise_threshold_v8 H kb nonce) (B + 2) 0 0
       = Ok padded"
  shows "decrypt_core_v8 H nonce ts primes kb = unpad_message padded"
proof -
  obtain e where e: "B = 2 ^ e" "4 \<le> e" "e \<le> 16"
    using assms(2) by (auto simp: reachable_block_def)
  then have "is_power_of_two B \<and> PAD_MIN_EXP \<le> trailing_zeros 64 B \<and> trailing_zeros 64 B \<le> PAD_MAX_EXP"
    by (simp add: is_power_of_two_def bit_len_power trailing_zeros_power)
  moreover have "length ts div 20 = B + 2" "length ts mod 20 = 0" using assms(1) by simp_all
  ultimately show ?thesis using assms(3) by (simp add: decrypt_core_v8_def Let_def)
qed

lemma block_round_trip_core:
  assumes key: "safe_key primes" and msg: "\<forall>c \<in> set message. is_scalar c" "length message < 2 ^ 16"
    and blk: "block_size profile (length message) = Ok B"
  obtains ct where "encrypt_bytes_v8_core H message primes sk aad profile = Ok ct"
    "length ct = 48 + 160 * (B + 2)" "decrypt_bytes_v8_core H ct primes sk aad = Ok message"
proof -
  define kb where "kb = derive_format_subkey H sk FORMAT_BLOCK_V8"
  obtain nonce masked padded ts where enc:
    "encrypt_bytes_v8_core_inner H kb message primes aad profile
       = Ok (nonce @ masked @ hmac_digest H kb (block_tag_input aad (nonce @ masked)))"
    and len: "length nonce = 16" "length masked = 160 * (B + 2)"
    and pad: "pad_to_block H message kb nonce B = Ok padded"
    and masked: "masked = xor_bytes (fixed_encode_tokens ts) (keystream_spec H kb nonce (160 * (B + 2)))"
    and ts: "length ts = 20 * (B + 2)" "\<forall>t \<in> set ts. t < u64_limit"
      "\<And>errs. recover_loop H errs kb nonce primes ts (derive_noise_threshold_v8 H kb nonce)
         (B + 2) 0 0 = Ok padded"
    using encrypt_core_inner_Ok [OF assms, of H kb aad] by metis
  define ct where "ct = nonce @ masked @ hmac_digest H kb (block_tag_input aad (nonce @ masked))"
  have B: "reachable_block B" "length message < B" using block_size_Ok [OF blk] by auto
  note B' = reachable_block_cases [OF B(1)]
  have split: "take (length ct - 32) ct = nonce @ masked"
    "drop (length ct - 32) ct = hmac_digest H kb (block_tag_input aad (nonce @ masked))"
    by (simp_all add: ct_def len)
  have tag: "compute_auth_tag H kb aad (nonce @ masked) 8
      = Ok (hmac_digest H kb (block_tag_input aad (nonce @ masked)))"
    by (rule compute_block_tag) (simp add: len)
  define ks where "ks = keystream_spec H kb nonce (160 * (B + 2))"
  have ks: "varint_keystream H kb nonce (length masked) = Ok ks"
    unfolding len(2) ks_def using B' by (intro varint_keystream_Ok) simp
  have unmask: "xor_bytes masked ks = fixed_encode_tokens ts"
    unfolding masked ks_def [symmetric] by (rule xor_bytes_cancel) (simp add: ts ks_def)
  have dec: "fixed_decode_tokens (fixed_encode_tokens ts) = Ok ts" using ts(2) by (intro fixed_decode_encode) blast
  have core: "decrypt_core_v8 H nonce ts primes kb = Ok message"
    using decrypt_core_v8_recover [OF ts(1) B(1) ts(3)] unpad_pad [OF pad msg(2)] by simp
  have "decrypt_bytes_v8_core_inner H kb ct primes aad = Ok message"
    unfolding decrypt_bytes_v8_core_inner_def Let_def size_consts split
    using len(1) msg(1) by (simp add: tag ks unmask dec core to_text_Ok)
  then have "decrypt_bytes_v8_core H ct primes sk aad = Ok message"
    by (simp add: decrypt_bytes_v8_core_def Let_def ct_def len flip: kb_def)
  moreover have "encrypt_bytes_v8_core H message primes sk aad profile = Ok ct"
    using enc by (simp add: encrypt_bytes_v8_core_def ct_def flip: kb_def)
  moreover have "length ct = 48 + 160 * (B + 2)" by (simp add: ct_def len)
  ultimately show thesis using that by blast
qed

section \<open>What acceptance means\<close>

lemma decrypt_core_acceptance:
  assumes "decrypt_bytes_v8_core H ct primes sk aad \<noteq> Err AuthenticationFailed"
    and "48 \<le> length ct" "(length ct - 48) mod 160 = 0"
  shows "drop (length ct - 32) ct =
     hmac_digest H (derive_format_subkey H sk FORMAT_BLOCK_V8)
       (block_tag_input aad (take (length ct - 32) ct))"
proof -
  let ?p = "take (length ct - 32) ct"
  have "compute_auth_tag H kb aad ?p 8 = Ok (hmac_digest H kb (block_tag_input aad ?p))" for kb
    using assms(2) by (intro compute_block_tag) simp
  with assms show ?thesis
    by (auto simp: decrypt_bytes_v8_core_def decrypt_bytes_v8_core_inner_def Let_def split: if_splits)
qed

section \<open>No call panics\<close>

lemma decrypt_core_not_Panic:
  assumes "safe_key primes" "length ct \<le> 32 * (2 ^ 32 - 1)"
  shows "decrypt_bytes_v8_core H ct primes sk aad \<noteq> Panic"
proof (cases "48 \<le> length ct")
  case True
  define p where "p = take (length ct - 32) ct"
  have p: "16 \<le> length p" "length (drop 16 p) \<le> 32 * (2 ^ 32 - 1)" using True assms(2) by (simp_all add: p_def)
  have "compute_auth_tag H kb aad p 8 \<noteq> Panic" for kb using compute_block_tag [OF p(1)] by simp
  moreover have "varint_keystream H kb n (length (drop 16 p)) \<noteq> Panic" for kb n
    using varint_keystream_Ok [OF p(2)] by simp
  ultimately show ?thesis
    using decrypt_core_v8_not_Panic [OF assms(1)] fixed_decode_not_Panic to_text_not_Panic
    by (auto simp: decrypt_bytes_v8_core_def decrypt_bytes_v8_core_inner_def Let_def p_def)
qed (simp add: decrypt_bytes_v8_core_def)

lemma decrypt_core_v8_no_auth_error: "decrypt_core_v8 H nonce cypher key kb \<noteq> Err AuthenticationFailed"
proof -
  have rec: "recover_loop H (block_errors a b) kb nonce key cypher theta todo i p \<noteq> Err AuthenticationFailed"
    for a b theta todo i p
  proof (induction todo arbitrary: i p)
    case (Suc todo)
    then show ?case
      by (auto simp: key_at_def derive_addend_def recover_token_def block_errors_def Let_def split: prod.split)
  qed simp
  have "unpad_message cs \<noteq> Err AuthenticationFailed" for cs by (simp add: unpad_message_def Let_def)
  with rec show ?thesis by (simp add: decrypt_core_v8_def Let_def)
qed

lemma to_text_no_auth_error: "to_text s \<noteq> Err AuthenticationFailed"
  unfolding to_text_def by (induction s) auto

lemma decrypt_core_shape:
  assumes "decrypt_bytes_v8_core H ct primes sk aad = Ok s"
  obtains B where "reachable_block B" "length ct = 48 + 160 * (B + 2)" "length s \<le> B"
    "drop (length ct - 32) ct =
       hmac_digest H (derive_format_subkey H sk FORMAT_BLOCK_V8) (block_tag_input aad (take (length ct - 32) ct))"
proof -
  have len: "48 \<le> length ct" "(length ct - 48) mod 160 = 0"
    using assms by (auto simp: decrypt_bytes_v8_core_def Let_def split: if_splits)
  have tag: "drop (length ct - 32) ct = hmac_digest H (derive_format_subkey H sk FORMAT_BLOCK_V8)
      (block_tag_input aad (take (length ct - 32) ct))"
    by (rule decrypt_core_acceptance [of H ct primes sk aad, OF _ len]) (simp add: assms)
  define kb where "kb = derive_format_subkey H sk FORMAT_BLOCK_V8"
  define p where "p = take (length ct - 32) ct"
  from assms obtain ks tokens cps where k: "varint_keystream H kb (take 16 p) (length (drop 16 p)) = Ok ks"
      "fixed_decode_tokens (xor_bytes (drop 16 p) ks) = Ok tokens"
      "decrypt_core_v8 H (take 16 p) tokens primes kb = Ok cps" "to_text cps = Ok s"
    by (auto simp: decrypt_bytes_v8_core_def decrypt_bytes_v8_core_inner_def Let_def kb_def p_def split: if_splits)
  have "length ks = length (drop 16 p)" using k(1) by (rule varint_keystream_length)
  then have "8 * length tokens = length ct - 48"
    using arg_cong [OF fixed_encode_decode [OF k(2)], of length] len(1) by (simp add: p_def)
  moreover have "length s = length cps" using k(4) unfolding to_text_def by (auto dest: collect_res_OkD)
  moreover obtain B where "reachable_block B" "length tokens = 20 * (B + 2)" "length cps \<le> B"
    by (rule decrypt_core_v8_shape [OF k(3)])
  ultimately show thesis using that [of B] tag len(1) by simp
qed

section \<open>Outcomes of the entry points\<close>

lemma encrypted_block:
  assumes "encrypt_bytes_v8_with_profile H m message primes sk aad profile = Ok ct" "list_all is_scalar message"
  obtains B where "reachable_block B" "length ct = 48 + 160 * (B + 2)"
    "decrypt_bytes_v8 H m ct primes sk aad = Ok message"
proof -
  have gate: "fips_check m = Ok ()" "validate_key primes = Ok ()"
    and core: "encrypt_bytes_v8_core H message primes sk aad profile = Ok ct"
    using assms(1) by (auto simp: encrypt_bytes_v8_with_profile_def)
  obtain B where B: "block_size profile (length message) = Ok B" and len: "length message < 2 ^ 16"
    using core by (auto simp: encrypt_bytes_v8_core_def encrypt_bytes_v8_core_inner_def Let_def split: if_splits)
  have "safe_key primes" using gate(2) by (simp add: validate_key_Ok_iff valid_key_safe)
  then obtain ct' where "encrypt_bytes_v8_core H message primes sk aad profile = Ok ct'"
      "length ct' = 48 + 160 * (B + 2)" "decrypt_bytes_v8_core H ct' primes sk aad = Ok message"
    using block_round_trip_core [OF _ _ len B] assms(2) unfolding list_all_iff by metis
  with that [of B] gate core block_size_Ok [OF B] show thesis by (simp add: decrypt_bytes_v8_def)
qed

lemma encrypt_outcome:
  assumes "list_all is_scalar message"
  shows "encrypt_bytes_v8_with_profile H m message primes sk aad profile \<noteq> Panic \<and>
     (is_ok (encrypt_bytes_v8_with_profile H m message primes sk aad profile) \<longleftrightarrow>
        fips_check m = Ok () \<and> validate_key primes = Ok () \<and> is_ok (block_size profile (length message)))"
proof (cases "fips_check m = Ok () \<and> validate_key primes = Ok ()")
  case True
  show ?thesis
  proof (cases "block_size profile (length message)")
    case (Ok B)
    then have "length message < 2 ^ 16" by (auto simp: block_size.simps split: if_splits)
    moreover have "safe_key primes" using True by (simp add: validate_key_Ok_iff valid_key_safe)
    ultimately obtain ct where "encrypt_bytes_v8_core H message primes sk aad profile = Ok ct"
      using block_round_trip_core [OF _ _ _ Ok, of primes H sk aad] assms by (auto simp: list_all_iff)
    then show ?thesis using True Ok by (simp add: encrypt_bytes_v8_with_profile_def)
  next
    case (Err e)
    then show ?thesis using True
      by (auto simp: encrypt_bytes_v8_with_profile_def encrypt_bytes_v8_core_def is_ok_iff
          encrypt_bytes_v8_core_inner_def synthetic_nonce_Ok Let_def)
  qed (use block_size_not_Panic in auto)
next
  case False
  then show ?thesis
    using fips_check_cases [of m] validate_key_not_Panic [of primes]
    by (cases "validate_key primes") (auto simp: encrypt_bytes_v8_with_profile_def is_ok_iff)
qed

lemma decrypt_v8_not_Panic:
  assumes "length ct \<le> 32 * (2 ^ 32 - 1)"
  shows "decrypt_bytes_v8 H m ct primes sk aad \<noteq> Panic"
  using fips_check_cases [of m] validate_key_not_Panic [of primes]
    decrypt_core_not_Panic [OF valid_key_safe assms, of primes H sk aad]
  by (auto simp: decrypt_bytes_v8_def validate_key_Ok_iff)

section \<open>Properties\<close>

text \<open>A module without the gate, for concrete runs.\<close>

definition open_module :: module_state where
  "open_module = \<lparr>fips_gate = False, post = POST_NOT_RUN, in_post = False, prev_nonce = None\<rparr>"

lemma fips_check_open_module [simp]: "fips_check open_module = Ok ()"
  by (simp add: fips_check_Ok_iff open_module_def)

lemma sample_ciphertext:
  obtains ct where "decrypt_bytes_v8 (\<lambda>_ _. 0) open_module ct sample_key [] aad = Ok [65]"
proof -
  have "is_scalar 65" by (simp add: is_scalar_def)
  then obtain ct where "decrypt_bytes_v8_core (\<lambda>_ _. 0) ct sample_key [] aad = Ok [65]"
    using block_round_trip_core [OF valid_key_safe [OF valid_sample_key] _ _ block_size_Bucket,
        of "[65]" "\<lambda>_ _. 0" "[]" aad] by auto
  then show thesis using that [of ct] by (simp add: decrypt_bytes_v8_def validate_sample_key)
qed

text \<open>
  C1: block round trip. For every validated key, every message of Unicode scalar values and
  every padding profile that admits its length, encryption returns a ciphertext whose length
  depends on the block size alone, and decryption under the same key and associated data
  returns the message.
\<close>

theorem encrypt_bytes_v8_round_trip:
  assumes "fips_check m = Ok ()" "validate_key primes = Ok ()"
    and "list_all is_scalar message" "block_size profile (length message) = Ok B"
  shows "\<exists>ct. encrypt_bytes_v8_with_profile H m message primes sk aad profile = Ok ct \<and>
     length ct = 48 + 160 * (B + 2) \<and> decrypt_bytes_v8 H m ct primes sk aad = Ok message"
proof -
  have "length message < 2 ^ 16"
    using assms(4) by (auto simp: block_size.simps split: if_splits)
  moreover have "safe_key primes" using assms(2) by (simp add: validate_key_Ok_iff valid_key_safe)
  ultimately obtain ct where "encrypt_bytes_v8_core H message primes sk aad profile = Ok ct"
      "length ct = 48 + 160 * (B + 2)" "decrypt_bytes_v8_core H ct primes sk aad = Ok message"
    using block_round_trip_core [OF _ _ _ assms(4), of primes H sk aad] assms(3) by (auto simp: list_all_iff)
  then show ?thesis using assms(1,2) by (simp add: encrypt_bytes_v8_with_profile_def decrypt_bytes_v8_def)
qed

theorem encrypt_bytes_v8_round_trip_witness:
  "\<exists>ct. encrypt_bytes_v8_with_profile (\<lambda>_ _. 0) open_module [65] sample_key [] [1] (Frame 32) = Ok ct \<and>
     length ct = 5488 \<and> decrypt_bytes_v8 (\<lambda>_ _. 0) open_module ct sample_key [] [1] = Ok [65]"
proof -
  have "reachable_block 32" by (auto simp: reachable_block_def intro!: exI [of _ 5])
  then have "block_size (Frame 32) (length [65 :: nat]) = Ok 32"
    using power_of_two_guard [of 32] by (auto simp: block_size.simps Let_def)
  from encrypt_bytes_v8_round_trip [OF fips_check_open_module validate_sample_key _ this, of "\<lambda>_ _. 0" "[]" "[1]"]
  show ?thesis by (simp add: is_scalar_def)
qed

text \<open>
  C16: encryption is total. On a message of Unicode scalar values it never panics, and it
  succeeds exactly when the gate admits the caller, the key is valid and the profile admits
  the length of the message.
\<close>

theorem encrypt_bytes_v8_total:
  assumes "list_all is_scalar message"
  shows "encrypt_bytes_v8_with_profile H m message primes sk aad profile \<noteq> Panic \<and>
     (is_ok (encrypt_bytes_v8_with_profile H m message primes sk aad profile) \<longleftrightarrow>
        fips_check m = Ok () \<and> validate_key primes = Ok () \<and> is_ok (block_size profile (length message)))"
  by (rule encrypt_outcome [OF assms])

theorem encrypt_bytes_v8_total_witness:
  "encrypt_bytes_v8_with_profile (\<lambda>_ _. 0) open_module [65] sample_key [] [] Bucket \<noteq> Panic \<and>
   is_ok (encrypt_bytes_v8_with_profile (\<lambda>_ _. 0) open_module [65] sample_key [] [] Bucket)"
proof -
  have "list_all is_scalar [65]" by (simp add: is_scalar_def)
  from encrypt_bytes_v8_total [OF this, of "\<lambda>_ _. 0" open_module sample_key "[]" "[]" Bucket]
  show ?thesis by (simp add: validate_sample_key block_size.simps)
qed

text \<open>
  Decryption never panics: an attacker-chosen ciphertext of up to 128 GiB (the reach of
  the keystream counter) is answered with a value or an error, for every key tuple.
\<close>

lemma decrypt_bytes_v8_never_panics:
  assumes "length ct \<le> 32 * (2 ^ 32 - 1)"
  shows "decrypt_bytes_v8 H m ct primes sk aad \<noteq> Panic"
  by (rule decrypt_v8_not_Panic [OF assms])

text \<open>
  What an accepted ciphertext is: its length is the one of a block of the normative
  ladder, the returned message fits in that block, and the last 32 bytes are the HMAC of
  domain byte, nonce, associated data and masked tokens under the block sub-key.
\<close>

lemma accepted_ciphertext_shape:
  assumes "decrypt_bytes_v8 H m ct primes sk aad = Ok s"
  shows "\<exists>e. 4 \<le> e \<and> e \<le> 16 \<and> length ct = 48 + 160 * (2 ^ e + 2) \<and> length s \<le> 2 ^ e \<and>
     drop (length ct - 32) ct =
       hmac_digest H (hmac_digest H sk [0x0B, 0x01])
         ([0x03] @ take 16 ct @ be_bytes 8 (length aad) @ aad @ take (length ct - 48) (drop 16 ct))"
proof -
  have "decrypt_bytes_v8_core H ct primes sk aad = Ok s" using assms by (auto simp: decrypt_bytes_v8_def)
  then obtain B where B: "reachable_block B" "length ct = 48 + 160 * (B + 2)" "length s \<le> B"
      "drop (length ct - 32) ct = hmac_digest H (derive_format_subkey H sk FORMAT_BLOCK_V8)
         (block_tag_input aad (take (length ct - 32) ct))"
    by (rule decrypt_core_shape)
  from B(1) obtain e where e: "4 \<le> e" "e \<le> 16" "B = 2 ^ e" by (auto simp: reachable_block_def)
  have "block_tag_input aad (take (length ct - 32) ct) =
      [0x03] @ take 16 ct @ be_bytes 8 (length aad) @ aad @ take (length ct - 48) (drop 16 ct)"
    using B(2) by (simp add: block_tag_input_def schedule_data_def drop_take)
  with e B(2-4) show ?thesis
    by (intro exI [of _ e]) (simp add: derive_format_subkey_def FORMAT_BLOCK_V8_def)
qed

text \<open>
  C3: integrity. Two accepted pairs of ciphertext and associated data that carry the same tag
  under one secret are the same pair, or the keyed hash collides on their own two tag inputs:
  under the block sub-key of that secret it sends the (different) authenticated bytes of the
  first pair and of the second pair to one digest. The domain byte, nonce, length-prefixed
  associated data and masked tokens of an accepted pair are therefore all bound by its tag; a
  modified ciphertext or modified associated data is only accepted with a new tag or with that
  particular collision.
\<close>

theorem accepted_pairs_bind:
  assumes "decrypt_bytes_v8 H m ct primes sk aad = Ok s" "decrypt_bytes_v8 H m' ct' primes' sk aad' = Ok s'"
    and "drop (length ct - 32) ct = drop (length ct' - 32) ct'"
    and "length aad < u64_limit" "length aad' < u64_limit"
  shows "ct = ct' \<and> aad = aad' \<or>
     block_tag_input aad (take (length ct - 32) ct) \<noteq> block_tag_input aad' (take (length ct' - 32) ct') \<and>
     H (derive_format_subkey H sk FORMAT_BLOCK_V8) (block_tag_input aad (take (length ct - 32) ct)) =
       H (derive_format_subkey H sk FORMAT_BLOCK_V8) (block_tag_input aad' (take (length ct' - 32) ct'))"
proof -
  let ?p = "take (length ct - 32) ct" and ?p' = "take (length ct' - 32) ct'"
  let ?k = "derive_format_subkey H sk FORMAT_BLOCK_V8"
  have "decrypt_bytes_v8_core H ct primes sk aad = Ok s" "decrypt_bytes_v8_core H ct' primes' sk aad' = Ok s'"
    using assms(1,2) by (auto simp: decrypt_bytes_v8_def)
  then have len: "16 \<le> length ?p" "16 \<le> length ?p'"
    and tags: "drop (length ct - 32) ct = hmac_digest H ?k (block_tag_input aad ?p)"
      "drop (length ct' - 32) ct' = hmac_digest H ?k (block_tag_input aad' ?p')"
    by (auto elim!: decrypt_core_shape)
  have "H ?k (block_tag_input aad ?p) = H ?k (block_tag_input aad' ?p')"
    using assms(3) tags by (simp add: hmac_digest_inj)
  moreover have "ct = ct' \<and> aad = aad'" if "block_tag_input aad ?p = block_tag_input aad' ?p'"
    using block_tag_input_inj [OF that len assms(4,5)] assms(3) by (metis append_take_drop_id)
  ultimately show ?thesis by blast
qed

theorem accepted_pairs_bind_witness:
  "\<exists>ct ct'. decrypt_bytes_v8 (\<lambda>_ _. 0) open_module ct sample_key [] [7] = Ok [65] \<and>
     decrypt_bytes_v8 (\<lambda>_ _. 0) open_module ct' sample_key [] [8] = Ok [65] \<and>
     block_tag_input [7] (take (length ct - 32) ct) \<noteq> block_tag_input [8] (take (length ct' - 32) ct') \<and>
     drop (length ct - 32) ct = drop (length ct' - 32) ct'"
proof -
  obtain ct where ct: "decrypt_bytes_v8 (\<lambda>_ _. 0) open_module ct sample_key [] [7] = Ok [65]"
    by (rule sample_ciphertext)
  obtain ct' where ct': "decrypt_bytes_v8 (\<lambda>_ _. 0) open_module ct' sample_key [] [8] = Ok [65]"
    by (rule sample_ciphertext)
  have tag: "drop (length ct - 32) ct = drop (length ct' - 32) ct'"
    using ct ct' by (auto simp: decrypt_bytes_v8_def hmac_digest_def elim!: decrypt_core_shape)
  from accepted_pairs_bind [OF ct ct' tag] show ?thesis using ct ct' tag by (auto simp: u64_limit_def)
qed

end
