(* ===== verification/KeyMaterial.thy ===== *)
theory KeyMaterial
  imports BlockV8
begin

text \<open>
  Key generation of \<open>rust/src/lib.rs\<close> and the validated key wrapper of
  \<open>rust/src/key.rs\<close>, with the interface the frame layer relies on: an authenticated
  cipher whose decryption inverts its encryption.
\<close>

section \<open>Generation and erasure\<close>

text \<open>
  \<open>draw\<close> is the sequence of samples of \<open>rand::distributions::Uniform\<close> over the range
  given to the generator, \<open>sk_draw\<close> the 32 bytes filled in by the system generator.
\<close>

definition generate_prime_numbers ::
    "(nat \<Rightarrow> nat) \<Rightarrow> module_state \<Rightarrow> nat \<Rightarrow> nat \<Rightarrow> nat \<Rightarrow> (nat list, error) res" where
  "generate_prime_numbers draw m count min_val max_val =
     res_bind (fips_check m) (\<lambda>_. generate_prime_numbers_core draw count min_val max_val)"

definition generate_v8_key ::
    "(nat \<Rightarrow> nat) \<Rightarrow> bytes \<Rightarrow> module_state \<Rightarrow> nat \<Rightarrow> nat \<Rightarrow> nat \<Rightarrow> (nat list \<times> bytes, error) res" where
  "generate_v8_key draw sk_draw m count min_val max_val =
     res_bind (fips_check m) (\<lambda>_.
       if \<not> (MIN_KEY_PRIME \<le> min_val \<and> max_val \<le> MAX_KEY_PRIME)
       then Err (KeyError (KeygenOutsideInterval min_val max_val))
       else res_bind (generate_prime_numbers draw m count min_val max_val) (\<lambda>primes.
              Ok (primes, sk_draw)))"

text \<open>The volatile overwrites leave a buffer of zeros of the same length.\<close>

definition zeroize_key :: "nat list \<Rightarrow> nat list" where
  "zeroize_key key = map (\<lambda>_. 0) key"

definition zeroize_sk :: "bytes \<Rightarrow> bytes" where
  "zeroize_sk sk = map (\<lambda>_. 0) sk"

section \<open>The key wrapper\<close>

record NapqesKey =
  key_primes :: "nat list"
  key_sk :: bytes

definition NapqesKey_new :: "nat list \<Rightarrow> bytes \<Rightarrow> (NapqesKey, error) res" where
  "NapqesKey_new ps s =
     (case validate_key ps of
        Ok _ \<Rightarrow> Ok \<lparr>key_primes = ps, key_sk = s\<rparr>
      | Err e \<Rightarrow> Err e
      | Panic \<Rightarrow> Panic)"

definition NapqesKey_generate :: "(nat \<Rightarrow> nat) \<Rightarrow> bytes \<Rightarrow> module_state \<Rightarrow> (NapqesKey, error) res" where
  "NapqesKey_generate draw sk_draw m =
     res_bind (generate_v8_key draw sk_draw m DEFAULT_KEY_COUNT MIN_KEY_PRIME MAX_KEY_PRIME)
       (\<lambda>(ps, s). NapqesKey_new ps s)"

definition NapqesKey_k :: "NapqesKey \<Rightarrow> nat" where
  "NapqesKey_k key = length (key_primes key)"

definition NapqesKey_drop :: "NapqesKey \<Rightarrow> NapqesKey" where
  "NapqesKey_drop key = key\<lparr>key_primes := zeroize_key (key_primes key), key_sk := zeroize_sk (key_sk key)\<rparr>"

section \<open>Entry points on a validated key\<close>

definition encrypt_bytes_v8_with_profile_key ::
    "mac \<Rightarrow> module_state \<Rightarrow> str \<Rightarrow> NapqesKey \<Rightarrow> bytes \<Rightarrow> PadProfile \<Rightarrow> (bytes, error) res" where
  "encrypt_bytes_v8_with_profile_key H m message key aad pad_profile =
     res_bind (fips_check m) (\<lambda>_. encrypt_bytes_v8_core H message (key_primes key) (key_sk key) aad pad_profile)"

definition encrypt_bytes_v8_key ::
    "mac \<Rightarrow> module_state \<Rightarrow> str \<Rightarrow> NapqesKey \<Rightarrow> bytes \<Rightarrow> (bytes, error) res" where
  "encrypt_bytes_v8_key H m message key aad =
     res_bind (fips_check m) (\<lambda>_. encrypt_bytes_v8_core H message (key_primes key) (key_sk key) aad Bucket)"

definition decrypt_bytes_v8_key ::
    "mac \<Rightarrow> module_state \<Rightarrow> bytes \<Rightarrow> NapqesKey \<Rightarrow> bytes \<Rightarrow> (str, error) res" where
  "decrypt_bytes_v8_key H m ciphertext key aad =
     res_bind (fips_check m) (\<lambda>_. decrypt_bytes_v8_core H ciphertext (key_primes key) (key_sk key) aad)"

section \<open>The contract of an authenticated cipher\<close>

locale aead =
  fixes enc :: "'k \<Rightarrow> str \<Rightarrow> bytes \<Rightarrow> (bytes, error) res"
    and dec :: "'k \<Rightarrow> bytes \<Rightarrow> bytes \<Rightarrow> (str, error) res"
    and usable :: "'k \<Rightarrow> bool"
    and message :: "str \<Rightarrow> bool"
  assumes seals: "usable k \<Longrightarrow> message s \<Longrightarrow> \<exists>ct. enc k s aad = Ok ct \<and> dec k ct aad = Ok s"
begin

lemma opens: "usable k \<Longrightarrow> message s \<Longrightarrow> enc k s aad = Ok ct \<Longrightarrow> dec k ct aad = Ok s"
  using seals [of k s aad] by auto

lemma enc_injective:
  "usable k \<Longrightarrow> message s \<Longrightarrow> message s' \<Longrightarrow> enc k s aad = enc k s' aad \<Longrightarrow> s = s'"
  by (metis opens res.inject(1) seals)

lemma ciphertext_determines_message:
  assumes "usable k" "message s" "message s'" "enc k s aad = Ok ct" "enc k s' aad = Ok ct'" "s \<noteq> s'"
  shows "ct \<noteq> ct'"
  using assms enc_injective [of k s s' aad] by auto

end

definition usable_key :: "NapqesKey \<Rightarrow> bool" where
  "usable_key key \<longleftrightarrow> valid_key (key_primes key)"

definition text_message :: "str \<Rightarrow> bool" where
  "text_message s \<longleftrightarrow> length s \<le> MAX_PLAINTEXT_CODEPOINTS \<and> (\<forall>c \<in> set s. is_scalar c)"

lemma text_message_block: "text_message s \<Longrightarrow> block_size Bucket (length s) = Ok (bucket_block_size (length s))"
  by (intro block_size_Bucket) (simp add: text_message_def)

lemma key_round_trip:
  assumes "fips_check m = Ok ()" "usable_key key" "text_message s"
  shows "\<exists>ct. encrypt_bytes_v8_key H m s key aad = Ok ct \<and> decrypt_bytes_v8_key H m ct key aad = Ok s"
proof -
  have "safe_key (key_primes key)" using assms(2) by (simp add: usable_key_def valid_key_safe)
  moreover have "\<forall>c \<in> set s. is_scalar c" "length s < 2 ^ 16"
    using assms(3) by (auto simp: text_message_def)
  ultimately show ?thesis
    using block_round_trip_core [OF _ _ _ text_message_block [OF assms(3)], of "key_primes key" H "key_sk key" aad]
    by (auto simp: assms(1) encrypt_bytes_v8_key_def decrypt_bytes_v8_key_def)
qed

text \<open>The v8 block cipher fulfils the contract wherever the gate admits the caller.\<close>

definition operational :: "module_state \<Rightarrow> bool" where
  "operational m \<longleftrightarrow> fips_check m = Ok ()"

interpretation block_cipher: aead
  "\<lambda>(H, m, key) s aad. encrypt_bytes_v8_key H m s key aad"
  "\<lambda>(H, m, key) ct aad. decrypt_bytes_v8_key H m ct key aad"
  "\<lambda>(H, m, key). operational m \<and> usable_key key"
  text_message
  by unfold_locales (auto simp: operational_def intro!: key_round_trip)

section \<open>Keys that the constructors return\<close>

lemma NapqesKey_new_Ok: "NapqesKey_new ps s = Ok key \<Longrightarrow> usable_key key \<and> key_primes key = ps \<and> key_sk key = s"
  by (auto simp: NapqesKey_new_def usable_key_def validate_key_Ok_iff split: res.splits)

lemma generate_v8_key_valid:
  assumes "generate_v8_key draw sk_draw m count lo hi = Ok (ps, s)" "\<And>i. lo \<le> draw i \<and> draw i \<le> hi"
  shows "valid_key ps \<and> length ps = count \<and> s = sk_draw"
proof -
  from assms(1) have core: "generate_prime_numbers_core draw count lo hi = Ok ps" "s = sk_draw"
      and range: "MIN_KEY_PRIME \<le> lo" "hi \<le> MAX_KEY_PRIME"
    by (auto simp: generate_v8_key_def generate_prime_numbers_def split: if_splits)
  then have count: "0 < count" "count \<le> MAX_KEY_ELEMENTS"
    by (auto simp: generate_prime_numbers_core_def split: if_splits)
  have "hi < u64_limit" using range(2) by (simp add: key_consts u64_limit_def)
  note gen = generate_prime_numbers_core_Ok [OF core(1) assms(2) this]
  then show ?thesis using core(2) count range by (fastforce simp: valid_key_def)
qed

section \<open>Properties\<close>

text \<open>
  C19: every key the generator returns is one that validation accepts: for samples inside the
  requested interval, a successful \<open>generate_v8_key\<close> yields exactly the requested number
  of distinct primes of the normative interval, together with the drawn secret, and the
  wrapper accepts them.
\<close>

theorem generated_key_validates:
  assumes "generate_v8_key draw sk_draw m count lo hi = Ok (ps, s)"
    and "\<And>i. lo \<le> draw i \<and> draw i \<le> hi"
  shows "validate_key ps = Ok () \<and> length ps = count \<and> s = sk_draw \<and>
     NapqesKey_new ps s = Ok \<lparr>key_primes = ps, key_sk = s\<rparr>"
proof -
  note v = generate_v8_key_valid [OF assms]
  then have "validate_key ps = Ok ()" by (simp add: validate_key_Ok_iff)
  with v show ?thesis by (simp add: NapqesKey_new_def)
qed

lemma keygen_loop_done:
  "count \<le> length primes \<Longrightarrow> keygen_loop draw count left attempts index primes = primes"
  by (cases left) simp_all

theorem generated_key_validates_witness:
  "generate_v8_key (\<lambda>_. 1000003) [9] open_module 1 1000000 1000010 = Ok ([1000003], [9]) \<and>
   NapqesKey_new [1000003] [9] = Ok \<lparr>key_primes = [1000003], key_sk = [9]\<rparr>"
proof -
  have "keygen_loop (\<lambda>_. 1000003) (Suc 0) (Suc n) 0 [] [] = [1000003]" for n
    by (simp add: Let_def binary_search_slot_def sample_primes keygen_loop_done insert_at_def)
  from this [of 4095]
  have "generate_v8_key (\<lambda>_. 1000003) [9] open_module 1 1000000 1000010 = Ok ([1000003], [9])"
    by (simp add: generate_v8_key_def generate_prime_numbers_def generate_prime_numbers_core_def key_consts
        KEYGEN_DRAWS_PER_PRIME_def u64_limit_def Let_def)
  with generated_key_validates [OF this] show ?thesis by simp
qed

text \<open>
  The wrapper changes nothing but the time of validation: on a key that the constructor
  accepted, the three entry points taking a \<open>NapqesKey\<close> return what the entry points on
  bare slices return, and a tuple the constructor refuses is refused by those with the same
  error.
\<close>

lemma key_wrapper_equivalence:
  "case NapqesKey_new ps s of
     Ok key \<Rightarrow>
       encrypt_bytes_v8_key H m msg key aad = encrypt_bytes_v8 H m msg ps s aad \<and>
       encrypt_bytes_v8_with_profile_key H m msg key aad profile
         = encrypt_bytes_v8_with_profile H m msg ps s aad profile \<and>
       decrypt_bytes_v8_key H m ct key aad = decrypt_bytes_v8 H m ct ps s aad
   | Err e \<Rightarrow>
       encrypt_bytes_v8_with_profile H m msg ps s aad profile = res_bind (fips_check m) (\<lambda>_. Err e) \<and>
       decrypt_bytes_v8 H m ct ps s aad = res_bind (fips_check m) (\<lambda>_. Err e)
   | Panic \<Rightarrow> False"
  using validate_key_not_Panic [of ps]
  by (cases "validate_key ps")
    (simp_all add: NapqesKey_new_def encrypt_bytes_v8_key_def encrypt_bytes_v8_with_profile_key_def
      decrypt_bytes_v8_key_def encrypt_bytes_v8_def encrypt_bytes_v8_with_profile_def decrypt_bytes_v8_def)

text \<open>
  Ciphertexts are unambiguous. Under one key and one associated datum, two different
  messages never encrypt to the same bytes, although the nonce is derived from the message.
\<close>

lemma distinct_messages_distinct_ciphertexts:
  assumes "fips_check m = Ok ()" "NapqesKey_new ps sk = Ok key"
    and "text_message s" "text_message s'" "s \<noteq> s'"
    and "encrypt_bytes_v8_key H m s key aad = Ok ct" "encrypt_bytes_v8_key H m s' key aad = Ok ct'"
  shows "ct \<noteq> ct'"
  using block_cipher.ciphertext_determines_message [of "(H, m, key)" s s' aad ct ct'] assms
    NapqesKey_new_Ok [OF assms(2)] by (simp add: operational_def)

end
