(* ===== verification/Kem.thy ===== *)
theory Kem
  imports KeyMaterial
begin

text \<open>
  Key establishment of \<open>rust/src/kem.rs\<close>. FrodoKEM-640-AES (\<open>pqcrypto_frodo\<close>), X25519
  (\<open>x25519_dalek\<close>) and HKDF-SHA256 (\<open>hkdf\<close>) are third-party code: the record
  \<open>kem_prims\<close> carries them as parameters, the random choices as arguments.
\<close>

section \<open>Parameters\<close>

record kem_prims =
  frodo_keypair :: "bytes \<Rightarrow> bytes \<times> bytes"
  frodo_pk_ok :: "bytes \<Rightarrow> bool"
  frodo_sk_ok :: "bytes \<Rightarrow> bool"
  frodo_ct_ok :: "bytes \<Rightarrow> bool"
  frodo_encapsulate :: "bytes \<Rightarrow> bytes \<Rightarrow> bytes \<times> bytes"
  frodo_decapsulate :: "bytes \<Rightarrow> bytes \<Rightarrow> bytes"
  x25519_public :: "bytes \<Rightarrow> bytes"
  x25519_dh :: "bytes \<Rightarrow> bytes \<Rightarrow> bytes"
  hkdf32 :: "bytes \<Rightarrow> bytes \<Rightarrow> bytes \<Rightarrow> bytes"

section \<open>Constants\<close>

definition ascii :: "string \<Rightarrow> bytes" where
  "ascii s = map (\<lambda>c. of_nat (of_char c)) s"

definition NAPQES_KEY_COUNT :: nat where "NAPQES_KEY_COUNT = 13"
definition MIN_PRIME :: nat where "MIN_PRIME = 1000000"
definition MAX_PRIME :: nat where "MAX_PRIME = 15000000"
definition HKDF_SALT :: bytes where "HKDF_SALT = ascii ''NAPQES-v6-FrodoKEM-640-prime-key''"
definition HKDF_INFO :: bytes where "HKDF_INFO = ascii ''v1''"
definition HKDF_INFO_V8_SK :: bytes where "HKDF_INFO_V8_SK = ascii ''v1-sk-v8''"
definition HYBRID_HKDF_SALT :: bytes where
  "HYBRID_HKDF_SALT = ascii ''NAPQES-hybrid-FrodoKEM640AES-X25519-prime-key''"
definition HYBRID_HKDF_INFO_PREFIX :: bytes where "HYBRID_HKDF_INFO_PREFIX = ascii ''v2''"
definition FRODO_PUBLIC_KEY_SIZE :: nat where "FRODO_PUBLIC_KEY_SIZE = 9616"
definition FRODO_SECRET_KEY_SIZE :: nat where "FRODO_SECRET_KEY_SIZE = 19888"
definition FRODO_CIPHERTEXT_SIZE :: nat where "FRODO_CIPHERTEXT_SIZE = 9720"
definition X25519_KEY_SIZE :: nat where "X25519_KEY_SIZE = 32"
definition HYBRID_PUBLIC_KEY_SIZE :: nat where
  "HYBRID_PUBLIC_KEY_SIZE = FRODO_PUBLIC_KEY_SIZE + X25519_KEY_SIZE"
definition HYBRID_SECRET_KEY_SIZE :: nat where
  "HYBRID_SECRET_KEY_SIZE = FRODO_SECRET_KEY_SIZE + X25519_KEY_SIZE + FRODO_PUBLIC_KEY_SIZE"
definition HYBRID_CIPHERTEXT_SIZE :: nat where
  "HYBRID_CIPHERTEXT_SIZE = FRODO_CIPHERTEXT_SIZE + X25519_KEY_SIZE"

lemmas kem_sizes [simp] =
  FRODO_PUBLIC_KEY_SIZE_def FRODO_SECRET_KEY_SIZE_def FRODO_CIPHERTEXT_SIZE_def X25519_KEY_SIZE_def
  HYBRID_PUBLIC_KEY_SIZE_def HYBRID_SECRET_KEY_SIZE_def HYBRID_CIPHERTEXT_SIZE_def

section \<open>From a seed to primes\<close>

definition seed_candidate :: "mac \<Rightarrow> bytes \<Rightarrow> nat \<Rightarrow> nat" where
  "seed_candidate H seed counter =
     u64_from_be8 (hmac_digest H seed (be_bytes 4 counter)) mod (MAX_PRIME - MIN_PRIME) + MIN_PRIME"

text \<open>
  The loop \<open>while primes.len() < NAPQES_KEY_COUNT\<close>; \<open>counter += 1\<close> on a \<open>u32\<close>
  panics at the end of its range. The set \<open>seen\<close> holds the elements of \<open>primes\<close>.
\<close>

function expand_loop :: "mac \<Rightarrow> bytes \<Rightarrow> nat \<Rightarrow> nat list \<Rightarrow> nat set \<Rightarrow> (nat list, error) res" where
  "expand_loop H seed counter primes seen =
     (if length primes < NAPQES_KEY_COUNT then
        (let raw = seed_candidate H seed counter in
         if counter + 1 < 2 ^ 32 then
           (if raw \<notin> seen \<and> is_prime raw
            then expand_loop H seed (counter + 1) (primes @ [raw]) (insert raw seen)
            else expand_loop H seed (counter + 1) primes seen)
         else Panic)
      else Ok primes)"
  by pat_completeness auto
termination
  by (relation "measure (\<lambda>(H, seed, counter, primes, seen). 2 ^ 32 - counter)") auto

declare expand_loop.simps [simp del]

definition expand_seed_to_primes :: "mac \<Rightarrow> bytes \<Rightarrow> (nat list, error) res" where
  "expand_seed_to_primes H seed = expand_loop H seed 0 [] {}"

section \<open>FrodoKEM only\<close>

definition derive_napqes_key :: "mac \<Rightarrow> kem_prims \<Rightarrow> bytes \<Rightarrow> (nat list, error) res" where
  "derive_napqes_key H P shared_secret = expand_seed_to_primes H (hkdf32 P HKDF_SALT shared_secret HKDF_INFO)"

definition derive_v8_sk :: "kem_prims \<Rightarrow> bytes \<Rightarrow> bytes" where
  "derive_v8_sk P shared_secret = hkdf32 P HKDF_SALT shared_secret HKDF_INFO_V8_SK"

definition derive_v8_key :: "mac \<Rightarrow> kem_prims \<Rightarrow> bytes \<Rightarrow> (NapqesKey, error) res" where
  "derive_v8_key H P shared_secret =
     res_bind (derive_napqes_key H P shared_secret) (\<lambda>ps. NapqesKey_new ps (derive_v8_sk P shared_secret))"

definition keygen :: "kem_prims \<Rightarrow> bytes \<Rightarrow> bytes \<times> bytes" where
  "keygen P rand = frodo_keypair P rand"

definition encapsulate ::
    "mac \<Rightarrow> kem_prims \<Rightarrow> bytes \<Rightarrow> module_state \<Rightarrow> bytes \<Rightarrow> (bytes \<times> nat list, error) res" where
  "encapsulate H P rand m public_key =
     res_bind (fips_check m) (\<lambda>_.
       if \<not> frodo_pk_ok P public_key then Err (KemError KemPublicKey)
       else case frodo_encapsulate P rand public_key of
         (ss, ct) \<Rightarrow> res_bind (derive_napqes_key H P ss) (\<lambda>key. Ok (ct, key)))"

text \<open>The parse steps and the decapsulation shared by both decapsulators.\<close>

definition frodo_open :: "kem_prims \<Rightarrow> bytes \<Rightarrow> bytes \<Rightarrow> (bytes, error) res" where
  "frodo_open P ciphertext secret_key =
     (if \<not> frodo_ct_ok P ciphertext then Err (KemError KemCiphertext)
      else if \<not> frodo_sk_ok P secret_key then Err (KemError KemSecretKey)
      else Ok (frodo_decapsulate P ciphertext secret_key))"

definition decapsulate ::
    "mac \<Rightarrow> kem_prims \<Rightarrow> module_state \<Rightarrow> bytes \<Rightarrow> bytes \<Rightarrow> (nat list, error) res" where
  "decapsulate H P m ciphertext secret_key =
     res_bind (fips_check m) (\<lambda>_.
     res_bind (frodo_open P ciphertext secret_key) (derive_napqes_key H P))"

definition encapsulate_v8 ::
    "mac \<Rightarrow> kem_prims \<Rightarrow> bytes \<Rightarrow> module_state \<Rightarrow> bytes \<Rightarrow> (bytes \<times> NapqesKey, error) res" where
  "encapsulate_v8 H P rand m public_key =
     res_bind (fips_check m) (\<lambda>_.
       if \<not> frodo_pk_ok P public_key then Err (KemError KemPublicKey)
       else case frodo_encapsulate P rand public_key of
         (ss, ct) \<Rightarrow> res_bind (derive_v8_key H P ss) (\<lambda>key. Ok (ct, key)))"

definition decapsulate_v8 ::
    "mac \<Rightarrow> kem_prims \<Rightarrow> module_state \<Rightarrow> bytes \<Rightarrow> bytes \<Rightarrow> (NapqesKey, error) res" where
  "decapsulate_v8 H P m ciphertext secret_key =
     res_bind (fips_check m) (\<lambda>_.
     res_bind (frodo_open P ciphertext secret_key) (derive_v8_key H P))"

section \<open>Hybrid with X25519\<close>

definition hybrid_transcript :: "bytes \<Rightarrow> bytes \<Rightarrow> bytes \<Rightarrow> bytes \<Rightarrow> bytes" where
  "hybrid_transcript pk_pq ct_pq pk_ec_static pk_ec_ephemeral =
     HYBRID_HKDF_INFO_PREFIX @
     concat (map (\<lambda>part. be_bytes 4 (length part) @ part) [pk_pq, ct_pq, pk_ec_static, pk_ec_ephemeral])"

definition derive_napqes_key_hybrid ::
    "mac \<Rightarrow> kem_prims \<Rightarrow> bytes \<Rightarrow> bytes \<Rightarrow> bytes \<Rightarrow> (nat list, error) res" where
  "derive_napqes_key_hybrid H P ss_pq ss_ec transcript =
     (if length ss_ec \<noteq> X25519_KEY_SIZE then Err (KemError (HybridSharedSecretSize (length ss_ec)))
      else if list_all (\<lambda>b. b = 0) ss_ec then Err (KemError HybridAllZero)
      else expand_seed_to_primes H (hkdf32 P HYBRID_HKDF_SALT (ss_pq @ ss_ec) transcript))"

text \<open>\<open>ec_rand\<close> is the scalar drawn by \<open>StaticSecret::random_from_rng\<close>.\<close>

definition keygen_hybrid :: "kem_prims \<Rightarrow> bytes \<Rightarrow> bytes \<Rightarrow> bytes \<times> bytes" where
  "keygen_hybrid P rand ec_rand =
     (case frodo_keypair P rand of
        (pk_pq, sk_pq) \<Rightarrow> (pk_pq @ x25519_public P ec_rand, sk_pq @ ec_rand @ pk_pq))"

definition encapsulate_hybrid ::
    "mac \<Rightarrow> kem_prims \<Rightarrow> bytes \<Rightarrow> bytes \<Rightarrow> module_state \<Rightarrow> bytes \<Rightarrow> (bytes \<times> nat list, error) res" where
  "encapsulate_hybrid H P rand ec_rand m public_key =
     res_bind (fips_check m) (\<lambda>_.
       if length public_key \<noteq> HYBRID_PUBLIC_KEY_SIZE
       then Err (KemError (HybridPublicKeySize (length public_key)))
       else let pk_pq = take FRODO_PUBLIC_KEY_SIZE public_key;
                pk_ec_static = drop FRODO_PUBLIC_KEY_SIZE public_key
            in if \<not> frodo_pk_ok P pk_pq then Err (KemError KemPublicKey)
               else case frodo_encapsulate P rand pk_pq of
                 (ss_pq, ct_pq) \<Rightarrow>
                   let pk_ec_ephemeral = x25519_public P ec_rand;
                       ss_ec = x25519_dh P ec_rand pk_ec_static;
                       transcript = hybrid_transcript pk_pq ct_pq pk_ec_static pk_ec_ephemeral
                   in res_bind (derive_napqes_key_hybrid H P ss_pq ss_ec transcript) (\<lambda>key.
                        Ok (ct_pq @ pk_ec_ephemeral, key)))"

definition decapsulate_hybrid ::
    "mac \<Rightarrow> kem_prims \<Rightarrow> module_state \<Rightarrow> bytes \<Rightarrow> bytes \<Rightarrow> (nat list, error) res" where
  "decapsulate_hybrid H P m ciphertext secret_key =
     res_bind (fips_check m) (\<lambda>_.
       if length ciphertext \<noteq> HYBRID_CIPHERTEXT_SIZE
       then Err (KemError (HybridCiphertextSize (length ciphertext)))
       else if length secret_key \<noteq> HYBRID_SECRET_KEY_SIZE
       then Err (KemError (HybridSecretKeySize (length secret_key)))
       else let ct_pq = take FRODO_CIPHERTEXT_SIZE ciphertext;
                pk_ec_ephemeral = drop FRODO_CIPHERTEXT_SIZE ciphertext;
                sk_pq = take FRODO_SECRET_KEY_SIZE secret_key;
                sk_ec = take X25519_KEY_SIZE (drop FRODO_SECRET_KEY_SIZE secret_key);
                pk_pq = drop (FRODO_SECRET_KEY_SIZE + X25519_KEY_SIZE) secret_key
            in res_bind (frodo_open P ct_pq sk_pq) (\<lambda>ss_pq.
                 let pk_ec_static = x25519_public P sk_ec;
                     ss_ec = x25519_dh P sk_ec pk_ec_ephemeral
                 in derive_napqes_key_hybrid H P ss_pq ss_ec
                      (hybrid_transcript pk_pq ct_pq pk_ec_static pk_ec_ephemeral)))"

section \<open>The derived tuple is a key\<close>

definition kem_tuple :: "nat list \<Rightarrow> bool" where
  "kem_tuple ps \<longleftrightarrow> distinct ps \<and> length ps \<le> 13 \<and>
     (\<forall>k \<in> set ps. is_prime k \<and> 1000000 \<le> k \<and> k < 15000000)"

lemma seed_candidate_range: "1000000 \<le> seed_candidate H seed i \<and> seed_candidate H seed i < 15000000"
  unfolding seed_candidate_def MAX_PRIME_def MIN_PRIME_def
  using mod_less_divisor [of 14000000 "u64_from_be8 (hmac_digest H seed (be_bytes 4 i))"] by simp

lemma expand_loop_tuple:
  "expand_loop H seed i ps seen = Ok ks \<Longrightarrow> seen = set ps \<Longrightarrow> kem_tuple ps \<Longrightarrow> kem_tuple ks \<and> length ks = 13"
proof (induction H seed i ps seen rule: expand_loop.induct)
  case (1 H seed i ps seen)
  let ?raw = "seed_candidate H seed i"
  show ?case
  proof (cases "length ps < 13")
    case False
    then have "length ps = 13" using "1.prems"(3) by (simp add: kem_tuple_def)
    then show ?thesis using "1.prems" by (subst (asm) expand_loop.simps) (simp add: NAPQES_KEY_COUNT_def)
  next
    case True
    then have lt: "i + 1 < 2 ^ 32"
      using "1.prems"(1) by (subst (asm) expand_loop.simps) (auto simp: NAPQES_KEY_COUNT_def Let_def split: if_splits)
    show ?thesis
    proof (cases "?raw \<notin> seen \<and> is_prime ?raw")
      case T: True
      then have "expand_loop H seed (i + 1) (ps @ [?raw]) (insert ?raw seen) = Ok ks"
        using "1.prems"(1) True lt by (subst (asm) expand_loop.simps) (simp add: NAPQES_KEY_COUNT_def Let_def)
      moreover have "kem_tuple (ps @ [?raw])"
        using T True "1.prems"(2,3) seed_candidate_range [of H seed i] by (auto simp: kem_tuple_def)
      ultimately show ?thesis
        using "1.IH"(1) [OF _ refl lt T] True "1.prems"(2) by (simp add: NAPQES_KEY_COUNT_def)
    next
      case F: False
      then have "expand_loop H seed (i + 1) ps seen = Ok ks"
        using "1.prems"(1) True lt by (subst (asm) expand_loop.simps) (auto simp: NAPQES_KEY_COUNT_def Let_def)
      then show ?thesis
        using "1.IH"(2) [OF _ refl lt F] True "1.prems"(2,3) by (simp add: NAPQES_KEY_COUNT_def)
    qed
  qed
qed

lemma expand_seed_valid: "expand_seed_to_primes H seed = Ok ks \<Longrightarrow> valid_key ks \<and> length ks = 13"
proof -
  assume "expand_seed_to_primes H seed = Ok ks"
  then have ks: "kem_tuple ks" "length ks = 13"
    using expand_loop_tuple [of H seed 0 "[]" "{}" ks] by (auto simp: expand_seed_to_primes_def kem_tuple_def)
  have "prime_number k" if "k \<in> set ks" for k
    using that ks(1) is_prime_iff [of k] by (auto simp: kem_tuple_def u64_limit_def)
  with ks show ?thesis by (fastforce simp: kem_tuple_def valid_key_def key_consts)
qed

section \<open>When the expansion returns\<close>

text \<open>The prime candidates of the counters below \<open>n\<close>.\<close>

definition prime_candidates :: "mac \<Rightarrow> bytes \<Rightarrow> nat \<Rightarrow> nat set" where
  "prime_candidates H seed n = {k \<in> seed_candidate H seed ` {..<n}. is_prime k}"

lemma finite_prime_candidates [simp]: "finite (prime_candidates H seed n)"
  by (simp add: prime_candidates_def)

lemma prime_candidates_Suc:
  "prime_candidates H seed (Suc n) =
     (if is_prime (seed_candidate H seed n) then insert (seed_candidate H seed n) (prime_candidates H seed n)
      else prime_candidates H seed n)"
  by (auto simp: prime_candidates_def lessThan_Suc)

lemma expand_loop_returns:
  assumes "13 \<le> card (prime_candidates H seed (2 ^ 32 - 1))"
  shows "i \<le> 2 ^ 32 - 1 \<Longrightarrow> set ps = prime_candidates H seed i \<Longrightarrow> distinct ps \<Longrightarrow>
     is_ok (expand_loop H seed i ps (set ps))"
proof (induction "2 ^ 32 - 1 - i" arbitrary: i ps)
  case 0
  then have "i = 2 ^ 32 - 1" by linarith
  then have "13 \<le> length ps" using assms 0 distinct_card [of ps] by simp
  then show ?case by (subst expand_loop.simps) (simp add: NAPQES_KEY_COUNT_def)
next
  case (Suc n)
  then have lt: "i + 1 < 2 ^ 32" "n = 2 ^ 32 - 1 - (i + 1)" "i + 1 \<le> 2 ^ 32 - 1" by linarith+
  let ?raw = "seed_candidate H seed i"
  show ?case
  proof (cases "length ps < 13")
    case True
    have ins: "insert ?raw (set ps) = set (ps @ [?raw])" by simp
    have cand: "set (if ?raw \<notin> set ps \<and> is_prime ?raw then ps @ [?raw] else ps) = prime_candidates H seed (i + 1)"
      "distinct (if ?raw \<notin> set ps \<and> is_prime ?raw then ps @ [?raw] else ps)"
      using Suc.prems(2,3) by (auto simp: prime_candidates_Suc)
    have "is_ok (expand_loop H seed (i + 1) (if ?raw \<notin> set ps \<and> is_prime ?raw then ps @ [?raw] else ps)
        (set (if ?raw \<notin> set ps \<and> is_prime ?raw then ps @ [?raw] else ps)))"
      by (rule Suc.hyps(1) [OF lt(2,3) cand])
    then show ?thesis using True lt(1) ins
      by (subst expand_loop.simps) (auto simp: NAPQES_KEY_COUNT_def Let_def split: if_splits)
  qed (subst expand_loop.simps, simp add: NAPQES_KEY_COUNT_def)
qed

lemma expand_loop_candidates:
  "expand_loop H seed i ps seen = Ok ks \<Longrightarrow> seen = set ps \<Longrightarrow> i \<le> 2 ^ 32 - 1 \<Longrightarrow>
   set ps \<subseteq> prime_candidates H seed (2 ^ 32 - 1) \<Longrightarrow> set ks \<subseteq> prime_candidates H seed (2 ^ 32 - 1)"
proof (induction H seed i ps seen rule: expand_loop.induct)
  case (1 H seed i ps seen)
  let ?raw = "seed_candidate H seed i"
  show ?case
  proof (cases "length ps < NAPQES_KEY_COUNT")
    case False
    then show ?thesis using "1.prems" by (subst (asm) expand_loop.simps) simp
  next
    case True
    then have lt: "i + 1 < 2 ^ 32"
      using "1.prems"(1) by (subst (asm) expand_loop.simps) (auto simp: Let_def split: if_splits)
    then have le: "i + 1 \<le> 2 ^ 32 - 1" by simp
    show ?thesis
    proof (cases "?raw \<notin> seen \<and> is_prime ?raw")
      case T: True
      then have "expand_loop H seed (i + 1) (ps @ [?raw]) (insert ?raw seen) = Ok ks"
        using "1.prems"(1) True lt by (subst (asm) expand_loop.simps) (simp add: Let_def)
      moreover have "?raw \<in> prime_candidates H seed (2 ^ 32 - 1)"
        using T le by (simp add: prime_candidates_def)
      ultimately show ?thesis
        using "1.IH"(1) [OF True refl lt T] le "1.prems"(2,4) by simp
    next
      case F: False
      then have "expand_loop H seed (i + 1) ps seen = Ok ks"
        using "1.prems"(1) True lt by (subst (asm) expand_loop.simps) (auto simp: Let_def)
      then show ?thesis using "1.IH"(2) [OF True refl lt F] le "1.prems"(2,4) by simp
    qed
  qed
qed

lemma expand_seed_returns_iff:
  "is_ok (expand_seed_to_primes H seed) \<longleftrightarrow> 13 \<le> card (prime_candidates H seed (2 ^ 32 - 1))"
proof
  assume "13 \<le> card (prime_candidates H seed (2 ^ 32 - 1))"
  from expand_loop_returns [OF this, of 0 "[]"] show "is_ok (expand_seed_to_primes H seed)"
    by (simp add: expand_seed_to_primes_def prime_candidates_def)
next
  assume "is_ok (expand_seed_to_primes H seed)"
  then obtain ks where ks: "expand_seed_to_primes H seed = Ok ks" by (auto simp: is_ok_iff)
  have "length ks = 13" "distinct ks" using expand_seed_valid [OF ks] by (auto simp: valid_key_def)
  moreover have "set ks \<subseteq> prime_candidates H seed (2 ^ 32 - 1)"
    using expand_loop_candidates [of H seed 0 "[]" "{}" ks] ks by (simp add: expand_seed_to_primes_def)
  ultimately show "13 \<le> card (prime_candidates H seed (2 ^ 32 - 1))"
    by (metis card_mono distinct_card finite_prime_candidates)
qed

lemma expand_loop_not_Err: "expand_loop H seed i ps seen \<noteq> Err e"
proof (induction H seed i ps seen rule: expand_loop.induct)
  case (1 H seed i ps seen)
  then show ?case by (subst expand_loop.simps) (auto simp: Let_def)
qed

section \<open>Both sides derive the same key\<close>

text \<open>
  What the code relies on: the sizes of the FrodoKEM-640-AES artefacts, that decapsulation
  recovers the encapsulated secret, and that X25519 agrees and yields 32 bytes.
\<close>

definition frodo_contract :: "kem_prims \<Rightarrow> bytes \<Rightarrow> bytes \<Rightarrow> bool" where
  "frodo_contract P rand rand' \<longleftrightarrow>
     (let (pk, sk) = frodo_keypair P rand; (ss, ct) = frodo_encapsulate P rand' pk in
      frodo_pk_ok P pk \<and> frodo_sk_ok P sk \<and> frodo_ct_ok P ct \<and>
      length pk = FRODO_PUBLIC_KEY_SIZE \<and> length sk = FRODO_SECRET_KEY_SIZE \<and>
      length ct = FRODO_CIPHERTEXT_SIZE \<and> frodo_decapsulate P ct sk = ss)"

definition x25519_contract :: "kem_prims \<Rightarrow> bytes \<Rightarrow> bytes \<Rightarrow> bool" where
  "x25519_contract P a b \<longleftrightarrow>
     length a = X25519_KEY_SIZE \<and> length (x25519_public P a) = X25519_KEY_SIZE \<and>
     length (x25519_public P b) = X25519_KEY_SIZE \<and>
     x25519_dh P a (x25519_public P b) = x25519_dh P b (x25519_public P a)"

lemma decapsulate_agrees:
  assumes "frodo_contract P rand rand'" "keygen P rand = (pk, sk)"
  shows "decapsulate H P m (snd (frodo_encapsulate P rand' pk)) sk =
     res_bind (encapsulate H P rand' m pk) (\<lambda>(ct, key). Ok key)"
    and "decapsulate_v8 H P m (snd (frodo_encapsulate P rand' pk)) sk =
     res_bind (encapsulate_v8 H P rand' m pk) (\<lambda>(ct, key). Ok key)"
  using assms
  by (auto simp: frodo_contract_def keygen_def decapsulate_def encapsulate_def decapsulate_v8_def
      encapsulate_v8_def frodo_open_def res_bind_assoc split: prod.splits)

lemma hybrid_agrees:
  assumes "frodo_contract P rand rand'" "x25519_contract P ec ec'"
    and "keygen_hybrid P rand ec = (pk, sk)"
    and "encapsulate_hybrid H P rand' ec' m pk = Ok (ct, key)"
  shows "decapsulate_hybrid H P m ct sk = Ok key" "length ct = HYBRID_CIPHERTEXT_SIZE"
  using assms
  by (auto simp: frodo_contract_def x25519_contract_def keygen_hybrid_def encapsulate_hybrid_def
      decapsulate_hybrid_def frodo_open_def Let_def split: prod.splits if_splits)

lemma hybrid_transcript_inj:
  assumes "hybrid_transcript a b c d = hybrid_transcript a' b' c' d'"
    and "\<forall>x \<in> set [a, b, c, d, a', b', c', d']. length x < 2 ^ 32"
  shows "a = a' \<and> b = b' \<and> c = c' \<and> d = d'"
proof -
  have part: "x = x' \<and> r = r'"
    if "be_bytes 4 (length x) @ x @ r = be_bytes 4 (length x') @ x' @ r'" "length x < 2 ^ 32" "length x' < 2 ^ 32"
    for x x' r r' :: bytes
  proof -
    from that(1) have "be_bytes 4 (length x) = be_bytes 4 (length x')" "x @ r = x' @ r'" by auto
    moreover from this(1) have "length x = length x'" using that(2,3) be_bytes_inj_on [of "length x" 4 "length x'"] by simp
    ultimately show ?thesis by simp
  qed
  from assms(1) have 1: "be_bytes 4 (length a) @ a @ be_bytes 4 (length b) @ b @ be_bytes 4 (length c) @ c
        @ be_bytes 4 (length d) @ d @ []
      = be_bytes 4 (length a') @ a' @ be_bytes 4 (length b') @ b' @ be_bytes 4 (length c') @ c'
        @ be_bytes 4 (length d') @ d' @ []"
    by (simp add: hybrid_transcript_def)
  from part [OF 1] assms(2) have 2: "a = a'" "be_bytes 4 (length b) @ b @ be_bytes 4 (length c) @ c
        @ be_bytes 4 (length d) @ d @ []
      = be_bytes 4 (length b') @ b' @ be_bytes 4 (length c') @ c' @ be_bytes 4 (length d') @ d' @ []" by auto
  from part [OF 2(2)] assms(2) have 3: "b = b'" "be_bytes 4 (length c) @ c @ be_bytes 4 (length d) @ d @ []
      = be_bytes 4 (length c') @ c' @ be_bytes 4 (length d') @ d' @ []" by auto
  from part [OF 3(2)] assms(2) have 4: "c = c'" "be_bytes 4 (length d) @ d @ [] = be_bytes 4 (length d') @ d' @ []"
    by auto
  from part [OF 4(2)] assms(2) 2 3 4 show ?thesis by auto
qed

section \<open>Concrete primitives\<close>

text \<open>
  A hash whose counter-mode output starts with thirteen prime candidates, and primitives of
  the documented sizes, for concrete runs.
\<close>

definition sample_tuple :: "nat list" where
  "sample_tuple = [1000003, 1000033, 1000037, 1000039, 1000081, 1000099, 1000117, 1000121, 1000133, 1000151,
     1000159, 1000171, 1000183]"

definition sample_mac :: mac where
  "sample_mac k d =
     (if be_val d < 13 then of_nat ((sample_tuple ! be_val d - 1000000) * 256 ^ 24) else 0)"

definition sample_prims :: kem_prims where
  "sample_prims =
     \<lparr>frodo_keypair = (\<lambda>r. (replicate 9616 1, replicate 19888 2)),
      frodo_pk_ok = (\<lambda>pk. length pk = 9616), frodo_sk_ok = (\<lambda>sk. length sk = 19888),
      frodo_ct_ok = (\<lambda>ct. length ct = 9720),
      frodo_encapsulate = (\<lambda>r pk. (replicate 16 3, replicate 9720 4)),
      frodo_decapsulate = (\<lambda>ct sk. replicate 16 3),
      x25519_public = (\<lambda>a. a), x25519_dh = xor_bytes, hkdf32 = (\<lambda>salt ikm info. replicate 32 5)\<rparr>"

text \<open>One evaluation of the trial division per prime.\<close>

lemma trial_1000037: "trial_division 1000037 1000 59"
  by (simp add: trial_division.simps)

lemma trial_1000039: "trial_division 1000039 1000 59"
  by (simp add: trial_division.simps)

lemma trial_1000081: "trial_division 1000081 1000 59"
  by (simp add: trial_division.simps)

lemma trial_1000099: "trial_division 1000099 1000 59"
  by (simp add: trial_division.simps)

lemma trial_1000117: "trial_division 1000117 1000 59"
  by (simp add: trial_division.simps)

lemma trial_1000121: "trial_division 1000121 1000 59"
  by (simp add: trial_division.simps)

lemma trial_1000133: "trial_division 1000133 1000 59"
  by (simp add: trial_division.simps)

lemma trial_1000151: "trial_division 1000151 1000 59"
  by (simp add: trial_division.simps)

lemma trial_1000159: "trial_division 1000159 1000 59"
  by (simp add: trial_division.simps)

lemma trial_1000171: "trial_division 1000171 1000 59"
  by (simp add: trial_division.simps)

lemma trial_1000183: "trial_division 1000183 1000 59"
  by (simp add: trial_division.simps)

lemmas sample_trials =
  trial_1000037 trial_1000039 trial_1000081 trial_1000099 trial_1000117 trial_1000121
  trial_1000133 trial_1000151 trial_1000159 trial_1000171 trial_1000183

lemma sample_tuple_prime: "list_all is_prime sample_tuple"
  by (simp add: sample_tuple_def sample_primes is_prime_near_million sample_trials SMALL_ODD_PRIMES_def)

lemma sample_candidate: "i < 13 \<Longrightarrow> seed_candidate sample_mac seed i = sample_tuple ! i"
proof -
  assume i: "i < 13"
  define v where "v = sample_tuple ! i - 1000000"
  have "sample_tuple ! i \<in> set sample_tuple" using i by (intro nth_mem) (simp add: sample_tuple_def)
  then have b: "1000000 \<le> sample_tuple ! i" "v < 1000" by (auto simp: sample_tuple_def v_def)
  have "be_val (be_bytes 4 i) = i" using i by simp
  then have "sample_mac seed (be_bytes 4 i) = of_nat (v * 256 ^ 24)" using i by (simp add: sample_mac_def v_def)
  moreover have "v * 256 ^ 24 < 2 ^ 256" using b(2) by simp
  then have "unat (of_nat (v * 256 ^ 24) :: 256 word) = v * 256 ^ 24"
    by (simp only: unat_of_nat take_bit_nat_eq_self_iff [symmetric] take_bit_eq_mod [symmetric]) simp
  ultimately have "u64_from_be8 (hmac_digest sample_mac seed (be_bytes 4 i)) = v"
    using be_val_take_be_bytes [of 8 24 "v * 256 ^ 24"] b(2) by (simp add: u64_from_be8_def hmac_digest_def)
  then show ?thesis using b by (simp add: seed_candidate_def MIN_PRIME_def MAX_PRIME_def v_def)
qed

lemma expand_sample_prefix:
  "i \<le> 13 \<Longrightarrow> expand_loop sample_mac seed i (take i sample_tuple) (set (take i sample_tuple)) = Ok sample_tuple"
proof (induction "13 - i" arbitrary: i)
  case 0
  then have "i = length sample_tuple" by (simp add: sample_tuple_def)
  then show ?case by (subst expand_loop.simps) (simp add: NAPQES_KEY_COUNT_def sample_tuple_def)
next
  case (Suc n)
  then have i: "i < 13" "n = 13 - (i + 1)" "i + 1 \<le> 13" by auto
  have len: "length sample_tuple = 13" "distinct sample_tuple" by (simp_all add: sample_tuple_def)
  have nxt: "take i sample_tuple @ [sample_tuple ! i] = take (i + 1) sample_tuple"
    using i len by (simp add: take_Suc_conv_app_nth)
  have new: "sample_tuple ! i \<notin> set (take i sample_tuple)"
    using i len by (auto simp: in_set_conv_nth nth_eq_iff_index_eq)
  have "is_prime (sample_tuple ! i)" using sample_tuple_prime i len by (simp add: list_all_length)
  moreover have "insert (sample_tuple ! i) (set (take i sample_tuple)) = set (take (i + 1) sample_tuple)"
    unfolding nxt [symmetric] by simp
  ultimately show ?case
    using Suc.hyps(1) [OF i(2,3)] i new nxt len
    by (subst expand_loop.simps) (simp add: NAPQES_KEY_COUNT_def Let_def sample_candidate)
qed

lemma expand_sample: "expand_seed_to_primes sample_mac seed = Ok sample_tuple"
  using expand_sample_prefix [of 0 seed] by (simp add: expand_seed_to_primes_def)

lemma sample_contracts: "frodo_contract sample_prims rand rand'"
  "length a = 32 \<Longrightarrow> length b = 32 \<Longrightarrow> x25519_contract sample_prims a b"
proof -
  show "frodo_contract sample_prims rand rand'" by (simp add: frodo_contract_def sample_prims_def)
  have "xor_bytes x y = xor_bytes y x" for x y
    unfolding xor_bytes_def by (induction x arbitrary: y) (auto simp: zip_Cons1 xor.commute split: list.split)
  then show "length a = 32 \<Longrightarrow> length b = 32 \<Longrightarrow> x25519_contract sample_prims a b"
    by (simp add: x25519_contract_def sample_prims_def)
qed

section \<open>Properties\<close>

text \<open>
  C32: seed expansion. When it returns, the result is a key of thirteen primes that validation
  accepts; it never returns an error, and it runs out of its 32-bit counter exactly when the
  seed has fewer than thirteen different prime candidates in the whole counter range.
\<close>

theorem seed_expansion:
  "case expand_seed_to_primes H seed of
     Ok ks \<Rightarrow> validate_key ks = Ok () \<and> length ks = 13 \<and> 13 \<le> card (prime_candidates H seed (2 ^ 32 - 1))
   | Err e \<Rightarrow> False
   | Panic \<Rightarrow> card (prime_candidates H seed (2 ^ 32 - 1)) < 13"
proof (cases "expand_seed_to_primes H seed")
  case (Ok ks)
  then show ?thesis
    using expand_seed_valid [OF Ok] expand_seed_returns_iff [of H seed] by (simp add: validate_key_Ok_iff is_ok_iff)
next
  case (Err e)
  then show ?thesis using expand_loop_not_Err by (simp add: expand_seed_to_primes_def)
next
  case Panic
  then show ?thesis using expand_seed_returns_iff [of H seed] by (simp add: is_ok_iff)
qed

text \<open>
  Both ends of the key encapsulation derive one key. Given the FrodoKEM contract, what
  \<open>encapsulate\<close> and \<open>encapsulate_v8\<close> return to the sender is what decapsulating the
  ciphertext with the matching secret key returns to the receiver, and it is a valid key.
\<close>

lemma kem_agreement:
  assumes "frodo_contract P rand rand'" "keygen P rand = (pk, sk)"
    and "encapsulate H P rand' m pk = Ok (ct, ps)" "encapsulate_v8 H P rand' m pk = Ok (ct', key)"
  shows "decapsulate H P m ct sk = Ok ps \<and> validate_key ps = Ok () \<and>
     decapsulate_v8 H P m ct' sk = Ok key \<and> key_primes key = ps"
proof -
  have ct: "ct = snd (frodo_encapsulate P rand' pk)" "ct' = snd (frodo_encapsulate P rand' pk)"
    using assms(3,4) by (auto simp: encapsulate_def encapsulate_v8_def split: if_splits prod.splits)
  have ps: "validate_key ps = Ok () \<and> key_primes key = ps"
    using assms(3,4) by (auto simp: encapsulate_def encapsulate_v8_def derive_v8_key_def NapqesKey_new_def
        derive_napqes_key_def dest!: expand_seed_valid split: if_splits prod.splits res.splits
        simp: validate_key_Ok_iff)
  show ?thesis
    using decapsulate_agrees [OF assms(1,2), of H m] assms(3,4) ps unfolding ct by simp
qed

text \<open>
  Both ends of the hybrid encapsulation derive one key. Given the FrodoKEM contract and
  the X25519 agreement, decapsulation of the hybrid ciphertext returns the sender's key, and
  the ciphertext has the documented size.
\<close>

lemma hybrid_kem_agreement:
  assumes "frodo_contract P rand rand'" "x25519_contract P ec ec'" "keygen_hybrid P rand ec = (pk, sk)"
    and "encapsulate_hybrid H P rand' ec' m pk = Ok (ct, ps)"
  shows "decapsulate_hybrid H P m ct sk = Ok ps \<and> length ct = 9752 \<and> validate_key ps = Ok ()"
proof -
  have "validate_key ps = Ok ()"
    using assms(4) by (auto simp: encapsulate_hybrid_def derive_napqes_key_hybrid_def Let_def validate_key_Ok_iff
        dest!: expand_seed_valid split: if_splits prod.splits)
  then show ?thesis using hybrid_agrees [OF assms] by simp
qed

text \<open>
  The hybrid transcript binds all four public values: two transcripts agree only when
  both public keys, the ciphertext and the ephemeral key agree, because every part carries
  its length.
\<close>

lemma hybrid_transcript_injective:
  assumes "hybrid_transcript a b c d = hybrid_transcript a' b' c' d'"
    and "list_all (\<lambda>x. length x < 2 ^ 32) [a, b, c, d, a', b', c', d']"
  shows "a = a' \<and> b = b' \<and> c = c' \<and> d = d'"
  using hybrid_transcript_inj [OF assms(1)] assms(2) by (simp add: list_all_iff)

end
