(* ===== verification/OtFrame.thy ===== *)
theory OtFrame
  imports KeyMaterial
begin

text \<open>
  The framing layer of \<open>rust/src/ot_frame.rs\<close>: envelopes around sealed protocol data
  units, sequence counters with the replay window, and the two key stores.
\<close>

section \<open>Protocol identifiers and associated data\<close>

datatype ProtocolId = ModbusTcp | Dnp3

fun proto_u8 :: "ProtocolId \<Rightarrow> byte" where
  "proto_u8 ModbusTcp = 0x01"
| "proto_u8 Dnp3 = 0x02"

definition from_u8 :: "byte \<Rightarrow> ProtocolId option" where
  "from_u8 v = (if v = 0x01 then Some ModbusTcp else if v = 0x02 then Some Dnp3 else None)"

record OtAad =
  protocol :: ProtocolId
  device_id :: u64
  seq :: u64

definition word_bytes :: "u64 \<Rightarrow> bytes" where
  "word_bytes w = be_bytes 8 (unat w)"

definition bytes_word :: "bytes \<Rightarrow> u64" where
  "bytes_word bs = of_nat (be_val bs)"

definition OtAad_to_bytes :: "OtAad \<Rightarrow> bytes" where
  "OtAad_to_bytes aad = proto_u8 (protocol aad) # word_bytes (device_id aad) @ word_bytes (seq aad)"

definition ENVELOPE_MAGIC :: bytes where "ENVELOPE_MAGIC = [0x4E, 0x51]"
definition ENVELOPE_HEADER_SIZE :: nat where [simp]: "ENVELOPE_HEADER_SIZE = 23"

datatype envelope_fault = BufferTooShort nat | BadMagic byte byte | UnknownProtocol byte | TruncatedBlob nat nat

datatype FrameError =
    FrameAuthenticationFailed u64 ProtocolId u64
  | ReplayDetected u64 ProtocolId u64 u64
  | MalformedEnvelope envelope_fault
  | CryptoError error

section \<open>Sequence counters\<close>

type_synonym DeviceKey = "ProtocolId \<times> u64"

record SequenceCounter =
  send_state :: "DeviceKey \<rightharpoonup> u64"
  recv_state :: "DeviceKey \<rightharpoonup> u64"

definition SequenceCounter_new :: SequenceCounter where
  "SequenceCounter_new = \<lparr>send_state = Map.empty, recv_state = Map.empty\<rparr>"

text \<open>\<open>*state.entry(key).or_insert(0)\<close>\<close>

definition entry_or_0 :: "(DeviceKey \<rightharpoonup> u64) \<Rightarrow> DeviceKey \<Rightarrow> u64" where
  "entry_or_0 state k = (case state k of None \<Rightarrow> 0 | Some v \<Rightarrow> v)"

text \<open>\<open>*seq += 1\<close> panics at \<open>u64::MAX\<close>.\<close>

definition next_seq :: "SequenceCounter \<Rightarrow> ProtocolId \<Rightarrow> u64 \<Rightarrow> (u64, FrameError) res \<times> SequenceCounter" where
  "next_seq c proto dev =
     (let s = entry_or_0 (send_state c) (proto, dev) in
      if s = - 1 then (Panic, c\<lparr>send_state := (send_state c)((proto, dev) \<mapsto> s)\<rparr>)
      else (Ok (s + 1), c\<lparr>send_state := (send_state c)((proto, dev) \<mapsto> s + 1)\<rparr>))"

definition validate_recv ::
    "SequenceCounter \<Rightarrow> ProtocolId \<Rightarrow> u64 \<Rightarrow> u64 \<Rightarrow> (unit, FrameError) res \<times> SequenceCounter" where
  "validate_recv c proto dev s =
     (let last_seen = entry_or_0 (recv_state c) (proto, dev) in
      if s \<le> last_seen
      then (Err (ReplayDetected dev proto s last_seen),
            c\<lparr>recv_state := (recv_state c)((proto, dev) \<mapsto> last_seen)\<rparr>)
      else (Ok (), c\<lparr>recv_state := (recv_state c)((proto, dev) \<mapsto> s)\<rparr>))"

section \<open>Envelopes\<close>

definition latin1 :: "bytes \<Rightarrow> str" where
  "latin1 pdu = map unat pdu"

definition wrap_pdu :: "mac \<Rightarrow> module_state \<Rightarrow> bytes \<Rightarrow> OtAad \<Rightarrow> NapqesKey \<Rightarrow> (bytes, FrameError) res" where
  "wrap_pdu H m pdu aad key =
     res_bind (map_err CryptoError (encrypt_bytes_v8_key H m (latin1 pdu) key (OtAad_to_bytes aad)))
       (\<lambda>blob. Ok (ENVELOPE_MAGIC @ [proto_u8 (protocol aad)] @ word_bytes (device_id aad)
                     @ word_bytes (seq aad) @ be_bytes 4 (length blob) @ blob))"

definition parse_envelope_header ::
    "bytes \<Rightarrow> (ProtocolId \<times> u64 \<times> u64 \<times> nat \<times> nat, FrameError) res" where
  "parse_envelope_header buf =
     (if length buf < ENVELOPE_HEADER_SIZE then Err (MalformedEnvelope (BufferTooShort (length buf)))
      else if take 2 buf \<noteq> ENVELOPE_MAGIC then Err (MalformedEnvelope (BadMagic (buf ! 0) (buf ! 1)))
      else case from_u8 (buf ! 2) of
        None \<Rightarrow> Err (MalformedEnvelope (UnknownProtocol (buf ! 2)))
      | Some proto \<Rightarrow>
          let dev = bytes_word (take 8 (drop 3 buf));
              s = bytes_word (take 8 (drop 11 buf));
              blob_len = be_val (take 4 (drop 19 buf))
          in if length buf < ENVELOPE_HEADER_SIZE + blob_len
             then Err (MalformedEnvelope (TruncatedBlob (length buf - ENVELOPE_HEADER_SIZE) blob_len))
             else Ok (proto, dev, s, ENVELOPE_HEADER_SIZE, blob_len))"

text \<open>\<open>u8::try_from(c as u32)\<close> on every character.\<close>

definition bytes_of_latin1 :: "FrameError \<Rightarrow> str \<Rightarrow> (bytes, FrameError) res" where
  "bytes_of_latin1 e s = collect_res (\<lambda>c. if c < 256 then Ok (of_nat c) else Err e) s"

text \<open>The cryptographic half of \<open>unwrap_pdu\<close>: header and authenticated payload.\<close>

definition open_envelope ::
    "mac \<Rightarrow> module_state \<Rightarrow> bytes \<Rightarrow> NapqesKey \<Rightarrow> (OtAad \<times> bytes, FrameError) res" where
  "open_envelope H m buf key =
     res_bind (parse_envelope_header buf) (\<lambda>(proto, dev, s, blob_start, blob_len).
       let blob = take blob_len (drop blob_start buf);
           aad = \<lparr>protocol = proto, device_id = dev, seq = s\<rparr>;
           auth_failed = FrameAuthenticationFailed dev proto s
       in res_bind (map_err (\<lambda>_. auth_failed) (decrypt_bytes_v8_key H m blob key (OtAad_to_bytes aad)))
            (\<lambda>text_cps. res_bind (bytes_of_latin1 auth_failed text_cps) (\<lambda>pdu. Ok (aad, pdu))))"

definition unwrap_pdu ::
    "mac \<Rightarrow> module_state \<Rightarrow> bytes \<Rightarrow> NapqesKey \<Rightarrow> SequenceCounter \<Rightarrow> (bytes, FrameError) res \<times> SequenceCounter" where
  "unwrap_pdu H m buf key c =
     (case open_envelope H m buf key of
        Ok (aad, pdu) \<Rightarrow>
          (case validate_recv c (protocol aad) (device_id aad) (seq aad) of
             (r, c') \<Rightarrow> (res_bind r (\<lambda>_. Ok pdu), c'))
      | Err e \<Rightarrow> (Err e, c)
      | Panic \<Rightarrow> (Panic, c))"

section \<open>Key stores\<close>

datatype store_error =
    NoKey u64 | NoSessionKey u64 | BadDeviceId str | SkHexLength | SkHexDigit | StoreKey u64 error

text \<open>\<open>u8::from_str_radix\<close> and \<open>u64::from_str\<close>: one optional plus sign, then digits.\<close>

definition digit_val :: "nat \<Rightarrow> nat \<Rightarrow> nat option" where
  "digit_val radix c =
     (let v = (if 48 \<le> c \<and> c \<le> 57 then c - 48
               else if 97 \<le> c \<and> c \<le> 122 then c - 87
               else if 65 \<le> c \<and> c \<le> 90 then c - 55 else radix)
      in if v < radix then Some v else None)"

fun parse_digits :: "nat \<Rightarrow> nat \<Rightarrow> nat \<Rightarrow> str \<Rightarrow> nat option" where
  "parse_digits radix limit acc [] = Some acc"
| "parse_digits radix limit acc (c # cs) =
     (case digit_val radix c of
        None \<Rightarrow> None
      | Some v \<Rightarrow> let acc' = acc * radix + v in
          if acc' < limit then parse_digits radix limit acc' cs else None)"

definition from_str_radix :: "nat \<Rightarrow> nat \<Rightarrow> str \<Rightarrow> nat option" where
  "from_str_radix radix limit s =
     (case s of
        [] \<Rightarrow> None
      | c # cs \<Rightarrow> if c = 43 then (if cs = [] then None else parse_digits radix limit 0 cs)
                  else parse_digits radix limit 0 s)"

text \<open>For ASCII text the byte length of a string is its character count.\<close>

definition parse_sk_hex :: "str \<Rightarrow> (bytes, store_error) res" where
  "parse_sk_hex hex =
     (if length (utf8_bytes hex) \<noteq> 2 * 32 \<or> \<not> list_all (\<lambda>c. c < 128) hex then Err SkHexLength
      else collect_res (\<lambda>i. case from_str_radix 16 256 (take 2 (drop (2 * i) hex)) of
                               Some v \<Rightarrow> Ok (of_nat v) | None \<Rightarrow> Err SkHexDigit) [0..<32])"

record FileKeyEntry =
  entry_primes :: "nat list"
  entry_sk_hex :: str

type_synonym key_map = "u64 \<rightharpoonup> NapqesKey"

text \<open>
  The loop over the parsed JSON object; \<open>serde_json\<close> yields the entries, in the order the
  hash map iterates over them.
\<close>

fun FileKeyStore_load_entries :: "(str \<times> FileKeyEntry) list \<Rightarrow> key_map \<Rightarrow> (key_map, store_error) res" where
  "FileKeyStore_load_entries [] data = Ok data"
| "FileKeyStore_load_entries ((k, v) # raw) data =
     (case from_str_radix 10 u64_limit k of
        None \<Rightarrow> Err (BadDeviceId k)
      | Some n \<Rightarrow>
          let dev = of_nat n in
          res_bind (parse_sk_hex (entry_sk_hex v)) (\<lambda>s.
          res_bind (map_err (StoreKey dev) (NapqesKey_new (entry_primes v) s)) (\<lambda>key.
            FileKeyStore_load_entries raw (data(dev \<mapsto> key)))))"

definition FileKeyStore_load :: "key_map \<Rightarrow> u64 \<Rightarrow> (NapqesKey, store_error) res" where
  "FileKeyStore_load data dev = (case data dev of Some key \<Rightarrow> Ok key | None \<Rightarrow> Err (NoKey dev))"

definition WILDCARD_DEVICE_ID :: u64 where "WILDCARD_DEVICE_ID = - 1"

definition SessionKeyStore_new :: key_map where
  "SessionKeyStore_new = Map.empty"

definition SessionKeyStore_insert :: "key_map \<Rightarrow> u64 \<Rightarrow> NapqesKey \<Rightarrow> key_map" where
  "SessionKeyStore_insert inner dev key = inner(dev \<mapsto> key)"

text \<open>
  \<open>!inner.is_empty()\<close>: the domain of the map is not empty.
\<close>

definition SessionKeyStore_is_ready :: "key_map \<Rightarrow> bool" where
  "SessionKeyStore_is_ready inner \<longleftrightarrow> inner \<noteq> Map.empty"

definition SessionKeyStore_load :: "key_map \<Rightarrow> u64 \<Rightarrow> (NapqesKey, store_error) res" where
  "SessionKeyStore_load inner dev =
     (case inner dev of
        Some key \<Rightarrow> Ok key
      | None \<Rightarrow> (case inner WILDCARD_DEVICE_ID of Some key \<Rightarrow> Ok key | None \<Rightarrow> Err (NoSessionKey dev)))"

section \<open>Byte messages over an authenticated cipher\<close>

locale byte_channel = aead +
  assumes carries_bytes: "length pdu \<le> MAX_PLAINTEXT_CODEPOINTS \<Longrightarrow> message (latin1 pdu)"
begin

lemma bytes_round_trip:
  assumes "usable k" "length pdu \<le> MAX_PLAINTEXT_CODEPOINTS"
  shows "\<exists>ct. enc k (latin1 pdu) aad = Ok ct \<and> dec k ct aad = Ok (latin1 pdu)"
  using seals [OF assms(1) carries_bytes [OF assms(2)]] .

lemma bytes_injective:
  assumes "usable k" "length pdu \<le> MAX_PLAINTEXT_CODEPOINTS" "length pdu' \<le> MAX_PLAINTEXT_CODEPOINTS"
    and "enc k (latin1 pdu) aad = enc k (latin1 pdu') aad"
  shows "pdu = pdu'"
proof -
  have "latin1 pdu = latin1 pdu'"
    using assms enc_injective carries_bytes by blast
  moreover have "inj (unat :: byte \<Rightarrow> nat)" by (auto intro: injI)
  ultimately show ?thesis by (simp add: latin1_def inj_map_eq_map)
qed

end

lemma byte_scalar: "is_scalar (unat (b :: byte))"
  unfolding is_scalar_def using unat_byte_less [of b] by linarith

lemma latin1_text: "length pdu \<le> MAX_PLAINTEXT_CODEPOINTS \<Longrightarrow> text_message (latin1 pdu)"
  by (auto simp: text_message_def latin1_def byte_scalar)

interpretation frame_channel: byte_channel
  "\<lambda>(H, m, key) s aad. encrypt_bytes_v8_key H m s key aad"
  "\<lambda>(H, m, key) ct aad. decrypt_bytes_v8_key H m ct key aad"
  "\<lambda>(H, m, key). operational m \<and> usable_key key"
  text_message
  by unfold_locales (rule latin1_text)

lemma bytes_of_latin1_latin1: "bytes_of_latin1 e (latin1 pdu) = Ok pdu"
proof -
  have "collect_res (\<lambda>c. if c < 256 then Ok (of_nat c) else Err e) (map unat pdu)
      = Ok (map (of_nat :: nat \<Rightarrow> byte) (map unat pdu))"
    by (rule collect_res_all_Ok) auto
  then show ?thesis by (simp add: bytes_of_latin1_def latin1_def comp_def)
qed

section \<open>Header codec\<close>

lemma length_word_bytes [simp]: "length (word_bytes w) = 8"
  by (simp add: word_bytes_def)

lemma bytes_word_bytes [simp]: "bytes_word (word_bytes w) = w"
proof -
  have "unat w < 2 ^ 64" using unsigned_less [of w, where 'a = nat] by simp
  then show ?thesis by (simp add: bytes_word_def word_bytes_def)
qed

lemma word_bytes_inj [simp]: "word_bytes v = word_bytes w \<longleftrightarrow> v = w"
  by (metis bytes_word_bytes)

lemma proto_u8_inj [simp]: "proto_u8 p = proto_u8 q \<longleftrightarrow> p = q"
  by (cases p; cases q) auto

lemma from_u8_proto_u8 [simp]: "from_u8 (proto_u8 p) = Some p"
  by (cases p) (auto simp: from_u8_def)

lemma OtAad_to_bytes_inj: "OtAad_to_bytes a = OtAad_to_bytes b \<longleftrightarrow> a = b"
  by (auto simp: OtAad_to_bytes_def)

lemma length_ENVELOPE_MAGIC [simp]: "length ENVELOPE_MAGIC = 2"
  by (simp add: ENVELOPE_MAGIC_def)

lemma parse_envelope_header_Ok:
  assumes "buf = ENVELOPE_MAGIC @ [proto_u8 p] @ word_bytes d @ word_bytes s @ be_bytes 4 (length blob) @ blob @ rest"
    and "length blob < 2 ^ 32"
  shows "parse_envelope_header buf = Ok (p, d, s, 23, length blob)"
    and "take (length blob) (drop 23 buf) = blob"
proof -
  have "drop 3 buf = word_bytes d @ word_bytes s @ be_bytes 4 (length blob) @ blob @ rest"
    "drop 11 buf = word_bytes s @ be_bytes 4 (length blob) @ blob @ rest"
    "drop 19 buf = be_bytes 4 (length blob) @ blob @ rest"
    "drop 23 buf = blob @ rest" "take 2 buf = ENVELOPE_MAGIC" "buf ! 2 = proto_u8 p"
    "length buf = 23 + length blob + length rest"
    using assms(1) by (simp_all add: ENVELOPE_MAGIC_def)
  then show "parse_envelope_header buf = Ok (p, d, s, 23, length blob)"
    "take (length blob) (drop 23 buf) = blob"
    using assms(2) by (simp_all add: parse_envelope_header_def Let_def)
qed

section \<open>Sealing and opening\<close>

lemma bucket_block_size_le: "n < 2 ^ 16 \<Longrightarrow> bucket_block_size n \<le> 65536"
  using reachable_block_cases bucket_block_size_reachable by blast

lemma blob_length:
  assumes "operational m" "usable_key key" "length pdu \<le> MAX_PLAINTEXT_CODEPOINTS"
    and "encrypt_bytes_v8_key H m (latin1 pdu) key aad = Ok ct"
  shows "length ct \<le> 48 + 160 * 65538"
proof -
  let ?s = "latin1 pdu"
  have t: "text_message ?s" by (rule latin1_text [OF assms(3)])
  have "safe_key (key_primes key)" using assms(2) by (simp add: usable_key_def valid_key_safe)
  moreover have "\<forall>c \<in> set ?s. is_scalar c" "length ?s < 2 ^ 16" using t by (auto simp: text_message_def)
  ultimately obtain ct' where ct': "encrypt_bytes_v8_core H ?s (key_primes key) (key_sk key) aad Bucket = Ok ct'"
      "length ct' = 48 + 160 * (bucket_block_size (length ?s) + 2)"
    using block_round_trip_core [OF _ _ _ text_message_block [OF t]] by metis
  have "ct' = ct" using assms(1,4) ct'(1) by (simp add: operational_def encrypt_bytes_v8_key_def)
  with ct'(2) bucket_block_size_le [OF \<open>length ?s < 2 ^ 16\<close>] show ?thesis by simp
qed

lemma open_wrapped:
  assumes "operational m" "usable_key key" "length pdu \<le> MAX_PLAINTEXT_CODEPOINTS"
  shows "\<exists>env. wrap_pdu H m pdu aad key = Ok env \<and> open_envelope H m env key = Ok (aad, pdu)"
proof -
  obtain ct where ct: "encrypt_bytes_v8_key H m (latin1 pdu) key (OtAad_to_bytes aad) = Ok ct"
      "decrypt_bytes_v8_key H m ct key (OtAad_to_bytes aad) = Ok (latin1 pdu)"
    using frame_channel.bytes_round_trip [of "(H, m, key)" pdu "OtAad_to_bytes aad"] assms by auto
  define env where "env = ENVELOPE_MAGIC @ [proto_u8 (protocol aad)] @ word_bytes (device_id aad)
      @ word_bytes (seq aad) @ be_bytes 4 (length ct) @ ct"
  have hdr: "parse_envelope_header env = Ok (protocol aad, device_id aad, seq aad, 23, length ct)"
    "take (length ct) (drop 23 env) = ct"
    using parse_envelope_header_Ok [of env "protocol aad" "device_id aad" "seq aad" ct "[]"]
      blob_length [OF assms ct(1)] by (simp_all add: env_def)
  have "wrap_pdu H m pdu aad key = Ok env" by (simp add: wrap_pdu_def ct(1) env_def)
  moreover have bytes: "OtAad_to_bytes \<lparr>protocol = protocol aad, device_id = device_id aad, seq = seq aad\<rparr>
      = OtAad_to_bytes aad" by (simp add: OtAad_to_bytes_def)
  have "open_envelope H m env key = Ok (aad, pdu)"
    by (simp add: bytes open_envelope_def hdr ct(2) bytes_of_latin1_latin1 Let_def)
  ultimately show ?thesis by blast
qed

lemma wrapped_shape:
  assumes "operational m" "usable_key key" "length pdu \<le> MAX_PLAINTEXT_CODEPOINTS"
    and "wrap_pdu H m pdu aad key = Ok env"
  obtains blob where "env = ENVELOPE_MAGIC @ [proto_u8 (protocol aad)] @ word_bytes (device_id aad)
      @ word_bytes (seq aad) @ be_bytes 4 (length blob) @ blob" "length blob \<le> 48 + 160 * 65538"
    "open_envelope H m env key = Ok (aad, pdu)"
proof -
  have "open_envelope H m env key = Ok (aad, pdu)"
    using open_wrapped [OF assms(1-3), of H aad] assms(4) by auto
  moreover from assms(4) obtain blob where
    "encrypt_bytes_v8_key H m (latin1 pdu) key (OtAad_to_bytes aad) = Ok blob"
    "env = ENVELOPE_MAGIC @ [proto_u8 (protocol aad)] @ word_bytes (device_id aad)
      @ word_bytes (seq aad) @ be_bytes 4 (length blob) @ blob" by (auto simp: wrap_pdu_def)
  ultimately show thesis using that blob_length [OF assms(1-3)] by blast
qed

section \<open>Replay window\<close>

text \<open>The last accepted sequence number of a device, 0 before the first.\<close>

definition last_seen :: "SequenceCounter \<Rightarrow> DeviceKey \<Rightarrow> u64" where
  "last_seen c k = entry_or_0 (recv_state c) k"

lemma validate_recv_last_seen:
  assumes "validate_recv c p d s = (r, c')"
  shows "last_seen c' k = (if r = Ok () \<and> k = (p, d) then s else last_seen c k)"
    and "r = Ok () \<longleftrightarrow> last_seen c (p, d) < s"
  using assms
  by (auto simp: validate_recv_def last_seen_def entry_or_0_def Let_def not_le split: if_splits option.splits)

lemma unwrap_pdu_cases:
  obtains (refused) e where "open_envelope H m buf key = Err e" "unwrap_pdu H m buf key c = (Err e, c)"
    | (panics) "open_envelope H m buf key = Panic" "unwrap_pdu H m buf key c = (Panic, c)"
    | (opened) aad pdu r c' where "open_envelope H m buf key = Ok (aad, pdu)"
      "validate_recv c (protocol aad) (device_id aad) (seq aad) = (r, c')"
      "unwrap_pdu H m buf key c = (res_bind r (\<lambda>_. Ok pdu), c')"
proof (cases "open_envelope H m buf key")
  case (Ok x)
  obtain aad pdu where x: "x = (aad, pdu)" by (cases x)
  obtain r c' where "validate_recv c (protocol aad) (device_id aad) (seq aad) = (r, c')"
    by (cases "validate_recv c (protocol aad) (device_id aad) (seq aad)")
  with Ok x opened [of aad pdu r c'] show thesis by (simp add: unwrap_pdu_def)
qed (use refused panics in \<open>auto simp: unwrap_pdu_def\<close>)

text \<open>A receiver that processes a list of received buffers, each with its device's key.\<close>

fun receive_all :: "mac \<Rightarrow> module_state \<Rightarrow> (bytes \<times> NapqesKey) list \<Rightarrow> SequenceCounter \<Rightarrow> OtAad list" where
  "receive_all H m [] c = []"
| "receive_all H m ((buf, key) # rest) c =
     (case unwrap_pdu H m buf key c of
        (Ok pdu, c') \<Rightarrow> (case open_envelope H m buf key of Ok (aad, _) \<Rightarrow> aad # receive_all H m rest c'
                          | _ \<Rightarrow> receive_all H m rest c')
      | (_, c') \<Rightarrow> receive_all H m rest c')"

lemma receive_all_fresh:
  "\<forall>aad \<in> set (receive_all H m bufs c). last_seen c (protocol aad, device_id aad) < seq aad"
  "distinct (receive_all H m bufs c)"
proof (induction bufs arbitrary: c)
  case (Cons bk bufs)
  obtain buf key where bk: "bk = (buf, key)" by (cases bk)
  {
    case 1
    show ?case
    proof (cases rule: unwrap_pdu_cases [of H m buf key c])
      case (opened aad pdu r c')
      note v = validate_recv_last_seen [OF opened(2)]
      show ?thesis
      proof (cases "r = Ok ()")
        case True
        then have mono: "last_seen c k \<le> last_seen c' k" for k
          using v by (cases k) (auto simp: less_imp_le)
        then show ?thesis using Cons.IH(1) [of c'] opened True v bk by (fastforce intro: le_less_trans)
      next
        case False
        then have "receive_all H m (bk # bufs) c = receive_all H m bufs c'"
          using opened bk by (cases r) auto
        then show ?thesis using Cons.IH(1) [of c'] v(1) False by auto
      qed
    qed (use Cons.IH(1) [of c] bk in auto)
  next
    case 2
    show ?case
    proof (cases rule: unwrap_pdu_cases [of H m buf key c])
      case (opened aad pdu r c')
      note v = validate_recv_last_seen [OF opened(2)]
      show ?thesis
      proof (cases "r = Ok ()")
        case True
        then have "aad \<notin> set (receive_all H m bufs c')" using Cons.IH(1) [of c'] v(1) by fastforce
        then show ?thesis using Cons.IH(2) [of c'] opened True bk by auto
      next
        case False
        then show ?thesis using opened bk Cons.IH(2) [of c'] by (cases r) auto
      qed
    qed (use Cons.IH(2) [of c] bk in auto)
  }
qed simp_all

section \<open>Contract of a key store\<close>

definition keys_usable :: "key_map \<Rightarrow> bool" where
  "keys_usable data \<longleftrightarrow> (\<forall>key \<in> ran data. usable_key key)"

locale key_store =
  fixes load :: "'s \<Rightarrow> u64 \<Rightarrow> (NapqesKey, store_error) res"
    and good :: "'s \<Rightarrow> bool"
  assumes load_usable: "good s \<Longrightarrow> load s d = Ok key \<Longrightarrow> usable_key key"
    and load_total: "load s d \<noteq> Panic"
begin

lemma loaded_key_carries:
  assumes "good s" "load s (device_id aad) = Ok key" "operational m" "length pdu \<le> MAX_PLAINTEXT_CODEPOINTS"
  shows "\<exists>env. wrap_pdu H m pdu aad key = Ok env \<and> open_envelope H m env key = Ok (aad, pdu)"
  using open_wrapped [OF assms(3) load_usable [OF assms(1,2)] assms(4)] .

end

locale rekeyed_store = key_store +
  fixes install :: "'s \<Rightarrow> u64 \<Rightarrow> NapqesKey \<Rightarrow> 's"
  assumes install_good: "good s \<Longrightarrow> usable_key key \<Longrightarrow> good (install s d key)"
    and load_install: "load (install s d key) d = Ok key"
    and load_other: "e \<noteq> d \<Longrightarrow> d \<noteq> WILDCARD_DEVICE_ID \<Longrightarrow> load (install s d key) e = load s e"
begin

lemma rekey_takes_effect:
  assumes "good s" "usable_key key" "operational m" "length pdu \<le> MAX_PLAINTEXT_CODEPOINTS"
  shows "\<exists>env. wrap_pdu H m pdu aad key = Ok env \<and>
    (\<exists>loaded. load (install s (device_id aad) key) (device_id aad) = Ok loaded
       \<and> open_envelope H m env loaded = Ok (aad, pdu))"
  using loaded_key_carries [OF install_good [OF assms(1,2)] load_install assms(3,4), of H] load_install
  by blast

end

interpretation file_store: key_store FileKeyStore_load keys_usable
  by unfold_locales (auto simp: FileKeyStore_load_def keys_usable_def ranI split: option.splits)

interpretation session_store: rekeyed_store SessionKeyStore_load keys_usable SessionKeyStore_insert
proof unfold_locales
  fix s d key
  show "keys_usable s \<Longrightarrow> SessionKeyStore_load s d = Ok key \<Longrightarrow> usable_key key"
    by (auto simp: SessionKeyStore_load_def keys_usable_def ranI split: option.splits)
  show "SessionKeyStore_load s d \<noteq> Panic"
    by (auto simp: SessionKeyStore_load_def split: option.splits)
  show "keys_usable s \<Longrightarrow> usable_key key \<Longrightarrow> keys_usable (SessionKeyStore_insert s d key)"
    by (auto simp: SessionKeyStore_insert_def keys_usable_def ran_def split: if_splits)
  show "SessionKeyStore_load (SessionKeyStore_insert s d key) d = Ok key"
    by (simp add: SessionKeyStore_load_def SessionKeyStore_insert_def)
next
  fix s :: key_map and d e :: u64 and key
  show "e \<noteq> d \<Longrightarrow> d \<noteq> WILDCARD_DEVICE_ID \<Longrightarrow>
      SessionKeyStore_load (SessionKeyStore_insert s d key) e = SessionKeyStore_load s e"
    by (auto simp: SessionKeyStore_load_def SessionKeyStore_insert_def split: option.split)
qed

lemma load_entries_usable:
  "FileKeyStore_load_entries raw data = Ok data' \<Longrightarrow> keys_usable data \<Longrightarrow> keys_usable data'"
proof (induction raw data rule: FileKeyStore_load_entries.induct)
  case (2 k v raw data)
  from "2.prems"(1) obtain n s key where n: "from_str_radix 10 u64_limit k = Some n"
      and s: "parse_sk_hex (entry_sk_hex v) = Ok s"
      and key: "NapqesKey_new (entry_primes v) s = Ok key"
      and rec: "FileKeyStore_load_entries raw (data(of_nat n \<mapsto> key)) = Ok data'"
    by (auto simp: Let_def split: option.splits)
  have "usable_key key" using NapqesKey_new_Ok [OF key] by simp
  then have "keys_usable (data(of_nat n \<mapsto> key))"
    using "2.prems"(2) by (auto simp: keys_usable_def ran_def split: if_splits)
  with "2.IH" [OF n refl rec] show ?case .
qed simp

section \<open>In-order delivery\<close>

text \<open>A sender that wraps a list of data units for one device, and the receiver of the envelopes.\<close>

fun send_all ::
    "mac \<Rightarrow> module_state \<Rightarrow> NapqesKey \<Rightarrow> ProtocolId \<Rightarrow> u64 \<Rightarrow> bytes list \<Rightarrow> SequenceCounter
       \<Rightarrow> (bytes list, FrameError) res" where
  "send_all H m key p d [] c = Ok []"
| "send_all H m key p d (pdu # pdus) c =
     (case next_seq c p d of (r, c') \<Rightarrow>
        res_bind r (\<lambda>s.
        res_bind (wrap_pdu H m pdu \<lparr>protocol = p, device_id = d, seq = s\<rparr> key) (\<lambda>env.
        res_bind (send_all H m key p d pdus c') (\<lambda>envs. Ok (env # envs)))))"

fun unwrap_all ::
    "mac \<Rightarrow> module_state \<Rightarrow> NapqesKey \<Rightarrow> bytes list \<Rightarrow> SequenceCounter \<Rightarrow> (bytes list, FrameError) res" where
  "unwrap_all H m key [] c = Ok []"
| "unwrap_all H m key (env # envs) c =
     (case unwrap_pdu H m env key c of (r, c') \<Rightarrow>
        res_bind r (\<lambda>pdu. res_bind (unwrap_all H m key envs c') (\<lambda>pdus. Ok (pdu # pdus))))"

lemma unwrap_opened:
  assumes "open_envelope H m env key = Ok (aad, pdu)" "last_seen c (protocol aad, device_id aad) < seq aad"
  obtains c' where "unwrap_pdu H m env key c = (Ok pdu, c')"
    "last_seen c' (protocol aad, device_id aad) = seq aad"
proof -
  obtain r c' where v: "validate_recv c (protocol aad) (device_id aad) (seq aad) = (r, c')"
    by (metis prod.exhaust)
  note l = validate_recv_last_seen [OF v]
  then have "r = Ok ()" using assms(2) by simp
  then show thesis using that [of c'] v l(1) assms(1) by (simp add: unwrap_pdu_def)
qed

lemma deliver_all:
  assumes "operational m" "usable_key key"
  shows "\<forall>pdu \<in> set pdus. length pdu \<le> MAX_PLAINTEXT_CODEPOINTS \<Longrightarrow>
    unat (entry_or_0 (send_state c) (p, d)) + length pdus < 2 ^ 64 \<Longrightarrow>
    last_seen r (p, d) \<le> entry_or_0 (send_state c) (p, d) \<Longrightarrow>
    \<exists>envs. send_all H m key p d pdus c = Ok envs \<and> unwrap_all H m key envs r = Ok pdus"
proof (induction pdus arbitrary: c r)
  case (Cons pdu pdus)
  let ?e = "entry_or_0 (send_state c) (p, d)"
  let ?c' = "c\<lparr>send_state := (send_state c)((p, d) \<mapsto> ?e + 1)\<rparr>"
  let ?aad = "\<lparr>protocol = p, device_id = d, seq = ?e + 1\<rparr>"
  have "unat ?e + 1 < 2 ^ 64" using Cons.prems(2) unfolding list.size(4) by linarith
  then have u: "unat (?e + 1) = unat ?e + 1" by (subst unat_add_lem [THEN iffD1]) simp_all
  then have lt: "?e < ?e + 1" by (simp add: word_less_nat_alt)
  then have "?e \<noteq> - 1" by auto
  then have nx: "next_seq c p d = (Ok (?e + 1), ?c')" by (simp add: next_seq_def Let_def)
  obtain env where env: "wrap_pdu H m pdu ?aad key = Ok env" "open_envelope H m env key = Ok (?aad, pdu)"
    using open_wrapped [OF assms, of pdu H ?aad] Cons.prems(1) by auto
  have "last_seen r (protocol ?aad, device_id ?aad) < seq ?aad"
    using Cons.prems(3) lt by (simp add: le_less_trans)
  then obtain r' where r': "unwrap_pdu H m env key r = (Ok pdu, r')" "last_seen r' (p, d) = ?e + 1"
    by (rule unwrap_opened [OF env(2)]) simp
  have e': "entry_or_0 (send_state ?c') (p, d) = ?e + 1" by (simp add: entry_or_0_def)
  have "\<forall>pdu \<in> set pdus. length pdu \<le> MAX_PLAINTEXT_CODEPOINTS" using Cons.prems(1) by simp
  moreover have "unat (entry_or_0 (send_state ?c') (p, d)) + length pdus < 2 ^ 64"
    unfolding e' u using Cons.prems(2) by simp
  moreover have "last_seen r' (p, d) \<le> entry_or_0 (send_state ?c') (p, d)" unfolding e' r'(2) by simp
  ultimately obtain envs where
    "send_all H m key p d pdus ?c' = Ok envs" "unwrap_all H m key envs r' = Ok pdus"
    using Cons.IH by blast
  with nx env(1) r'(1) show ?case by (intro exI [of _ "env # envs"]) simp
qed simp

section \<open>Properties\<close>

lemma sample_napqes_key: "NapqesKey_new sample_key [] = Ok \<lparr>key_primes = sample_key, key_sk = []\<rparr>"
  by (simp add: NapqesKey_new_def validate_sample_key)

text \<open>
  C4: frame round trip and replay. A data unit wrapped with a sequence number beyond the
  receiver's window is unwrapped to the same bytes, the window moves to that number, and the
  same envelope presented again is answered with the replay error.
\<close>

theorem frame_round_trip_and_replay:
  assumes "fips_check m = Ok ()" "NapqesKey_new ps sk = Ok key" "length pdu \<le> 0xFFFF"
    and "last_seen c (protocol aad, device_id aad) < seq aad"
  shows "\<exists>env c'. wrap_pdu H m pdu aad key = Ok env \<and> unwrap_pdu H m env key c = (Ok pdu, c') \<and>
     last_seen c' (protocol aad, device_id aad) = seq aad \<and>
     fst (unwrap_pdu H m env key c') = Err (ReplayDetected (device_id aad) (protocol aad) (seq aad) (seq aad))"
proof -
  obtain env where env: "wrap_pdu H m pdu aad key = Ok env" "open_envelope H m env key = Ok (aad, pdu)"
    using open_wrapped [of m key pdu H aad] assms(1,3) NapqesKey_new_Ok [OF assms(2)] by (auto simp: operational_def)
  obtain c' where c': "unwrap_pdu H m env key c = (Ok pdu, c')"
      "last_seen c' (protocol aad, device_id aad) = seq aad"
    by (rule unwrap_opened [OF env(2) assms(4)])
  have "fst (unwrap_pdu H m env key c') = Err (ReplayDetected (device_id aad) (protocol aad) (seq aad) (seq aad))"
    using c'(2) by (simp add: unwrap_pdu_def env(2) validate_recv_def Let_def last_seen_def)
  with env(1) c' show ?thesis by blast
qed

theorem frame_round_trip_and_replay_witness:
  "\<exists>env c'. wrap_pdu (\<lambda>_ _. 0) open_module [0xFF, 0x00] \<lparr>protocol = ModbusTcp, device_id = 3, seq = 1\<rparr>
       \<lparr>key_primes = sample_key, key_sk = []\<rparr> = Ok env \<and>
     unwrap_pdu (\<lambda>_ _. 0) open_module env \<lparr>key_primes = sample_key, key_sk = []\<rparr> SequenceCounter_new
       = (Ok [0xFF, 0x00], c') \<and>
     fst (unwrap_pdu (\<lambda>_ _. 0) open_module env \<lparr>key_primes = sample_key, key_sk = []\<rparr> c')
       = Err (ReplayDetected 3 ModbusTcp 1 1)"
  using frame_round_trip_and_replay [OF fips_check_open_module sample_napqes_key, of "[0xFF, 0x00]" SequenceCounter_new
      "\<lparr>protocol = ModbusTcp, device_id = 3, seq = 1\<rparr>" "\<lambda>_ _. 0"]
  by (auto simp: last_seen_def entry_or_0_def SequenceCounter_new_def)

text \<open>
  C11: only an authenticated frame moves the replay window. If unwrapping returns a data unit,
  the envelope opened under the key with a sequence number beyond the window, and exactly the
  window of its protocol and device is set to that number; in every other case (malformed,
  forged, replayed) no window changes. The sender's counters never change.
\<close>

theorem replay_window_update:
  "case unwrap_pdu H m buf key c of (r, c') \<Rightarrow>
     send_state c' = send_state c \<and>
     (case r of
        Ok pdu \<Rightarrow> \<exists>aad. open_envelope H m buf key = Ok (aad, pdu) \<and>
                   last_seen c (protocol aad, device_id aad) < seq aad \<and>
                   last_seen c' = (last_seen c)((protocol aad, device_id aad) := seq aad)
      | _ \<Rightarrow> last_seen c' = last_seen c)"
proof (cases rule: unwrap_pdu_cases [of H m buf key c])
  case (opened aad pdu r c')
  have "send_state c' = send_state c"
    using opened(2) by (auto simp: validate_recv_def Let_def split: if_splits)
  moreover note v = validate_recv_last_seen [OF opened(2)]
  moreover have "last_seen c' = (last_seen c)((protocol aad, device_id aad) := seq aad)" if "r = Ok ()"
    using v(1) that by auto
  moreover have "last_seen c' = last_seen c" if "r \<noteq> Ok ()" using v(1) that by auto
  ultimately show ?thesis using opened by (cases r) auto
qed auto

text \<open>
  No sequence number is accepted twice. Over any sequence of received buffers, whatever
  keys they are unwrapped with, the accepted headers are pairwise different and each lies
  beyond the window the receiver started with.
\<close>

lemma no_frame_accepted_twice:
  "distinct (receive_all H m bufs c) \<and>
   list_all (\<lambda>aad. last_seen c (protocol aad, device_id aad) < seq aad) (receive_all H m bufs c)"
  using receive_all_fresh [of H m bufs c] by (simp add: list_all_iff)

text \<open>
  C21: in-order delivery. A receiver whose window is not ahead of the sender's counter accepts
  every envelope of a sender in the order they were sent and recovers the data units, as long
  as the counter does not reach the end of its range.
\<close>

theorem in_order_delivery:
  assumes "fips_check m = Ok ()" "NapqesKey_new ps sk = Ok key"
    and "list_all (\<lambda>pdu. length pdu \<le> 0xFFFF) pdus"
    and "unat (entry_or_0 (send_state c) (p, d)) + length pdus < 2 ^ 64"
    and "last_seen r (p, d) \<le> entry_or_0 (send_state c) (p, d)"
  shows "\<exists>envs. send_all H m key p d pdus c = Ok envs \<and> unwrap_all H m key envs r = Ok pdus"
proof -
  have "\<forall>pdu \<in> set pdus. length pdu \<le> MAX_PLAINTEXT_CODEPOINTS" using assms(3) by (simp add: list_all_iff)
  with deliver_all [of m key pdus c p d r H] assms NapqesKey_new_Ok [OF assms(2)] show ?thesis
    by (simp add: operational_def)
qed

theorem in_order_delivery_witness:
  "\<exists>envs. send_all (\<lambda>_ _. 0) open_module \<lparr>key_primes = sample_key, key_sk = []\<rparr> Dnp3 7 [[1], [2, 3]] SequenceCounter_new
       = Ok envs \<and>
     unwrap_all (\<lambda>_ _. 0) open_module \<lparr>key_primes = sample_key, key_sk = []\<rparr> envs SequenceCounter_new
       = Ok [[1], [2, 3]]"
  by (rule in_order_delivery [OF fips_check_open_module sample_napqes_key])
    (simp_all add: last_seen_def entry_or_0_def SequenceCounter_new_def)

text \<open>
  The key file yields usable keys only. Whatever \<open>FileKeyStore\<close> loads for a device from
  a file it accepted carries frames: wrapping and opening under the loaded key round-trips.
\<close>

lemma file_store_keys_carry_frames:
  assumes "FileKeyStore_load_entries raw Map.empty = Ok data" "FileKeyStore_load data (device_id aad) = Ok key"
    and "fips_check m = Ok ()" "length pdu \<le> 0xFFFF"
  shows "validate_key (key_primes key) = Ok () \<and>
     (\<exists>env. wrap_pdu H m pdu aad key = Ok env \<and> open_envelope H m env key = Ok (aad, pdu))"
proof
  have good: "keys_usable data" using load_entries_usable [OF assms(1)] by (simp add: keys_usable_def)
  show "validate_key (key_primes key) = Ok ()"
    using file_store.load_usable [OF good assms(2)] by (simp add: usable_key_def validate_key_Ok_iff)
  show "\<exists>env. wrap_pdu H m pdu aad key = Ok env \<and> open_envelope H m env key = Ok (aad, pdu)"
    using file_store.loaded_key_carries [OF good assms(2)] assms(3,4) by (simp add: operational_def)
qed

lemma parse_zero_hex: "parse_sk_hex (replicate 64 48) = Ok (replicate 32 0)"
proof -
  let ?f = "\<lambda>i. case from_str_radix 16 256 (take 2 (drop (2 * i) (replicate 64 48))) of
      Some v \<Rightarrow> Ok (of_nat v :: byte) | None \<Rightarrow> Err SkHexDigit"
  have "utf8_bytes (replicate n 48) = replicate n 48" for n
    by (induction n) (simp_all add: utf8_bytes_def utf8_char_def)
  moreover have "?f i = Ok 0" if "i \<in> set [0..<32]" for i
  proof -
    have "min (64 - 2 * i) 2 = 2" using that by simp
    then have "take 2 (drop (2 * i) (replicate 64 48)) = [48, 48 :: nat]"
      by (simp add: min.commute numeral_2_eq_2)
    then show ?thesis by (simp add: from_str_radix_def digit_val_def)
  qed
  then have "collect_res ?f [0..<32] = Ok (map (\<lambda>_. 0) [0..<32])" by (rule collect_res_all_Ok)
  moreover have "map (\<lambda>_. 0 :: byte) [0..<32] = replicate 32 0" by (simp add: map_replicate_const)
  ultimately show ?thesis by (simp add: parse_sk_hex_def list_all_iff)
qed

text \<open>
  Re-keying takes effect at once and locally. After a usable session key is installed for
  a device, frames wrapped under it open under what the store loads for that device, and no
  other device's key changes unless the wildcard entry was replaced.
\<close>

lemma session_store_rekey:
  assumes "keys_usable store" "NapqesKey_new ps sk = Ok key" "fips_check m = Ok ()" "length pdu \<le> 0xFFFF"
    and "other \<noteq> device_id aad" "device_id aad \<noteq> WILDCARD_DEVICE_ID"
  shows "(\<exists>env loaded. wrap_pdu H m pdu aad key = Ok env \<and>
      SessionKeyStore_load (SessionKeyStore_insert store (device_id aad) key) (device_id aad) = Ok loaded \<and>
      open_envelope H m env loaded = Ok (aad, pdu)) \<and>
     SessionKeyStore_load (SessionKeyStore_insert store (device_id aad) key) other = SessionKeyStore_load store other"
proof
  have "usable_key key" using NapqesKey_new_Ok [OF assms(2)] by simp
  from session_store.rekey_takes_effect [OF assms(1) this, of m pdu H aad] assms(3,4)
  show "\<exists>env loaded. wrap_pdu H m pdu aad key = Ok env \<and>
      SessionKeyStore_load (SessionKeyStore_insert store (device_id aad) key) (device_id aad) = Ok loaded \<and>
      open_envelope H m env loaded = Ok (aad, pdu)"
    by (auto simp: operational_def)
  show "SessionKeyStore_load (SessionKeyStore_insert store (device_id aad) key) other = SessionKeyStore_load store other"
    using assms(5,6) by (rule session_store.load_other)
qed

end
