(* ===== verification/KemExchange.thy ===== *)
theory KemExchange
  imports Kem OtFrame
begin

text \<open>
  The key-establishment round trip of \<open>rust/src/kem_exchange.rs\<close>: the framing on the
  management connection, the messages of responder (egress) and initiator (ingress), and the
  installation of the session key. Sockets are the byte strings one side sends and the other
  receives.
\<close>

definition ACK :: byte where "ACK = 0x01"

datatype exchange_error =
    RecvLength | FrameTooLarge nat | RecvPayload nat | Encapsulate error | Decapsulate error
  | AckRecv | AckByte byte

section \<open>Framing\<close>

definition send_framed :: "bytes \<Rightarrow> bytes" where
  "send_framed data = be_bytes 4 (length data) @ data"

text \<open>The received frame and the rest of the connection.\<close>

definition recv_framed :: "bytes \<Rightarrow> (bytes \<times> bytes, exchange_error) res" where
  "recv_framed stream =
     (if length stream < 4 then Err RecvLength
      else let len = be_val (take 4 stream) in
        if 64 * 1024 < len then Err (FrameTooLarge len)
        else if length (drop 4 stream) < len then Err (RecvPayload len)
        else Ok (take len (drop 4 stream), drop len (drop 4 stream)))"

section \<open>Responder and initiator\<close>

text \<open>\<open>run_responder_once\<close> up to its first receive, and from there on.\<close>

definition responder_hello :: "kem_prims \<Rightarrow> bytes \<Rightarrow> bytes \<times> bytes" where
  "responder_hello P rand = (case keygen P rand of (pk, sk) \<Rightarrow> (send_framed pk, sk))"

definition responder_finish ::
    "mac \<Rightarrow> kem_prims \<Rightarrow> module_state \<Rightarrow> bytes \<Rightarrow> bytes \<Rightarrow> (NapqesKey \<times> bytes, exchange_error) res" where
  "responder_finish H P m sk stream =
     res_bind (recv_framed stream) (\<lambda>(ct, _).
     res_bind (map_err Decapsulate (decapsulate_v8 H P m ct sk)) (\<lambda>session_key.
       Ok (session_key, [ACK])))"

text \<open>\<open>run_initiator_once\<close>: receive, encapsulate, send; then wait for the acknowledgement.\<close>

definition initiator_reply ::
    "mac \<Rightarrow> kem_prims \<Rightarrow> bytes \<Rightarrow> module_state \<Rightarrow> bytes \<Rightarrow> (bytes \<times> NapqesKey, exchange_error) res" where
  "initiator_reply H P rand m stream =
     res_bind (recv_framed stream) (\<lambda>(pk, _).
     res_bind (map_err Encapsulate (encapsulate_v8 H P rand m pk)) (\<lambda>(ct, session_key).
       Ok (send_framed ct, session_key)))"

definition initiator_finish :: "NapqesKey \<Rightarrow> bytes \<Rightarrow> (NapqesKey, exchange_error) res" where
  "initiator_finish session_key stream =
     (case stream of [] \<Rightarrow> Err AckRecv
      | ack # _ \<Rightarrow> if ack \<noteq> ACK then Err (AckByte ack) else Ok session_key)"

text \<open>One iteration of the re-keying loops: a derived key replaces the wildcard entry.\<close>

definition rekey_step :: "key_map \<Rightarrow> (NapqesKey, exchange_error) res \<Rightarrow> key_map" where
  "rekey_step store result =
     (case result of Ok key \<Rightarrow> SessionKeyStore_insert store WILDCARD_DEVICE_ID key | _ \<Rightarrow> store)"

section \<open>A complete exchange\<close>

text \<open>Both sides over an undisturbed connection: the initiator's and the responder's key.\<close>

definition exchange ::
    "mac \<Rightarrow> kem_prims \<Rightarrow> bytes \<Rightarrow> bytes \<Rightarrow> module_state \<Rightarrow> module_state
       \<Rightarrow> (NapqesKey \<times> NapqesKey, exchange_error) res" where
  "exchange H P rand rand' m_resp m_init =
     (case responder_hello P rand of (hello, sk) \<Rightarrow>
        res_bind (initiator_reply H P rand' m_init hello) (\<lambda>(msg, key_init).
        res_bind (responder_finish H P m_resp sk msg) (\<lambda>(key_resp, ack).
        res_bind (initiator_finish key_init ack) (\<lambda>key. Ok (key, key_resp)))))"

lemma recv_send_framed:
  "length data \<le> 64 * 1024 \<Longrightarrow> recv_framed (send_framed data @ rest) = Ok (data, rest)"
  by (simp add: recv_framed_def send_framed_def Let_def)

lemma exchange_agrees:
  assumes "frodo_contract P rand rand'" "operational m_resp" "operational m_init"
  shows "exchange H P rand rand' m_resp m_init =
     map_err Encapsulate
       (res_bind (derive_v8_key H P (fst (frodo_encapsulate P rand' (fst (frodo_keypair P rand)))))
          (\<lambda>key. Ok (key, key)))"
proof -
  obtain pk sk where kp: "frodo_keypair P rand = (pk, sk)" by (metis prod.exhaust)
  obtain ss ct where en: "frodo_encapsulate P rand' pk = (ss, ct)" by (metis prod.exhaust)
  have c: "frodo_pk_ok P pk" "frodo_sk_ok P sk" "frodo_ct_ok P ct" "length pk = 9616" "length ct = 9720"
    "frodo_decapsulate P ct sk = ss"
    using assms(1) kp en by (simp_all add: frodo_contract_def)
  have r: "recv_framed (send_framed pk) = Ok (pk, [])" "recv_framed (send_framed ct) = Ok (ct, [])"
    using c recv_send_framed [of pk "[]"] recv_send_framed [of ct "[]"] by simp_all
  show ?thesis
    using assms(2,3) c kp en r
    by (cases "derive_v8_key H P ss")
      (simp_all add: exchange_def responder_hello_def initiator_reply_def responder_finish_def
        initiator_finish_def keygen_def encapsulate_v8_def decapsulate_v8_def frodo_open_def operational_def)
qed

lemma derive_v8_key_usable: "derive_v8_key H P ss = Ok key \<Longrightarrow> usable_key key"
  by (auto simp: derive_v8_key_def dest: NapqesKey_new_Ok)

lemma rekey_load:
  assumes "store dev = None"
  shows "SessionKeyStore_load (rekey_step store (Ok key)) dev = Ok key"
  using assms by (simp add: rekey_step_def SessionKeyStore_load_def SessionKeyStore_insert_def)

section \<open>Properties\<close>

lemma derive_v8_key_cases:
  "derive_v8_key H P ss = Panic \<or> (\<exists>key. derive_v8_key H P ss = Ok key \<and> validate_key (key_primes key) = Ok ())"
proof (cases "expand_seed_to_primes H (hkdf32 P HKDF_SALT ss HKDF_INFO)")
  case (Ok ps)
  then have "validate_key ps = Ok ()" using expand_seed_valid [OF Ok] by (simp add: validate_key_Ok_iff)
  then show ?thesis using Ok by (simp add: derive_v8_key_def derive_napqes_key_def NapqesKey_new_def)
next
  case (Err e)
  then show ?thesis using expand_loop_not_Err by (simp add: expand_seed_to_primes_def)
qed (simp add: derive_v8_key_def derive_napqes_key_def)


lemma exchange_sample:
  "\<exists>key. exchange sample_mac sample_prims [] [] open_module open_module = Ok (key, key)"
proof -
  have "validate_key sample_tuple = Ok ()"
    using expand_seed_valid [OF expand_sample] by (simp add: validate_key_Ok_iff)
  then show ?thesis
    using exchange_agrees [OF sample_contracts(1), of open_module open_module sample_mac "[]" "[]"]
    by (simp add: operational_def derive_v8_key_def derive_napqes_key_def expand_sample NapqesKey_new_def)
qed


end
