(* ===== verification/ModbusPdu.thy ===== *)
theory ModbusPdu
  imports Prelude
begin

text \<open>The Modbus TCP extractor of \<open>rust/src/protocols/modbus.rs\<close>.\<close>

definition MBAP_HEADER_SIZE :: nat where [simp]: "MBAP_HEADER_SIZE = 7"
definition MODBUS_PROTOCOL_ID :: u16 where "MODBUS_PROTOCOL_ID = 0"

record MbapHeader =
  transaction_id :: u16
  mbap_length :: u16
  unit_id :: byte

datatype ModbusError =
    ModbusTooShort nat nat
  | BadProtocolId u16
  | LengthMismatch nat nat

definition be16_word :: "bytes \<Rightarrow> u16" where
  "be16_word bs = of_nat (be_val bs)"

definition be16_bytes :: "u16 \<Rightarrow> bytes" where
  "be16_bytes w = be_bytes 2 (unat w)"

definition extract_pdu :: "bytes \<Rightarrow> (MbapHeader \<times> bytes, ModbusError) res" where
  "extract_pdu buf =
     (if length buf < MBAP_HEADER_SIZE then Err (ModbusTooShort (length buf) MBAP_HEADER_SIZE)
      else let tid = be16_word (take 2 buf);
               protocol_id = be16_word (take 2 (drop 2 buf));
               len = be16_word (take 2 (drop 4 buf));
               unit_b = buf ! 6
           in if protocol_id \<noteq> MODBUS_PROTOCOL_ID then Err (BadProtocolId protocol_id)
              else let declared_remaining = unat len;
                       available_remaining = length buf - 6
                   in if available_remaining < declared_remaining
                      then Err (LengthMismatch declared_remaining available_remaining)
                      else Ok (\<lparr>transaction_id = tid, mbap_length = len, unit_id = unit_b\<rparr>,
                               take declared_remaining (drop 6 buf)))"

text \<open>\<open>pdu.len() as u16\<close> truncates.\<close>

definition modbus_reconstruct :: "MbapHeader \<Rightarrow> bytes \<Rightarrow> bytes" where
  "modbus_reconstruct header pdu =
     be16_bytes (transaction_id header) @ be16_bytes MODBUS_PROTOCOL_ID @
     be16_bytes (of_nat (length pdu)) @ pdu"

section \<open>Facts\<close>

lemma length_be16_bytes [simp]: "length (be16_bytes w) = 2"
  by (simp add: be16_bytes_def)

lemma unat_u16_less: "unat (w :: u16) < 256 ^ 2"
  using unsigned_less [of w, where 'a = nat] by simp

lemma be16_word_bytes [simp]: "be16_word (be16_bytes w) = w"
  using unat_u16_less [of w] by (simp add: be16_word_def be16_bytes_def)

lemma be16_bytes_word: "length bs = 2 \<Longrightarrow> be16_bytes (be16_word bs) = bs"
  using be_val_less [of bs] by (simp add: be16_word_def be16_bytes_def unat_of_nat)

lemma extract_pdu_cases:
  assumes "extract_pdu buf = Ok (hdr, pdu)"
  shows "buf = be16_bytes (transaction_id hdr) @ be16_bytes 0 @ be16_bytes (mbap_length hdr) @ drop 6 buf"
    and "length pdu = unat (mbap_length hdr)" "pdu = take (length pdu) (drop 6 buf)"
    and "7 \<le> length buf" "unit_id hdr = buf ! 6"
proof -
  from assms show len: "7 \<le> length buf" by (auto simp: extract_pdu_def split: if_splits)
  have f: "be16_word (take 2 buf) = transaction_id hdr" "be16_word (take 2 (drop 2 buf)) = 0"
    "be16_word (take 2 (drop 4 buf)) = mbap_length hdr" "unit_id hdr = buf ! 6"
    "pdu = take (unat (mbap_length hdr)) (drop 6 buf)" "unat (mbap_length hdr) \<le> length buf - 6"
    using assms by (auto simp: extract_pdu_def Let_def MODBUS_PROTOCOL_ID_def split: if_splits)
  then show "unit_id hdr = buf ! 6" "length pdu = unat (mbap_length hdr)" by simp_all
  with f(5) show "pdu = take (length pdu) (drop 6 buf)" by simp
  have "take 2 buf @ take 2 (drop 2 buf) @ take 2 (drop 4 buf) @ drop 6 buf = buf"
    using take_drop_parts [of 2 buf 2 2] by (simp add: numeral_eq_Suc)
  moreover have "take 2 buf = be16_bytes (transaction_id hdr)" "take 2 (drop 2 buf) = be16_bytes 0"
    "take 2 (drop 4 buf) = be16_bytes (mbap_length hdr)"
    using f(1-3) len be16_bytes_word [of "take 2 buf"] be16_bytes_word [of "take 2 (drop 2 buf)"]
      be16_bytes_word [of "take 2 (drop 4 buf)"] by simp_all
  ultimately show "buf = be16_bytes (transaction_id hdr) @ be16_bytes 0 @ be16_bytes (mbap_length hdr) @ drop 6 buf"
    by simp
qed

lemma extract_reconstruct_modbus:
  assumes "extract_pdu buf = Ok (hdr, pdu)"
  shows "modbus_reconstruct hdr pdu = take (6 + length pdu) buf"
proof -
  note e = extract_pdu_cases [OF assms]
  have "of_nat (length pdu) = mbap_length hdr" using e(2) by simp
  then have "modbus_reconstruct hdr pdu =
      (be16_bytes (transaction_id hdr) @ be16_bytes 0 @ be16_bytes (mbap_length hdr)) @ pdu"
    by (simp add: modbus_reconstruct_def MODBUS_PROTOCOL_ID_def)
  also have "be16_bytes (transaction_id hdr) @ be16_bytes 0 @ be16_bytes (mbap_length hdr) = take 6 buf"
    using arg_cong [OF e(1), of "take 6"] by simp
  also have "take 6 buf @ pdu = take (6 + length pdu) buf"
    using e(3) by (metis take_add)
  finally show ?thesis .
qed

lemma reconstruct_extract_modbus:
  assumes "0 < length pdu" "length pdu < 65536"
  shows "extract_pdu (modbus_reconstruct hdr pdu) =
     Ok (hdr\<lparr>mbap_length := of_nat (length pdu), unit_id := pdu ! 0\<rparr>, pdu)"
proof -
  let ?len = "of_nat (length pdu) :: u16"
  have u: "unat ?len = length pdu" using assms(2) by (simp add: unat_of_nat)
  let ?buf = "be16_bytes (transaction_id hdr) @ be16_bytes 0 @ be16_bytes ?len @ pdu"
  have parts: "take 2 ?buf = be16_bytes (transaction_id hdr)" "take 2 (drop 2 ?buf) = be16_bytes 0"
    "take 2 (drop 4 ?buf) = be16_bytes ?len" "drop 6 ?buf = pdu" "?buf ! 6 = pdu ! 0" "length ?buf = 6 + length pdu"
    by (simp_all add: nth_append)
  have "\<lparr>transaction_id = transaction_id hdr, mbap_length = ?len, unit_id = pdu ! 0\<rparr>
      = hdr\<lparr>mbap_length := ?len, unit_id := pdu ! 0\<rparr>" by (cases hdr) simp
  moreover have "modbus_reconstruct hdr pdu = ?buf" by (simp add: modbus_reconstruct_def MODBUS_PROTOCOL_ID_def)
  ultimately show ?thesis
    unfolding extract_pdu_def Let_def
    using assms(1) by (simp only: parts be16_word_bytes u MODBUS_PROTOCOL_ID_def) simp
qed

section \<open>Properties\<close>

text \<open>
  The Modbus extractor and the reconstruction are inverse to each other: a reconstructed
  frame is extracted to its transaction id, its unit id and its data unit.
\<close>

lemma modbus_round_trip:
  assumes "0 < length pdu" "length pdu < 65536"
  shows "extract_pdu (modbus_reconstruct hdr pdu) =
     Ok (hdr\<lparr>mbap_length := of_nat (length pdu), unit_id := pdu ! 0\<rparr>, pdu)"
  by (rule reconstruct_extract_modbus [OF assms])

end
