(* ===== verification/DnpPdu.thy ===== *)
theory DnpPdu
  imports Prelude
begin

text \<open>
  The DNP3 extractor of \<open>rust/src/protocols/dnp3.rs\<close>: the data-link header with its CRC,
  payload extraction and reconstruction.
\<close>

definition DNP3_START_BYTES :: bytes where "DNP3_START_BYTES = [0x05, 0x64]"
definition DLL_HEADER_SIZE :: nat where [simp]: "DLL_HEADER_SIZE = 10"

section \<open>CRC\<close>

definition crc_step :: "u16 \<Rightarrow> u16" where
  "crc_step crc = (if crc AND 0x0001 \<noteq> 0 then drop_bit 1 crc XOR 0xA6BC else drop_bit 1 crc)"

fun crc_steps :: "nat \<Rightarrow> u16 \<Rightarrow> u16" where
  "crc_steps 0 crc = crc"
| "crc_steps (Suc j) crc = crc_steps j (crc_step crc)"

definition precompute_crc_table :: "u16 list" where
  "precompute_crc_table = map (\<lambda>i. crc_steps 8 (of_nat i)) [0..<256]"

definition crc_update :: "u16 \<Rightarrow> byte \<Rightarrow> u16" where
  "crc_update crc b =
     (let idx = unat ((crc XOR ucast b) AND 0xFF) in drop_bit 8 crc XOR precompute_crc_table ! idx)"

definition crc16_dnp :: "bytes \<Rightarrow> u16" where
  "crc16_dnp data = NOT (foldl crc_update 0 data)"

section \<open>Frames\<close>

record DnpHeader =
  dnp_length :: byte
  control :: byte
  destination :: u16
  source :: u16
  crc_header :: u16

datatype DnpError =
    DnpTooShort nat nat
  | BadStartBytes byte byte
  | HeaderCrcMismatch u16 u16
  | InsufficientPayload nat nat

definition le16_word :: "byte \<Rightarrow> byte \<Rightarrow> u16" where
  "le16_word lo hi = of_nat (unat lo + 256 * unat hi)"

definition le16_bytes :: "u16 \<Rightarrow> bytes" where
  "le16_bytes w = [of_nat (unat w), of_nat (unat w div 256)]"

definition total_frame_len :: "byte \<Rightarrow> nat" where
  "total_frame_len length_field = unat length_field + 5"

text \<open>The slice \<open>buf[DLL_HEADER_SIZE..frame_len]\<close> panics when it ends before it starts.\<close>

definition extract_payload :: "bytes \<Rightarrow> (DnpHeader \<times> bytes, DnpError) res" where
  "extract_payload buf =
     (if length buf < DLL_HEADER_SIZE then Err (DnpTooShort (length buf) DLL_HEADER_SIZE)
      else if take 2 buf \<noteq> DNP3_START_BYTES then Err (BadStartBytes (buf ! 0) (buf ! 1))
      else let hdr = \<lparr>dnp_length = buf ! 2, control = buf ! 3,
                      destination = le16_word (buf ! 4) (buf ! 5),
                      source = le16_word (buf ! 6) (buf ! 7),
                      crc_header = le16_word (buf ! 8) (buf ! 9)\<rparr>;
               expected_crc = crc16_dnp (take 6 (drop 2 buf))
           in if expected_crc \<noteq> crc_header hdr
              then Err (HeaderCrcMismatch expected_crc (crc_header hdr))
              else let frame_len = total_frame_len (dnp_length hdr) in
                if length buf < frame_len then Err (InsufficientPayload frame_len (length buf))
                else if frame_len < DLL_HEADER_SIZE then Panic
                else Ok (hdr, take (frame_len - DLL_HEADER_SIZE) (drop DLL_HEADER_SIZE buf)))"

text \<open>\<open>(payload.len() + 5) as u8\<close> truncates.\<close>

definition dnp_reconstruct :: "DnpHeader \<Rightarrow> bytes \<Rightarrow> bytes" where
  "dnp_reconstruct header payload =
     (let header_body = [of_nat (length payload + 5), control header]
                          @ le16_bytes (destination header) @ le16_bytes (source header)
      in DNP3_START_BYTES @ header_body @ le16_bytes (crc16_dnp header_body) @ payload)"

section \<open>Facts\<close>

lemma length_le16_bytes [simp]: "length (le16_bytes w) = 2"
  by (simp add: le16_bytes_def)

lemma unat_of_nat_u16: "n < 65536 \<Longrightarrow> unat (of_nat n :: u16) = n"
  by (simp add: unat_of_nat)

lemma le16_bytes_word [simp]: "le16_bytes (le16_word a b) = [a, b]"
proof -
  have a: "unat a < 256" "unat b < 256" by simp_all
  then have "unat a + 256 * unat b < 65536" by linarith
  then have v: "unat (le16_word a b) = unat a + 256 * unat b"
    unfolding le16_word_def by (rule unat_of_nat_u16)
  have "(unat a + 256 * unat b) div 256 = unat b" using a by simp
  moreover have "(of_nat (unat a + 256 * unat b) :: byte) = a"
  proof -
    have "(256 :: byte) = 0" by simp
    then have "(256 :: byte) * of_nat (unat b) = 0" by (simp only: mult_zero_left)
    then show ?thesis by simp
  qed
  ultimately show ?thesis by (simp add: le16_bytes_def v)
qed

lemma le16_word_bytes: "le16_word (of_nat (unat w)) (of_nat (unat w div 256)) = w"
proof -
  have "unat w < 65536" using unsigned_less [of w, where 'a = nat] by simp
  then have "unat w div 256 mod 256 = unat w div 256" by simp
  then have "unat (of_nat (unat w) :: byte) + 256 * unat (of_nat (unat w div 256) :: byte) = unat w"
    unfolding unat_of_nat_byte by simp
  then show ?thesis unfolding le16_word_def by (simp only: of_nat_unat ucast_id)
qed

lemma extract_payload_Ok:
  assumes "extract_payload buf = Ok (hdr, payload)"
  shows "dnp_reconstruct hdr payload = take (total_frame_len (dnp_length hdr)) buf"
proof -
  let ?n = "unat (dnp_length hdr)"
  have len: "10 \<le> length buf" "?n + 5 \<le> length buf" "5 \<le> ?n"
    and start: "take 2 buf = DNP3_START_BYTES"
    and hdr: "hdr = \<lparr>dnp_length = buf ! 2, control = buf ! 3, destination = le16_word (buf ! 4) (buf ! 5),
        source = le16_word (buf ! 6) (buf ! 7), crc_header = le16_word (buf ! 8) (buf ! 9)\<rparr>"
    and crc: "crc16_dnp (take 6 (drop 2 buf)) = le16_word (buf ! 8) (buf ! 9)"
    and pay: "payload = take (?n - 5) (drop 10 buf)"
    using assms by (auto simp: extract_payload_def Let_def total_frame_len_def split: if_splits)
  define b where "b = take 10 buf"
  have ten: "take 10 buf = [buf ! 0, buf ! 1, buf ! 2, buf ! 3, buf ! 4, buf ! 5, buf ! 6, buf ! 7, buf ! 8, buf ! 9]"
    using len(1) by (intro nth_equalityI) (auto simp: nth_Cons' less_Suc_eq numeral_eq_Suc)
  have start': "DNP3_START_BYTES = [buf ! 0, buf ! 1]"
    using start len(1) by (intro nth_equalityI) (auto simp: start [symmetric] nth_Cons' less_Suc_eq numeral_eq_Suc)
  have body: "take 6 (drop 2 buf) = [buf ! 2, buf ! 3, buf ! 4, buf ! 5, buf ! 6, buf ! 7]"
    using len(1) by (intro nth_equalityI) (auto simp: nth_Cons' less_Suc_eq numeral_eq_Suc)
  have "length payload + 5 = ?n" using len pay by simp
  then have lf: "(of_nat (length payload + 5) :: byte) = buf ! 2" by (simp add: hdr)
  have "dnp_reconstruct hdr payload = take 10 buf @ payload"
    unfolding dnp_reconstruct_def Let_def lf using crc body by (simp add: hdr start' ten)
  also have "\<dots> = take (10 + (?n - 5)) buf" unfolding pay by (simp only: take_add)
  also have "10 + (?n - 5) = total_frame_len (dnp_length hdr)" using len(3) by (simp add: total_frame_len_def)
  finally show ?thesis .
qed

lemma extract_reconstruct:
  assumes "length payload \<le> 250"
  shows "\<exists>crc. extract_payload (dnp_reconstruct hdr payload) =
     Ok (hdr\<lparr>dnp_length := of_nat (length payload + 5), crc_header := crc\<rparr>, payload)"
proof -
  define len where "len = (of_nat (length payload + 5) :: byte)"
  define body where "body = [len, control hdr] @ le16_bytes (destination hdr) @ le16_bytes (source hdr)"
  have u: "unat len = length payload + 5" using assms unfolding len_def unat_of_nat_byte by simp
  have r: "dnp_reconstruct hdr payload =
      [0x05, 0x64, len, control hdr, of_nat (unat (destination hdr)), of_nat (unat (destination hdr) div 256),
       of_nat (unat (source hdr)), of_nat (unat (source hdr) div 256),
       of_nat (unat (crc16_dnp body)), of_nat (unat (crc16_dnp body) div 256)] @ payload"
    by (simp add: dnp_reconstruct_def Let_def DNP3_START_BYTES_def le16_bytes_def body_def len_def)
  have b: "body = [len, control hdr, of_nat (unat (destination hdr)), of_nat (unat (destination hdr) div 256),
       of_nat (unat (source hdr)), of_nat (unat (source hdr) div 256)]"
    by (simp add: body_def le16_bytes_def)
  have "\<lparr>dnp_length = len, control = control hdr, destination = destination hdr,
      source = source hdr, crc_header = crc16_dnp body\<rparr>
      = hdr\<lparr>dnp_length := len, crc_header := crc16_dnp body\<rparr>" by (cases hdr) simp
  then show ?thesis
    unfolding r extract_payload_def Let_def len_def [symmetric]
    by (intro exI [of _ "crc16_dnp body"])
      (simp add: DNP3_START_BYTES_def total_frame_len_def u le16_word_bytes b [symmetric] del: of_nat_unat)
qed

section \<open>The table against the bitwise definition\<close>

lemma and_255_less: "unat (w AND 0xFF :: u16) < 256"
proof -
  have "w AND 0xFF \<le> (0xFF :: u16)" by (rule word_and_le1)
  then have "unat (w AND 0xFF) \<le> unat (0xFF :: u16)" by (simp only: word_le_nat_alt)
  then show ?thesis by simp
qed

lemma crc_update_bitwise: "crc_update crc b = drop_bit 8 crc XOR crc_steps 8 ((crc XOR ucast b) AND 0xFF)"
  using and_255_less [of "crc XOR ucast b"] by (simp add: crc_update_def precompute_crc_table_def Let_def)

text \<open>One shift step is linear over exclusive or.\<close>

lemma crc_step_alt: "crc_step x = drop_bit 1 x XOR (if bit x 0 then 0xA6BC else 0)"
  by (simp add: crc_step_def bit_0 and_one_eq odd_iff_mod_2_eq_one)

lemma crc_step_xor: "crc_step (x XOR y) = crc_step x XOR crc_step y"
  by (simp add: crc_step_alt drop_bit_xor bit_xor_iff xor.assoc xor.left_commute)

lemma crc_steps_xor: "crc_steps j (x XOR y) = crc_steps j x XOR crc_steps j y"
  by (induction j arbitrary: x y) (simp_all add: crc_step_xor)

lemma crc_steps_high:
  "(\<And>i. i < j \<Longrightarrow> \<not> bit x i) \<Longrightarrow> crc_steps j x = drop_bit j x"
proof (induction j arbitrary: x)
  case (Suc j)
  have "crc_step x = drop_bit 1 x" using Suc.prems [of 0] by (simp add: crc_step_alt)
  moreover have "\<not> bit (drop_bit 1 x) i" if "i < j" for i
    using Suc.prems [of "Suc i"] that by (simp add: bit_drop_bit_eq)
  ultimately show ?case using Suc.IH [of "drop_bit 1 x"] by simp
qed simp

lemma crc_update_lfsr: "crc_update crc b = crc_steps 8 (crc XOR ucast b)"
proof -
  let ?x = "crc XOR ucast b :: u16"
  have m: "(0xFF :: u16) = mask 8" by (simp add: mask_eq_exp_minus_1)
  have "?x = (?x AND mask 8) XOR (?x AND NOT (mask 8))"
    by (rule bit_word_eqI) (auto simp: bit_simps)
  then have "crc_steps 8 ?x = crc_steps 8 (?x AND mask 8) XOR crc_steps 8 (?x AND NOT (mask 8))"
    by (metis crc_steps_xor)
  also have "crc_steps 8 (?x AND NOT (mask 8)) = drop_bit 8 (?x AND NOT (mask 8))"
    by (rule crc_steps_high) (simp add: bit_simps)
  also have "\<dots> = drop_bit 8 crc"
    by (rule bit_word_eqI) (auto simp: bit_simps dest: bit_imp_le_length)
  finally show ?thesis by (simp add: crc_update_bitwise m xor.commute del: mask_numeral)
qed

lemma crc_steps_8:
  "crc_steps 8 c = crc_step (crc_step (crc_step (crc_step (crc_step (crc_step (crc_step (crc_step c)))))))"
  by (simp add: numeral_eq_Suc)

lemma sample_crcs:
  "crc16_dnp [0x00, 0xC4, 0x01, 0x00, 0x02, 0x00] = 0xFB24"
  "crc16_dnp [0x07, 0xC4, 0x01, 0x00, 0x02, 0x00] = 0x251A"
  by (simp_all add: crc16_dnp_def crc_update_bitwise crc_steps_8 crc_step_def)

section \<open>Properties\<close>

text \<open>
  C37: whatever the DNP3 extractor accepts, putting header and payload together again gives
  the bytes of the frame, CRC included.
\<close>

theorem dnp_extract_reconstruct:
  assumes "extract_payload buf = Ok (hdr, payload)"
  shows "dnp_reconstruct hdr payload = take (total_frame_len (dnp_length hdr)) buf"
  by (rule extract_payload_Ok [OF assms])

text \<open>
  C38: a received frame with a correct header CRC but a length field below five makes the
  extractor panic: the payload slice would end before it starts.
\<close>

theorem dnp_short_length_panics:
  assumes "10 \<le> length buf" "take 2 buf = DNP3_START_BYTES"
    and "crc16_dnp (take 6 (drop 2 buf)) = le16_word (buf ! 8) (buf ! 9)" and "unat (buf ! 2) < 5"
  shows "extract_payload buf = Panic"
  using assms by (simp add: extract_payload_def Let_def total_frame_len_def)

theorem dnp_short_length_panics_witness:
  "extract_payload [0x05, 0x64, 0x00, 0xC4, 0x01, 0x00, 0x02, 0x00, 0x24, 0xFB] = Panic"
  by (rule dnp_short_length_panics)
    (simp_all add: DNP3_START_BYTES_def sample_crcs le16_word_def)

theorem dnp_extract_reconstruct_witness:
  "\<exists>hdr. dnp_reconstruct hdr [0x2A, 0x2B] =
     [0x05, 0x64, 0x07, 0xC4, 0x01, 0x00, 0x02, 0x00, 0x1A, 0x25, 0x2A, 0x2B]"
proof -
  let ?buf = "[0x05, 0x64, 0x07, 0xC4, 0x01, 0x00, 0x02, 0x00, 0x1A, 0x25, 0x2A, 0x2B] :: bytes"
  have "\<exists>hdr. extract_payload ?buf = Ok (hdr, [0x2A, 0x2B]) \<and> dnp_length hdr = 7"
    by (simp add: extract_payload_def DNP3_START_BYTES_def total_frame_len_def sample_crcs le16_word_def)
  then show ?thesis using dnp_extract_reconstruct [of ?buf] by (auto simp: total_frame_len_def)
qed

text \<open>
  C36: the table-driven CRC is the bit-serial one: looking up one byte in the precomputed
  table and shifting by eight equals eight steps of the polynomial shift register, for every
  register value and byte.
\<close>

theorem crc_table_is_bit_serial:
  "crc16_dnp data = NOT (foldl (\<lambda>crc b. crc_steps 8 (crc XOR ucast b)) 0 data)"
  by (simp add: crc16_dnp_def crc_update_lfsr [abs_def])

end
