(* ===== verification/Gateway.thy ===== *)
theory Gateway
  imports KemExchange ModbusPdu DnpPdu
begin

text \<open>
  The connection handlers of \<open>rust/src/bin/ls_gateway.rs\<close>. A connection is the sequence
  of its reads (ingress) or its bytes (egress); what a handler does to the outside is the list
  of its events. \<open>load\<close> is the key store's lookup.
\<close>

datatype siem_event = PARSE_ERR | KEY_MISSING | AUTH_FAIL

text \<open>\<open>Forward\<close> carries the bytes written to the forward connection.\<close>

datatype gw_event = Siem siem_event | Forward bytes | WrapFailed FrameError

type_synonym key_load = "u64 \<Rightarrow> (NapqesKey, store_error) res"

section \<open>Forwarding\<close>

definition forward_envelope :: "bytes \<Rightarrow> bytes" where
  "forward_envelope data = be_bytes 4 (length data) @ data"

section \<open>Ingress\<close>

text \<open>The part of both ingress handlers after a data unit has been extracted.\<close>

definition ingress_seal ::
    "mac \<Rightarrow> module_state \<Rightarrow> key_load \<Rightarrow> SequenceCounter \<Rightarrow> ProtocolId \<Rightarrow> u64 \<Rightarrow> bytes
       \<Rightarrow> (gw_event list, FrameError) res \<times> SequenceCounter" where
  "ingress_seal H m load c proto dev pdu =
     (case next_seq c proto dev of
        (Ok s, c') \<Rightarrow>
          (case load dev of
             Err _ \<Rightarrow> (Ok [Siem KEY_MISSING], c')
           | Panic \<Rightarrow> (Panic, c')
           | Ok key \<Rightarrow>
               (case wrap_pdu H m pdu \<lparr>protocol = proto, device_id = dev, seq = s\<rparr> key of
                  Err e \<Rightarrow> (Ok [WrapFailed e], c')
                | Panic \<Rightarrow> (Panic, c')
                | Ok envelope \<Rightarrow> (Ok [Forward (forward_envelope envelope)], c')))
      | (Err e, c') \<Rightarrow> (Err e, c')
      | (Panic, c') \<Rightarrow> (Panic, c'))"

definition ingress_modbus_frame ::
    "mac \<Rightarrow> module_state \<Rightarrow> key_load \<Rightarrow> SequenceCounter \<Rightarrow> bytes
       \<Rightarrow> (gw_event list, FrameError) res \<times> SequenceCounter" where
  "ingress_modbus_frame H m load c frame =
     (case extract_pdu frame of
        Err _ \<Rightarrow> (Ok [Siem PARSE_ERR], c)
      | Panic \<Rightarrow> (Panic, c)
      | Ok (hdr, pdu) \<Rightarrow> ingress_seal H m load c ModbusTcp (ucast (unit_id hdr)) pdu)"

definition ingress_dnp3_frame ::
    "mac \<Rightarrow> module_state \<Rightarrow> key_load \<Rightarrow> SequenceCounter \<Rightarrow> bytes
       \<Rightarrow> (gw_event list, FrameError) res \<times> SequenceCounter" where
  "ingress_dnp3_frame H m load c frame =
     (case extract_payload frame of
        Err _ \<Rightarrow> (Ok [Siem PARSE_ERR], c)
      | Panic \<Rightarrow> (Panic, c)
      | Ok (hdr, payload) \<Rightarrow> ingress_seal H m load c Dnp3 (ucast (source hdr)) payload)"

text \<open>
  The read loop: an empty read ends the connection, a panic ends the task. The handler is the
  frame function of the protocol.
\<close>

fun ingress_loop ::
    "(SequenceCounter \<Rightarrow> bytes \<Rightarrow> (gw_event list, FrameError) res \<times> SequenceCounter)
       \<Rightarrow> SequenceCounter \<Rightarrow> bytes list \<Rightarrow> gw_event list \<times> SequenceCounter" where
  "ingress_loop handle c [] = ([], c)"
| "ingress_loop handle c (frame # frames) =
     (if frame = [] then ([], c)
      else case handle c frame of
        (Ok evs, c') \<Rightarrow> (case ingress_loop handle c' frames of (evs', c'') \<Rightarrow> (evs @ evs', c''))
      | (_, c') \<Rightarrow> ([], c'))"

definition handle_ingress_modbus ::
    "mac \<Rightarrow> module_state \<Rightarrow> key_load \<Rightarrow> SequenceCounter \<Rightarrow> bytes list \<Rightarrow> gw_event list \<times> SequenceCounter" where
  "handle_ingress_modbus H m load c reads = ingress_loop (ingress_modbus_frame H m load) c reads"

definition handle_ingress_dnp3 ::
    "mac \<Rightarrow> module_state \<Rightarrow> key_load \<Rightarrow> SequenceCounter \<Rightarrow> bytes list \<Rightarrow> gw_event list \<times> SequenceCounter" where
  "handle_ingress_dnp3 H m load c reads = ingress_loop (ingress_dnp3_frame H m load) c reads"

section \<open>Egress\<close>

definition peek_device_id :: "bytes \<Rightarrow> u64 option" where
  "peek_device_id buf =
     (if length buf < ENVELOPE_HEADER_SIZE then None
      else if take 2 buf \<noteq> ENVELOPE_MAGIC then None
      else Some (bytes_word (take 8 (drop 3 buf))))"

definition peek_seq :: "bytes \<Rightarrow> u64 option" where
  "peek_seq buf =
     (if length buf < ENVELOPE_HEADER_SIZE then None else Some (bytes_word (take 8 (drop 11 buf))))"

definition reassemble_modbus :: "bytes \<Rightarrow> bytes" where
  "reassemble_modbus pdu =
     modbus_reconstruct
       \<lparr>transaction_id = 0, mbap_length = of_nat (length pdu),
        unit_id = (if pdu = [] then 0 else pdu ! 0)\<rparr> pdu"

definition MAX_BLOB :: nat where "MAX_BLOB = 48 + 160 * (2 ^ 16 + 2)"

text \<open>One envelope: look up the key of the device it names, unwrap, forward.\<close>

definition egress_envelope ::
    "mac \<Rightarrow> module_state \<Rightarrow> key_load \<Rightarrow> ProtocolId \<Rightarrow> SequenceCounter \<Rightarrow> bytes
       \<Rightarrow> (gw_event list, FrameError) res \<times> SequenceCounter" where
  "egress_envelope H m load proto c envelope =
     (case peek_device_id envelope of
        None \<Rightarrow> (Ok [Siem PARSE_ERR], c)
      | Some dev \<Rightarrow>
          (case load dev of
             Err _ \<Rightarrow> (Ok [Siem KEY_MISSING], c)
           | Panic \<Rightarrow> (Panic, c)
           | Ok key \<Rightarrow>
               (case unwrap_pdu H m envelope key c of
                  (Err _, c') \<Rightarrow> (Ok [Siem AUTH_FAIL], c')
                | (Panic, c') \<Rightarrow> (Panic, c')
                | (Ok pdu, c') \<Rightarrow>
                    (let frame = (case proto of ModbusTcp \<Rightarrow> reassemble_modbus pdu | Dnp3 \<Rightarrow> pdu)
                     in (Ok [Forward (forward_envelope frame)], c')))))"

text \<open>
  The envelope loop: header, declared length, blob; the connection ends where a read fails
  or a blob is oversized.
\<close>

function handle_egress ::
    "mac \<Rightarrow> module_state \<Rightarrow> key_load \<Rightarrow> ProtocolId \<Rightarrow> SequenceCounter \<Rightarrow> bytes \<Rightarrow> gw_event list \<times> SequenceCounter" where
  "handle_egress H m load proto c stream =
     (if length stream < ENVELOPE_HEADER_SIZE then ([], c)
      else let header = take ENVELOPE_HEADER_SIZE stream;
               blob_len = be_val (take 4 (drop 19 header));
               rest = drop ENVELOPE_HEADER_SIZE stream
           in if MAX_BLOB < blob_len then ([Siem PARSE_ERR], c)
              else if length rest < blob_len then ([], c)
              else case egress_envelope H m load proto c (header @ take blob_len rest) of
                (Ok evs, c') \<Rightarrow>
                   (case handle_egress H m load proto c' (drop blob_len rest) of (evs', c'') \<Rightarrow> (evs @ evs', c''))
              | (_, c') \<Rightarrow> ([], c'))"
  by pat_completeness auto
termination
  by (relation "measure (\<lambda>(H, m, load, proto, c, stream). length stream)") auto

declare handle_egress.simps [simp del]

section \<open>Facts\<close>

text \<open>
  The complete envelopes that the reads of the loop cut from the bytes of a connection, in
  order, and the writes to the forward connection among the events.
\<close>

function egress_reads :: "bytes \<Rightarrow> bytes list" where
  "egress_reads stream =
     (if length stream < ENVELOPE_HEADER_SIZE then []
      else let header = take ENVELOPE_HEADER_SIZE stream;
               blob_len = be_val (take 4 (drop 19 header));
               rest = drop ENVELOPE_HEADER_SIZE stream
           in if MAX_BLOB < blob_len \<or> length rest < blob_len then []
              else (header @ take blob_len rest) # egress_reads (drop blob_len rest))"
  by pat_completeness auto
termination
  by (relation "measure length") auto

declare egress_reads.simps [simp del]

fun forwarded :: "gw_event list \<Rightarrow> bytes list" where
  "forwarded [] = []"
| "forwarded (Forward wire # evs) = wire # forwarded evs"
| "forwarded (_ # evs) = forwarded evs"

text \<open>
  A delivery is an envelope with the header and the data unit it opened to. It is backed when
  the envelope opened so under the key of its device and its number was beyond the window; two
  deliveries are in order when they do not repeat or reverse the numbers of one device.
\<close>

type_synonym delivery = "bytes \<times> OtAad \<times> bytes"

fun delivery_backed :: "mac \<Rightarrow> module_state \<Rightarrow> key_load \<Rightarrow> SequenceCounter \<Rightarrow> delivery \<Rightarrow> bool" where
  "delivery_backed H m load c (env, aad, pdu) \<longleftrightarrow>
     (\<exists>key. load (device_id aad) = Ok key \<and> open_envelope H m env key = Ok (aad, pdu)) \<and>
     last_seen c (protocol aad, device_id aad) < seq aad"

fun delivery_before :: "delivery \<Rightarrow> delivery \<Rightarrow> bool" where
  "delivery_before (_, a, _) (_, b, _) \<longleftrightarrow>
     (protocol a = protocol b \<and> device_id a = device_id b \<longrightarrow> seq a < seq b)"

fun delivery_wire :: "ProtocolId \<Rightarrow> delivery \<Rightarrow> bytes" where
  "delivery_wire proto (_, _, pdu) =
     forward_envelope (case proto of ModbusTcp \<Rightarrow> reassemble_modbus pdu | Dnp3 \<Rightarrow> pdu)"

lemma delivery_backed_mono:
  assumes "list_all (delivery_backed H m load c') ds" "\<And>k. last_seen c k \<le> last_seen c' k"
  shows "list_all (delivery_backed H m load c) ds"
proof -
  have "delivery_backed H m load c d" if "delivery_backed H m load c' d" for d
    using that le_less_trans [OF assms(2)] by (cases d) auto
  then show ?thesis using assms(1) by (auto simp: list_all_iff)
qed

lemma forwarded_append [simp]: "forwarded (xs @ ys) = forwarded xs @ forwarded ys"
  by (induction xs rule: forwarded.induct) auto

lemma forwarded_iff: "wire \<in> set (forwarded evs) \<longleftrightarrow> Forward wire \<in> set evs"
  by (induction evs rule: forwarded.induct) auto

lemma egress_reads_consume: "\<exists>rest. stream = concat (egress_reads stream) @ rest"
proof (induction stream rule: egress_reads.induct)
  case (1 stream)
  let ?n = "be_val (take 4 (drop 19 (take 23 stream)))"
  show ?case
  proof (cases "length stream < 23 \<or> MAX_BLOB < ?n \<or> length (drop 23 stream) < ?n")
    case True
    then have "egress_reads stream = []" by (subst egress_reads.simps) (auto simp: Let_def)
    then show ?thesis by simp
  next
    case False
    then have e: "egress_reads stream = (take 23 stream @ take ?n (drop 23 stream)) # egress_reads (drop ?n (drop 23 stream))"
      by (subst egress_reads.simps) (simp add: Let_def not_less)
    obtain rest where "drop ?n (drop 23 stream) = concat (egress_reads (drop ?n (drop 23 stream))) @ rest"
      using "1.IH" [OF _ refl refl refl] False by auto
    then have "stream = concat (egress_reads stream) @ rest"
      unfolding e by (metis append.assoc append_take_drop_id concat.simps(2))
    then show ?thesis by blast
  qed
qed

lemma parse_header_device:
  "parse_envelope_header buf = Ok (p, d, s, st, n) \<Longrightarrow> peek_device_id buf = Some d"
  by (auto simp: parse_envelope_header_def peek_device_id_def Let_def split: if_splits option.splits)

lemma open_envelope_device:
  "open_envelope H m buf key = Ok (aad, pdu) \<Longrightarrow> peek_device_id buf = Some (device_id aad)"
  by (auto simp: open_envelope_def Let_def dest: parse_header_device)

text \<open>The receive window only moves forward, and to the number of the unit it accepts.\<close>

lemma unwrap_counters:
  assumes "unwrap_pdu H m env key c = (r, c')"
  shows "send_state c' = send_state c" and "last_seen c k \<le> last_seen c' k"
    and "open_envelope H m env key = Ok (aad, pdu) \<Longrightarrow> r = Ok pdu' \<Longrightarrow>
      last_seen c (protocol aad, device_id aad) < seq aad \<and> last_seen c' (protocol aad, device_id aad) = seq aad"
proof -
  have v: "send_state c'' = send_state c" if "validate_recv c p d n = (r', c'')" for p d n r' c''
    using that by (auto simp: validate_recv_def Let_def split: if_splits)
  show "send_state c' = send_state c"
    using assms v by (cases rule: unwrap_pdu_cases [of H m env key c]) auto
  show "last_seen c k \<le> last_seen c' k"
    using assms by (cases rule: unwrap_pdu_cases [of H m env key c])
      (auto simp: validate_recv_last_seen less_imp_le)
  show "open_envelope H m env key = Ok (aad, pdu) \<Longrightarrow> r = Ok pdu' \<Longrightarrow>
      last_seen c (protocol aad, device_id aad) < seq aad \<and> last_seen c' (protocol aad, device_id aad) = seq aad"
    using assms by (cases rule: unwrap_pdu_cases [of H m env key c])
      (auto simp: validate_recv_last_seen)
qed

lemma egress_envelope_cases:
  assumes "egress_envelope H m load proto c env = (Ok evs, c')"
  obtains (silent) "forwarded evs = []" "\<And>k. last_seen c k \<le> last_seen c' k"
    | (delivered) aad pdu where "forwarded evs = [delivery_wire proto (env, aad, pdu)]"
      "delivery_backed H m load c (env, aad, pdu)" "\<And>k. last_seen c k \<le> last_seen c' k"
      "last_seen c' (protocol aad, device_id aad) = seq aad"
proof -
  have "(\<exists>e. evs = [Siem e]) \<and> (\<forall>k. last_seen c k \<le> last_seen c' k) \<or>
     (\<exists>dev key pdu. peek_device_id env = Some dev \<and> load dev = Ok key \<and> unwrap_pdu H m env key c = (Ok pdu, c') \<and>
        evs = [Forward (forward_envelope (case proto of ModbusTcp \<Rightarrow> reassemble_modbus pdu | Dnp3 \<Rightarrow> pdu))])"
  proof (cases "\<exists>dev key. peek_device_id env = Some dev \<and> load dev = Ok key")
    case True
    then obtain dev key where d: "peek_device_id env = Some dev" "load dev = Ok key" by blast
    obtain r c1 where u: "unwrap_pdu H m env key c = (r, c1)" by (metis prod.exhaust)
    show ?thesis
      using assms d u unwrap_counters(2) [OF u] by (cases r) (auto simp: egress_envelope_def)
  next
    case False
    then show ?thesis using assms by (auto simp: egress_envelope_def split: option.splits res.splits)
  qed
  then consider (report) e where "evs = [Siem e]" "\<And>k. last_seen c k \<le> last_seen c' k"
    | (ok) dev key pdu where "peek_device_id env = Some dev" "load dev = Ok key"
        "unwrap_pdu H m env key c = (Ok pdu, c')"
        "evs = [Forward (forward_envelope (case proto of ModbusTcp \<Rightarrow> reassemble_modbus pdu | Dnp3 \<Rightarrow> pdu))]"
    by blast
  then show thesis
  proof cases
    case report
    then show thesis using silent by simp
  next
    case ok
    obtain aad where o: "open_envelope H m env key = Ok (aad, pdu)"
      using ok(3) by (cases rule: unwrap_pdu_cases [of H m env key c]) auto
    then have "dev = device_id aad" using ok(1) open_envelope_device by fastforce
    then show thesis
      using delivered [of aad pdu] ok o unwrap_counters(2) [OF ok(3)] unwrap_counters(3) [OF ok(3) o refl] by auto
  qed
qed

text \<open>What one run of the loop does, by cases on its first read.\<close>

lemma handle_egress_unfold:
  assumes "handle_egress H m load proto c stream = (evs, c')"
  obtains (ends) "forwarded evs = []" "egress_reads stream = []"
    | (dies) env envs where "evs = []" "egress_reads stream = env # envs"
    | (reads) env rest es c1 evs2 where "egress_reads stream = env # egress_reads rest" "length rest < length stream"
      "egress_envelope H m load proto c env = (Ok es, c1)" "handle_egress H m load proto c1 rest = (evs2, c')"
      "evs = es @ evs2"
proof -
  let ?n = "be_val (take 4 (drop 19 (take 23 stream)))"
  let ?env = "take 23 stream @ take ?n (drop 23 stream)" and ?rest = "drop ?n (drop 23 stream)"
  obtain r c1 where r: "egress_envelope H m load proto c ?env = (r, c1)" by (metis prod.exhaust)
  show thesis
  proof (cases "length stream < 23 \<or> MAX_BLOB < ?n \<or> length (drop 23 stream) < ?n")
    case True
    then have "egress_reads stream = []" by (subst egress_reads.simps) (auto simp: Let_def)
    moreover have "forwarded evs = []"
      using True assms by (subst (asm) handle_egress.simps) (auto simp: Let_def split: if_splits)
    ultimately show thesis using ends by blast
  next
    case False
    then have e: "egress_reads stream = ?env # egress_reads ?rest"
      by (subst egress_reads.simps) (simp add: Let_def not_less)
    obtain evs2 c2 where rec: "handle_egress H m load proto c1 ?rest = (evs2, c2)" by (metis prod.exhaust)
    have "23 \<le> length stream" using False by simp
    then have len: "length ?rest < length stream" unfolding length_drop by linarith
    have h: "(evs, c') = (case r of Ok es \<Rightarrow> (es @ evs2, c2) | _ \<Rightarrow> ([], c1))"
      using assms False r rec
      by (subst (asm) handle_egress.simps) (auto simp: Let_def not_less split: res.splits)
    show thesis
      using dies [OF _ e] reads [OF e len _ _, of _ c1 evs2] h r rec by (cases r) auto
  qed
qed

lemma handle_egress_deliveries:
  "handle_egress H m load proto c stream = (evs, c') \<Longrightarrow>
   \<exists>ds. map fst ds \<in> set (subseqs (egress_reads stream)) \<and> forwarded evs = map (delivery_wire proto) ds \<and>
     list_all (delivery_backed H m load c) ds \<and> sorted_wrt delivery_before ds"
proof (induction "length stream" arbitrary: c stream evs rule: less_induct)
  case less
  from less.prems show ?case
  proof (cases rule: handle_egress_unfold)
    case (reads env rest es c1 evs2)
    obtain ds where ds: "map fst ds \<in> set (subseqs (egress_reads rest))" "forwarded evs2 = map (delivery_wire proto) ds"
        "list_all (delivery_backed H m load c1) ds" "sorted_wrt delivery_before ds"
      using less.hyps [OF reads(2,4)] by blast
    from reads(3) show ?thesis
    proof (cases rule: egress_envelope_cases)
      case silent
      have "list_all (delivery_backed H m load c) ds" using ds(3) silent(2) by (rule delivery_backed_mono)
      then show ?thesis using ds reads silent by (intro exI [of _ ds]) (auto simp: Let_def)
    next
      case (delivered aad pdu)
      have "list_all (delivery_backed H m load c) ((env, aad, pdu) # ds)"
        using delivery_backed_mono [OF ds(3) delivered(3)] delivered(2) by simp
      moreover have "sorted_wrt delivery_before ((env, aad, pdu) # ds)"
        using ds(3,4) delivered(4) unfolding list_all_iff by fastforce
      ultimately show ?thesis
        using ds reads delivered(1) by (intro exI [of _ "(env, aad, pdu) # ds"]) (auto simp: Let_def)
    qed
  qed (use Cons_in_subseqsD in \<open>auto simp: Let_def\<close>)
qed

lemma be_bytes_four_hd: "n < 2 ^ 24 \<Longrightarrow> hd (be_bytes 4 n) = 0" and be_bytes_four_nonempty: "be_bytes 4 n \<noteq> []"
proof -
  have four: "(4 :: nat) = Suc (Suc (Suc (Suc 0)))" by simp
  have "hd (be_bytes 4 n) = of_nat (n div 256 div 256 div 256)" unfolding four by simp
  then show "hd (be_bytes 4 n) = 0" if "n < 2 ^ 24" using that by simp
  show "be_bytes 4 n \<noteq> []" unfolding four by simp
qed

lemma forwarded_magic:
  assumes "length env < 2 ^ 24"
  shows "peek_device_id (take n (forward_envelope env) @ rest) \<noteq> None \<Longrightarrow> n = 0"
proof (rule ccontr)
  assume p: "peek_device_id (take n (forward_envelope env) @ rest) \<noteq> None" and n: "n \<noteq> 0"
  note be_bytes_four_hd [OF assms] be_bytes_four_nonempty [of "length env"]
  then have "hd (take n (forward_envelope env) @ rest) = 0"
    using n by (cases "be_bytes 4 (length env)"; cases n) (simp_all add: forward_envelope_def)
  moreover from p have "take 2 (take n (forward_envelope env) @ rest) = ENVELOPE_MAGIC"
    by (simp add: peek_device_id_def split: if_splits)
  ultimately show False
    by (cases "take n (forward_envelope env) @ rest") (simp_all add: ENVELOPE_MAGIC_def)
qed

section \<open>Composition with the frame layer\<close>

lemma peek_device_wrapped:
  "peek_device_id (ENVELOPE_MAGIC @ [b] @ word_bytes d @ word_bytes s @ be_bytes 4 n @ blob) = Some d"
proof -
  let ?buf = "ENVELOPE_MAGIC @ [b] @ word_bytes d @ word_bytes s @ be_bytes 4 n @ blob"
  have "drop 3 ?buf = word_bytes d @ word_bytes s @ be_bytes 4 n @ blob" "take 2 ?buf = ENVELOPE_MAGIC"
    by (simp_all add: ENVELOPE_MAGIC_def)
  then show ?thesis by (simp add: peek_device_id_def)
qed

lemma egress_reads_wrapped:
  assumes "operational m" "usable_key key" "length pdu \<le> MAX_PLAINTEXT_CODEPOINTS"
    and "wrap_pdu H m pdu aad key = Ok env"
  shows "egress_reads (env @ rest) = env # egress_reads rest"
proof -
  obtain blob where env: "env = ENVELOPE_MAGIC @ [proto_u8 (protocol aad)] @ word_bytes (device_id aad)
      @ word_bytes (seq aad) @ be_bytes 4 (length blob) @ blob" and blob: "length blob \<le> 48 + 160 * 65538"
    by (rule wrapped_shape [OF assms])
  define hdr where "hdr = ENVELOPE_MAGIC @ [proto_u8 (protocol aad)] @ word_bytes (device_id aad)
      @ word_bytes (seq aad) @ be_bytes 4 (length blob)"
  have hdr: "take 23 (env @ rest) = hdr" "drop 23 (env @ rest) = blob @ rest" "hdr @ blob = env"
    by (simp_all add: env hdr_def ENVELOPE_MAGIC_def)
  have len: "be_val (take 4 (drop 19 hdr)) = length blob"
    using blob by (simp add: hdr_def ENVELOPE_MAGIC_def)
  have "\<not> length (env @ rest) < 23" "\<not> MAX_BLOB < length blob"
    using blob by (simp_all add: env MAX_BLOB_def)
  then show ?thesis
    by (subst egress_reads.simps)
      (simp add: hdr len Let_def del: length_append take_append drop_append, simp)
qed

lemma handle_egress_wrapped:
  assumes "operational m" "usable_key key" "length pdu \<le> MAX_PLAINTEXT_CODEPOINTS"
    and "wrap_pdu H m pdu aad key = Ok env" "load (device_id aad) = Ok key"
    and "last_seen c (protocol aad, device_id aad) < seq aad"
  obtains c' where "handle_egress H m load proto c (env @ rest) =
      (case handle_egress H m load proto c' rest of
         (evs, c'') \<Rightarrow> (Forward (forward_envelope (case proto of ModbusTcp \<Rightarrow> reassemble_modbus pdu | Dnp3 \<Rightarrow> pdu)) # evs, c''))"
    "last_seen c' (protocol aad, device_id aad) = seq aad"
proof -
  obtain blob where env: "env = ENVELOPE_MAGIC @ [proto_u8 (protocol aad)] @ word_bytes (device_id aad)
      @ word_bytes (seq aad) @ be_bytes 4 (length blob) @ blob"
      and blob: "length blob \<le> 48 + 160 * 65538" and opn: "open_envelope H m env key = Ok (aad, pdu)"
    by (rule wrapped_shape [OF assms(1-4)])
  obtain c' where c': "unwrap_pdu H m env key c = (Ok pdu, c')" "last_seen c' (protocol aad, device_id aad) = seq aad"
    by (rule unwrap_opened [OF opn assms(6)])
  define hdr where "hdr = ENVELOPE_MAGIC @ [proto_u8 (protocol aad)] @ word_bytes (device_id aad)
      @ word_bytes (seq aad) @ be_bytes 4 (length blob)"
  have hdr: "take 23 (env @ rest) = hdr" "drop 23 (env @ rest) = blob @ rest" "hdr @ blob = env"
    by (simp_all add: env hdr_def ENVELOPE_MAGIC_def)
  have len: "be_val (take 4 (drop 19 hdr)) = length blob"
    using blob by (simp add: hdr_def ENVELOPE_MAGIC_def)
  have "peek_device_id env = Some (device_id aad)" unfolding env by (rule peek_device_wrapped)
  then have "egress_envelope H m load proto c env =
      (Ok [Forward (forward_envelope (case proto of ModbusTcp \<Rightarrow> reassemble_modbus pdu | Dnp3 \<Rightarrow> pdu))], c')"
    using c'(1) assms(5) by (simp add: egress_envelope_def)
  moreover have "\<not> length (env @ rest) < 23" by (simp add: env)
  moreover have "\<not> MAX_BLOB < length blob" using blob by (simp add: MAX_BLOB_def)
  ultimately have "handle_egress H m load proto c (env @ rest) =
      (case handle_egress H m load proto c' rest of
         (evs, c'') \<Rightarrow> (Forward (forward_envelope (case proto of ModbusTcp \<Rightarrow> reassemble_modbus pdu | Dnp3 \<Rightarrow> pdu)) # evs, c''))"
    by (subst handle_egress.simps)
      (simp add: hdr len Let_def del: length_append take_append drop_append, simp)
  then show thesis using that c'(2) by blast
qed

section \<open>Properties\<close>

text \<open>
  C8: the egress gateway never forwards unauthenticated or replayed data. Whatever bytes arrive
  on a connection, the reads of the loop cut them into complete envelopes from the front, and
  the frames it forwards are, one for one and in order, the reassembled contents of some of
  exactly these envelopes: each of them opened under the key the store holds for the device it
  names, with a sequence number beyond the receive window of that device at the start, and the
  numbers of one device strictly increase along the connection.
\<close>

theorem egress_forwards_only_authenticated:
  assumes "handle_egress H m load proto c stream = (evs, c')"
  shows "(\<exists>rest. stream = concat (egress_reads stream) @ rest) \<and>
    (\<exists>ds. map fst ds \<in> set (subseqs (egress_reads stream)) \<and>
       forwarded evs =
         map (\<lambda>(env, aad, pdu). forward_envelope (case proto of ModbusTcp \<Rightarrow> reassemble_modbus pdu | Dnp3 \<Rightarrow> pdu)) ds \<and>
       (\<forall>(env, aad, pdu) \<in> set ds. last_seen c (protocol aad, device_id aad) < seq aad \<and>
          (\<exists>key. load (device_id aad) = Ok key \<and> open_envelope H m env key = Ok (aad, pdu))) \<and>
       sorted_wrt (\<lambda>(_, a, _) (_, b, _). protocol a = protocol b \<and> device_id a = device_id b \<longrightarrow> seq a < seq b) ds)"
proof -
  obtain ds where ds: "map fst ds \<in> set (subseqs (egress_reads stream))" "forwarded evs = map (delivery_wire proto) ds"
      "list_all (delivery_backed H m load c) ds" "sorted_wrt delivery_before ds"
    using handle_egress_deliveries [OF assms] by blast
  have "delivery_wire proto = (\<lambda>(env, aad, pdu). forward_envelope (case proto of ModbusTcp \<Rightarrow> reassemble_modbus pdu | Dnp3 \<Rightarrow> pdu))"
    "delivery_before = (\<lambda>(_, a, _) (_, b, _). protocol a = protocol b \<and> device_id a = device_id b \<longrightarrow> seq a < seq b)"
    by (auto simp: fun_eq_iff)
  moreover have "\<forall>(env, aad, pdu) \<in> set ds. last_seen c (protocol aad, device_id aad) < seq aad \<and>
      (\<exists>key. load (device_id aad) = Ok key \<and> open_envelope H m env key = Ok (aad, pdu))"
    using ds(3) by (auto simp: list_all_iff)
  ultimately show ?thesis using ds(1,2,4) egress_reads_consume [of stream] by (intro conjI exI [of _ ds]) simp_all
qed

text \<open>
  The egress gateway delivers. An envelope that was wrapped under the key the store holds
  for its device, with a sequence number beyond the window, is consumed exactly, its data unit
  is forwarded first, the window advances, and the loop continues with the rest of the
  connection.
\<close>

lemma egress_delivers_wrapped:
  assumes "fips_check m = Ok ()" "NapqesKey_new ps sk = Ok key" "length pdu \<le> 0xFFFF"
    and "wrap_pdu H m pdu aad key = Ok env" "load (device_id aad) = Ok key"
    and "last_seen c (protocol aad, device_id aad) < seq aad"
  shows "\<exists>c'. last_seen c' (protocol aad, device_id aad) = seq aad \<and>
     handle_egress H m load proto c (env @ rest) =
       (case handle_egress H m load proto c' rest of (evs, c'') \<Rightarrow>
          (Forward (forward_envelope (case proto of ModbusTcp \<Rightarrow> reassemble_modbus pdu | Dnp3 \<Rightarrow> pdu)) # evs, c''))"
  using handle_egress_wrapped [of m key pdu H aad env load c proto rest] assms NapqesKey_new_Ok [OF assms(2)]
  by (auto simp: operational_def)

lemma sample_wrapped:
  obtains env where "wrap_pdu (\<lambda>_ _. 0) open_module [5] \<lparr>protocol = Dnp3, device_id = 3, seq = 1\<rparr>
      \<lparr>key_primes = sample_key, key_sk = []\<rparr> = Ok env"
  using open_wrapped [of open_module "\<lparr>key_primes = sample_key, key_sk = []\<rparr>" "[5]" "\<lambda>_ _. 0"
      "\<lparr>protocol = Dnp3, device_id = 3, seq = 1\<rparr>"] NapqesKey_new_Ok [OF sample_napqes_key]
  by (auto simp: operational_def)

theorem egress_forwards_only_authenticated_witness:
  "\<exists>env aad. forwarded (fst (handle_egress (\<lambda>_ _. 0) open_module (\<lambda>_. Ok \<lparr>key_primes = sample_key, key_sk = []\<rparr>) Dnp3
        SequenceCounter_new (env @ [0xE1, 0xF5]))) = [forward_envelope [5]] \<and>
     egress_reads (env @ [0xE1, 0xF5]) = [env] \<and>
     open_envelope (\<lambda>_ _. 0) open_module env \<lparr>key_primes = sample_key, key_sk = []\<rparr> = Ok (aad, [5])"
proof -
  let ?key = "\<lparr>key_primes = sample_key, key_sk = []\<rparr>"
  let ?run = "handle_egress (\<lambda>_ _. 0) open_module (\<lambda>_. Ok ?key) Dnp3"
  obtain env where env: "wrap_pdu (\<lambda>_ _. 0) open_module [5] \<lparr>protocol = Dnp3, device_id = 3, seq = 1\<rparr> ?key = Ok env"
    by (rule sample_wrapped)
  have u: "operational open_module" "usable_key ?key" using NapqesKey_new_Ok [OF sample_napqes_key]
    by (simp_all add: operational_def)
  let ?s = "env @ [0xE1, 0xF5]"
  have short: "egress_reads [0xE1, 0xF5] = []" "?run c [0xE1, 0xF5] = ([], c)" for c
    by (subst egress_reads.simps, simp) (subst handle_egress.simps, simp)
  obtain c' where r: "?run SequenceCounter_new ?s = ([Forward (forward_envelope [5])], c')"
    by (rule handle_egress_wrapped [OF u _ env, of "\<lambda>_. Ok ?key" SequenceCounter_new Dnp3 "[0xE1, 0xF5]"])
      (auto simp: short last_seen_def entry_or_0_def SequenceCounter_new_def)
  have reads: "egress_reads ?s = [env]"
    using egress_reads_wrapped [OF u _ env, of "[0xE1, 0xF5]"] short(1) by simp
  obtain aad where "open_envelope (\<lambda>_ _. 0) open_module env ?key = Ok (aad, [5])"
    using egress_forwards_only_authenticated [OF r] unfolding reads by (auto simp: forward_envelope_def)
  then show ?thesis using r reads by (intro exI [of _ env] exI [of _ aad]) simp
qed

text \<open>
  The ingress gateway seals. A Modbus frame the extractor accepts, from a device the store
  has a key for, is forwarded as one envelope that opens to the data unit, with the unit
  identifier and the next sequence number authenticated; the counter advances.
\<close>

lemma ingress_seals_modbus:
  assumes "fips_check m = Ok ()" "NapqesKey_new ps sk = Ok key"
    and "extract_pdu frame = Ok (hdr, pdu)" "load (ucast (unit_id hdr)) = Ok key"
    and "entry_or_0 (send_state c) (ModbusTcp, ucast (unit_id hdr)) = s" "s \<noteq> - 1"
  shows "\<exists>env c'. ingress_modbus_frame H m load c frame = (Ok [Forward (forward_envelope env)], c') \<and>
     open_envelope H m env key =
       Ok (\<lparr>protocol = ModbusTcp, device_id = ucast (unit_id hdr), seq = s + 1\<rparr>, pdu) \<and>
     send_state c' = (send_state c)((ModbusTcp, ucast (unit_id hdr)) \<mapsto> s + 1)"
proof -
  have "length pdu \<le> MAX_PLAINTEXT_CODEPOINTS"
    using extract_pdu_cases(2) [OF assms(3)] unat_u16_less [of "mbap_length hdr"] by simp
  then obtain env where env: "wrap_pdu H m pdu \<lparr>protocol = ModbusTcp, device_id = ucast (unit_id hdr), seq = s + 1\<rparr> key = Ok env"
      "open_envelope H m env key = Ok (\<lparr>protocol = ModbusTcp, device_id = ucast (unit_id hdr), seq = s + 1\<rparr>, pdu)"
    using open_wrapped assms(1) NapqesKey_new_Ok [OF assms(2)] by (metis operational_def)
  then show ?thesis
    using assms(3-6) by (intro exI [of _ env]) (simp add: ingress_modbus_frame_def ingress_seal_def next_seq_def Let_def)
qed

text \<open>
  What the egress loop makes of the length-prefixed bytes of one envelope: the prefix shifts
  the header by four bytes, so that the low half of the sequence number is read as the length.
\<close>

lemma be_val_low_half: "be_val (drop 4 (word_bytes w)) = unat w mod 2 ^ 32"
  using be_bytes_split [of 4 4 "unat w"] by (simp add: word_bytes_def)

lemma egress_misread:
  assumes "operational m" "usable_key key" "length pdu \<le> MAX_PLAINTEXT_CODEPOINTS"
    and "wrap_pdu H m pdu aad key = Ok env"
  shows "take 23 (forward_envelope env @ rest) = be_bytes 4 (length env) @ take 19 env"
    and "drop 23 (forward_envelope env @ rest) = drop 19 env @ rest"
    and "be_val (take 4 (drop 19 (be_bytes 4 (length env) @ take 19 env))) = unat (seq aad) mod 2 ^ 32"
    and "23 \<le> length env" "hd env \<noteq> 0" "length env < 2 ^ 24"
proof -
  obtain blob where env: "env = ENVELOPE_MAGIC @ [proto_u8 (protocol aad)] @ word_bytes (device_id aad)
      @ word_bytes (seq aad) @ be_bytes 4 (length blob) @ blob" and blob: "length blob \<le> 48 + 160 * 65538"
    by (rule wrapped_shape [OF assms])
  show l: "23 \<le> length env" "length env < 2 ^ 24" using blob by (simp_all add: env)
  show "hd env \<noteq> 0" by (simp add: env ENVELOPE_MAGIC_def)
  show "take 23 (forward_envelope env @ rest) = be_bytes 4 (length env) @ take 19 env"
    "drop 23 (forward_envelope env @ rest) = drop 19 env @ rest"
    using l by (simp_all add: forward_envelope_def)
  have "take 4 (drop 19 (be_bytes 4 (length env) @ take 19 env)) = drop 4 (word_bytes (seq aad))"
    by (simp add: env ENVELOPE_MAGIC_def)
  then show "be_val (take 4 (drop 19 (be_bytes 4 (length env) @ take 19 env))) = unat (seq aad) mod 2 ^ 32"
    by (simp add: be_val_low_half)
qed

lemma egress_reads_length: "env \<in> set (egress_reads stream) \<Longrightarrow> length env \<le> length stream"
proof -
  assume "env \<in> set (egress_reads stream)"
  then have "length env \<le> length (concat (egress_reads stream))"
    by (auto simp: length_concat intro: member_le_sum_list)
  moreover obtain rest where "stream = concat (egress_reads stream) @ rest" using egress_reads_consume by blast
  then have "length (concat (egress_reads stream)) \<le> length stream" by (metis length_append le_add1)
  ultimately show ?thesis by linarith
qed

text \<open>
  C40: what the ingress gateway puts on the wire is not what the egress gateway parses. The
  ingress side opens a connection per envelope and writes a four-byte length in front of it;
  the egress loop takes the first 23 bytes for the envelope header, finds the low 32 bits of the
  sequence number where the length of the blob should be, and then, whatever module, store and
  window it has: closes the connection with a parse error when that number exceeds the largest
  blob, closes it silently when fewer bytes are left, and otherwise reports a parse error and
  goes on in the middle of the envelope. The envelope itself is never among the envelopes that
  the loop reads from the connection.
\<close>

theorem ingress_wire_misread_by_egress:
  assumes "fips_check m = Ok ()" "NapqesKey_new ps sk = Ok key" "length pdu \<le> 0xFFFF"
    and "wrap_pdu H m pdu aad key = Ok env"
  shows "handle_egress H' m' load proto c (forward_envelope env) =
     (let n = unat (seq aad) mod 2 ^ 32
      in if MAX_BLOB < n then ([Siem PARSE_ERR], c)
         else if length env - 19 < n then ([], c)
         else case handle_egress H' m' load proto c (drop n (drop 19 env)) of (evs, c') \<Rightarrow> (Siem PARSE_ERR # evs, c'))
   \<and> env \<notin> set (egress_reads (forward_envelope env))"
proof -
  have u: "operational m" "usable_key key" "length pdu \<le> MAX_PLAINTEXT_CODEPOINTS"
    using assms(1,3) NapqesKey_new_Ok [OF assms(2)] by (simp_all add: operational_def)
  note mis = egress_misread(1,2) [OF u assms(4), of "[]", unfolded append_Nil2] egress_misread(3-6) [OF u assms(4)]
  let ?n = "unat (seq aad) mod 2 ^ 32" and ?hdr = "be_bytes 4 (length env) @ take 19 env"
  have fw: "forward_envelope env = ?hdr @ drop 19 env" by (simp add: forward_envelope_def)
  have long: "\<not> length (forward_envelope env) < 23" using mis(4) by (simp add: forward_envelope_def)
  have left: "length (drop 19 env) = length env - 19" by simp
  have "peek_device_id (?hdr @ bs) = None" for bs
    using forwarded_magic [OF mis(6), of 23 bs] mis(1) by (cases "peek_device_id (?hdr @ bs)") auto
  then have bad: "egress_envelope H' m' load proto c (?hdr @ bs) = (Ok [Siem PARSE_ERR], c)" for bs
    by (simp add: egress_envelope_def)
  have "handle_egress H' m' load proto c (forward_envelope env) =
     (let n = ?n
      in if MAX_BLOB < n then ([Siem PARSE_ERR], c)
         else if length env - 19 < n then ([], c)
         else case handle_egress H' m' load proto c (drop n (drop 19 env)) of (evs, c') \<Rightarrow> (Siem PARSE_ERR # evs, c'))"
    unfolding Let_def
    by (subst handle_egress.simps)
      (simp only: ENVELOPE_HEADER_SIZE_def long mis(1-3) left bad Let_def if_False res.case prod.case append_Cons append_Nil)
  moreover have "env \<notin> set (egress_reads (forward_envelope env))"
  proof
    assume "env \<in> set (egress_reads (forward_envelope env))"
    then consider "env = ?hdr @ take ?n (drop 19 env)" | "env \<in> set (egress_reads (drop ?n (drop 19 env)))"
      by (subst (asm) egress_reads.simps)
        (auto simp only: ENVELOPE_HEADER_SIZE_def long mis(1-3) Let_def if_False list.set insert_iff empty_iff split: if_splits)
    then show False
    proof cases
      case 1
      have "hd env = 0"
        using arg_cong [OF 1, of hd] be_bytes_four_hd [OF mis(6)] be_bytes_four_nonempty [of "length env"] by simp
      then show False using mis(5) by simp
    next
      case 2
      from egress_reads_length [OF this] mis(4) show False by simp
    qed
  qed
  ultimately show ?thesis by blast
qed

theorem ingress_wire_misread_by_egress_witness:
  "\<exists>env evs. handle_egress (\<lambda>_ _. 0) open_module (\<lambda>_. Ok \<lparr>key_primes = sample_key, key_sk = []\<rparr>) Dnp3 SequenceCounter_new
       (forward_envelope env) = (Siem PARSE_ERR # fst evs, snd evs) \<and>
     evs = handle_egress (\<lambda>_ _. 0) open_module (\<lambda>_. Ok \<lparr>key_primes = sample_key, key_sk = []\<rparr>) Dnp3 SequenceCounter_new
       (drop 20 env) \<and>
     egress_reads env = [env] \<and> env \<notin> set (egress_reads (forward_envelope env))"
proof -
  let ?key = "\<lparr>key_primes = sample_key, key_sk = []\<rparr>"
  obtain env where env: "wrap_pdu (\<lambda>_ _. 0) open_module [5] \<lparr>protocol = Dnp3, device_id = 3, seq = 1\<rparr> ?key = Ok env"
    by (rule sample_wrapped)
  have u: "operational open_module" "usable_key ?key" using NapqesKey_new_Ok [OF sample_napqes_key]
    by (simp_all add: operational_def)
  have "23 \<le> length env" by (rule egress_misread(4) [OF u _ env]) simp
  moreover have "egress_reads env = [env]"
    using egress_reads_wrapped [OF u _ env, of "[]"] by (simp add: egress_reads.simps [of "[]"])
  ultimately show ?thesis
    using ingress_wire_misread_by_egress [OF fips_check_open_module sample_napqes_key _ env, of "\<lambda>_ _. 0" open_module
        "\<lambda>_. Ok ?key" Dnp3 SequenceCounter_new]
    by (intro exI [of _ env]) (simp add: MAX_BLOB_def case_prod_beta)
qed

end
