(* ===== verification/Messages.thy ===== *)
theory Messages
  imports OtFrame ModbusPdu DnpPdu
begin

text \<open>
  The texts the crate prints: the \<open>Display\<close> implementations of the protocol extractors, of
  \<open>FrameError\<close> and of \<open>SelfTestError\<close> (\<open>rust/src/self_test.rs\<close>),
  \<open>ProtocolId::as_str\<close>, and the redacted \<open>Debug\<close> output of a key
  (\<open>rust/src/protocols/\<close>, \<open>rust/src/ot_frame.rs\<close>, \<open>rust/src/key.rs\<close>). The text of an error determines the error; the text of a key
  determines only its size.
\<close>

section \<open>Numbers\<close>

text \<open>\<open>{:04x}\<close>, \<open>{:02x}\<close> and \<open>{:x}\<close>; the decimal \<open>{}\<close> is \<open>dec_string\<close>.\<close>

definition hex_char :: "nat \<Rightarrow> char" where
  "hex_char d = char_of (if d < 10 then 48 + d else 87 + d)"

definition hex02 :: "byte \<Rightarrow> string" where
  "hex02 b = [hex_char (unat b div 16), hex_char (unat b mod 16)]"

definition hex04 :: "u16 \<Rightarrow> string" where
  "hex04 w = map (\<lambda>i. hex_char (unat w div 16 ^ i mod 16)) [3, 2, 1, 0]"

fun hex_string :: "nat \<Rightarrow> string" where
  "hex_string n = (if n < 16 then [hex_char n] else hex_string (n div 16) @ [hex_char (n mod 16)])"

declare hex_string.simps [simp del]

definition is_digit :: "char \<Rightarrow> bool" where
  "is_digit c \<longleftrightarrow> of_char c \<in> {48..57 :: nat}"

definition dec_value :: "string \<Rightarrow> nat" where
  "dec_value s = foldl (\<lambda>acc c. acc * 10 + (of_char c - 48)) 0 s"

lemma of_char_digit: "k < 10 \<Longrightarrow> of_char (char_of (48 + k) :: char) = (48 + k :: nat)"
  by (simp add: of_char_of)

lemma dec_string_digits: "list_all is_digit (dec_string n)"
proof (induction n rule: dec_string.induct)
  case (1 n)
  show ?case
  proof (cases "n < 10")
    case True
    then show ?thesis using of_char_digit [of n] by (simp add: dec_string.simps [of n] is_digit_def)
  next
    case False
    then show ?thesis using 1 of_char_digit [of "n mod 10"] by (simp add: dec_string.simps [of n] is_digit_def)
  qed
qed

lemma dec_value_dec_string: "dec_value (dec_string n) = n"
proof (induction n rule: dec_string.induct)
  case (1 n)
  show ?case
  proof (cases "n < 10")
    case True
    then show ?thesis using of_char_digit [of n] by (simp add: dec_string.simps [of n] dec_value_def)
  next
    case False
    then have "foldl (\<lambda>acc c. acc * 10 + (of_char c - 48)) 0 (dec_string (n div 10)) = n div 10"
      using 1 by (simp add: dec_value_def)
    then show ?thesis using False of_char_digit [of "n mod 10"] by (simp add: dec_string.simps [of n] dec_value_def)
  qed
qed

lemma dec_string_inj [simp]: "dec_string a = dec_string b \<longleftrightarrow> a = b"
  using dec_value_dec_string by metis

text \<open>A number followed by something that is not a digit can be read back.\<close>

lemma dec_string_split:
  assumes "dec_string a @ x # r = dec_string b @ x # r'" "\<not> is_digit x"
  shows "a = b \<and> r = r'"
proof -
  have "takeWhile is_digit (dec_string n @ x # s) = dec_string n" for n s
    using assms(2) dec_string_digits [of n] by (simp add: list_all_iff takeWhile_append2)
  then have "dec_string a = dec_string b" using assms(1) by metis
  with assms(1) show ?thesis by simp
qed

lemma dec_string_not: "\<not> is_digit x \<Longrightarrow> x \<notin> set (dec_string n)"
  using dec_string_digits [of n] by (auto simp: list_all_iff)

lemma of_hex_char: "d < 16 \<Longrightarrow> of_char (hex_char d) = (if d < 10 then 48 + d else 87 + d :: nat)"
  by (simp add: hex_char_def of_char_of)

lemma hex_char_inj:
  assumes "a < 16" "b < 16"
  shows "hex_char a = hex_char b \<longleftrightarrow> a = b"
proof
  assume "hex_char a = hex_char b"
  then have "(if a < 10 then 48 + a else 87 + a) = (if b < 10 then 48 + b else 87 + b)"
    using of_hex_char [OF assms(1)] of_hex_char [OF assms(2)] by argo
  then show "a = b" using assms by (simp split: if_splits)
qed simp

lemma hex02_inj [simp]: "hex02 a = hex02 b \<longleftrightarrow> a = b"
proof
  assume h: "hex02 a = hex02 b"
  have "unat x div 16 < 16" for x :: byte by (rule less_mult_imp_div_less) simp
  with h have "unat a div 16 = unat b div 16" "unat a mod 16 = unat b mod 16"
    by (simp_all add: hex02_def hex_char_inj)
  then have "unat a = unat b" by (metis div_mult_mod_eq)
  then show "a = b" by (simp add: word_unat_eq_iff)
qed simp

lemma hex04_inj [simp]: "hex04 a = hex04 b \<longleftrightarrow> a = b"
proof
  assume "hex04 a = hex04 b"
  then have d: "unat a div 4096 mod 16 = unat b div 4096 mod 16" "unat a div 256 mod 16 = unat b div 256 mod 16"
    "unat a div 16 mod 16 = unat b div 16 mod 16" "unat a mod 16 = unat b mod 16"
    by (simp_all add: hex04_def hex_char_inj)
  have join: "x = y" if "x div 16 = y div 16" "x mod 16 = y mod 16" for x y :: nat
    using that by (metis div_mult_mod_eq)
  have top: "unat w div 4096 mod 16 = unat w div 4096" for w :: u16
    using unat_u16_less [of w] by (intro mod_less less_mult_imp_div_less) simp
  have q: "x div 256 div 16 = x div 4096" "x div 16 div 16 = x div 256" for x :: nat
    using div_mult2_eq [of x 256 16] div_mult2_eq [of x 16 16] by simp_all
  have "unat a div 4096 = unat b div 4096" using d(1) unfolding top .
  then have "unat a div 256 = unat b div 256" using d(2) by - (rule join, simp_all only: q)
  then have "unat a div 16 = unat b div 16" using d(3) by - (rule join, simp_all only: q)
  then have "unat a = unat b" using d(4) by (rule join)
  then show "a = b" by (simp add: word_unat_eq_iff)
qed simp

section \<open>Errors\<close>

fun ModbusError_text :: "ModbusError \<Rightarrow> string" where
  "ModbusError_text (ModbusTooShort have_n need_n) =
     ''Modbus frame too short: have '' @ dec_string have_n @ '' need '' @ dec_string need_n"
| "ModbusError_text (BadProtocolId pid) = ''Modbus protocol_id must be 0x0000, got 0x'' @ hex04 pid"
| "ModbusError_text (LengthMismatch declared available) =
     ''Modbus length mismatch: declared '' @ dec_string declared @ '' available '' @ dec_string available"

fun DnpError_text :: "DnpError \<Rightarrow> string" where
  "DnpError_text (DnpTooShort have_n need_n) =
     ''DNP3 frame too short: have '' @ dec_string have_n @ '' need '' @ dec_string need_n"
| "DnpError_text (BadStartBytes b0 b1) = ''DNP3 bad start bytes: '' @ hex02 b0 @ hex02 b1"
| "DnpError_text (HeaderCrcMismatch expected got) =
     ''DNP3 header CRC mismatch: expected 0x'' @ hex04 expected @ '' got 0x'' @ hex04 got"
| "DnpError_text (InsufficientPayload declared available) =
     ''DNP3 payload mismatch: declared '' @ dec_string declared @ '' available '' @ dec_string available"

fun ProtocolId_as_str :: "ProtocolId \<Rightarrow> string" where
  "ProtocolId_as_str ModbusTcp = ''MODBUS''"
| "ProtocolId_as_str Dnp3 = ''DNP3''"

text \<open>The texts of \<open>FrameError\<close>; \<open>show_error\<close> is the text of a cipher error.\<close>

fun envelope_fault_text :: "envelope_fault \<Rightarrow> string" where
  "envelope_fault_text (BufferTooShort n) =
     ''buffer too short: '' @ dec_string n @ '' < '' @ dec_string ENVELOPE_HEADER_SIZE"
| "envelope_fault_text (BadMagic b0 b1) = ''bad magic: '' @ hex02 b0 @ hex02 b1"
| "envelope_fault_text (UnknownProtocol b) = ''unknown protocol_id 0x'' @ hex02 b"
| "envelope_fault_text (TruncatedBlob have_n want_n) =
     ''truncated blob: have '' @ dec_string have_n @ '' want '' @ dec_string want_n"

fun FrameError_text :: "(error \<Rightarrow> string) \<Rightarrow> FrameError \<Rightarrow> string" where
  "FrameError_text show_error (FrameAuthenticationFailed dev proto s) =
     ''AUTH_FAIL device_id=0x'' @ hex_string (unat dev) @ '' proto='' @ ProtocolId_as_str proto @
     '' seq='' @ dec_string (unat s)"
| "FrameError_text show_error (ReplayDetected dev proto s seen) =
     ''REPLAY device_id=0x'' @ hex_string (unat dev) @ '' proto='' @ ProtocolId_as_str proto @
     '' seq='' @ dec_string (unat s) @ '' last_seen='' @ dec_string (unat seen)"
| "FrameError_text show_error (MalformedEnvelope fault) = ''MALFORMED_ENVELOPE '' @ envelope_fault_text fault"
| "FrameError_text show_error (CryptoError e) = ''CRYPTO_ERROR '' @ show_error e"

fun SelfTestError_text :: "self_test_error \<Rightarrow> string" where
  "SelfTestError_text KatEncryptMismatch = ''KAT-1 FAIL: v7 encrypt output mismatch''"
| "SelfTestError_text KatDecryptMismatch = ''KAT-2 FAIL: v7 decrypt output mismatch''"
| "SelfTestError_text KatTamperNotRejected = ''KAT-3 FAIL: v7 tampered ciphertext was not rejected''"
| "SelfTestError_text KatV8EncryptFailed = ''KAT-4 FAIL: v8 encrypt round-trip failed''"
| "SelfTestError_text KatV8DecryptFailed = ''KAT-5 FAIL: v8 decrypt round-trip failed''"
| "SelfTestError_text KatV8StructuralAccept = ''KAT-6 FAIL: v8 structural-reject accepted malformed ciphertext''"
| "SelfTestError_text KatV8TamperNotRejected = ''KAT-7 FAIL: v8 tampered ciphertext was not rejected''"
| "SelfTestError_text KatKemFailed = ''KAT-8 FAIL: KEM derivation or pairwise-consistency test failed''"
| "SelfTestError_text KatStreamFailed = ''KAT-9..11 FAIL: v8 streaming known-answer test failed''"
| "SelfTestError_text BuildProvenanceMismatch = ''INT-1 FAIL: build-provenance check mismatch''"
| "SelfTestError_text IntegrityCheckFailed = ''INT-2 FAIL: software integrity check failed''"
| "SelfTestError_text NotOperationalPost = ''module not operational: power-on self-tests have not passed''"
| "SelfTestError_text (InternalError s) = ''SELF-TEST INTERNAL ERROR: '' @ s"

lemma length_hex [simp]: "length (hex02 b) = 2" "length (hex04 w) = 4"
  by (simp_all add: hex02_def hex04_def)

lemma not_digit_space: "\<not> is_digit CHR '' ''"
  by (simp add: is_digit_def)

lemma ModbusError_text_inj: "ModbusError_text e = ModbusError_text e' \<longleftrightarrow> e = e'"
  by (cases e; cases e') (auto dest: dec_string_split [OF _ not_digit_space])

lemma DnpError_text_inj: "DnpError_text e = DnpError_text e' \<longleftrightarrow> e = e'"
  by (cases e; cases e') (auto dest: dec_string_split [OF _ not_digit_space])

lemma SelfTestError_text_inj: "SelfTestError_text e = SelfTestError_text e' \<longleftrightarrow> e = e'"
  by (cases e; cases e') simp_all

text \<open>A hexadecimal number followed by a space can be read back.\<close>

lemma hex_char_not_space: "d < 16 \<Longrightarrow> hex_char d \<noteq> CHR '' ''"
  using of_hex_char [of d] by (auto split: if_splits)

lemma hex_string_no_space: "CHR '' '' \<notin> set (hex_string n)"
proof (induction n rule: hex_string.induct)
  case (1 n)
  have "hex_char (n mod 16) \<noteq> CHR '' ''" by (rule hex_char_not_space) simp
  with 1 hex_char_not_space [of n] show ?case
    unfolding hex_string.simps [of n] by (auto split: if_split)
qed

lemma hex_string_not_Nil: "hex_string n \<noteq> []"
  by (simp add: hex_string.simps [of n])

lemma hex_string_inj [simp]: "hex_string a = hex_string b \<longleftrightarrow> a = b"
proof
  show "hex_string a = hex_string b \<Longrightarrow> a = b"
  proof (induction a arbitrary: b rule: hex_string.induct)
    case (1 a)
    show ?case
    proof (cases "a < 16 \<or> b < 16")
      case True
      with 1(2) have "a < 16 \<and> b < 16 \<and> hex_char a = hex_char b"
        using hex_string_not_Nil [of "a div 16"] hex_string_not_Nil [of "b div 16"]
        by (auto simp: hex_string.simps [of a] hex_string.simps [of b] split: if_splits)
      then show ?thesis using hex_char_inj by blast
    next
      case False
      with 1(2) have "hex_string (a div 16) = hex_string (b div 16)" "hex_char (a mod 16) = hex_char (b mod 16)"
        by (simp_all add: hex_string.simps [of a] hex_string.simps [of b])
      with 1(1) False have "a div 16 = b div 16" "a mod 16 = b mod 16" using hex_char_inj by auto
      then show ?thesis by (metis div_mult_mod_eq)
    qed
  qed
qed simp

lemma hex_string_split:
  "hex_string a @ CHR '' '' # r = hex_string b @ CHR '' '' # r' \<Longrightarrow> a = b \<and> r = r'"
proof -
  assume h: "hex_string a @ CHR '' '' # r = hex_string b @ CHR '' '' # r'"
  have "takeWhile (\<lambda>c. c \<noteq> CHR '' '') (hex_string n @ CHR '' '' # s) = hex_string n" for n s
    using hex_string_no_space [of n] by (subst takeWhile_append2) auto
  then have "hex_string a = hex_string b" using h by metis
  with h show ?thesis by simp
qed

lemma envelope_fault_text_inj: "envelope_fault_text e = envelope_fault_text e' \<longleftrightarrow> e = e'"
  by (cases e; cases e') (auto dest: dec_string_split [OF _ not_digit_space])

text \<open>The text of a frame error determines it, as far as the texts of cipher errors do.\<close>

lemma FrameError_text_inj:
  assumes "inj show_error"
  shows "FrameError_text show_error e = FrameError_text show_error e' \<longleftrightarrow> e = e'"
proof
  assume h: "FrameError_text show_error e = FrameError_text show_error e'"
  have p: "ProtocolId_as_str p @ CHR '' '' # r = ProtocolId_as_str q @ CHR '' '' # r' \<Longrightarrow> p = q \<and> r = r'" for p q r r'
    by (cases p; cases q) simp_all
  from h show "e = e'"
    using assms by (cases e; cases e')
      (auto simp: envelope_fault_text_inj word_unat_eq_iff dest!: hex_string_split p dec_string_split [OF _ not_digit_space] dest: injD)
qed simp

section \<open>Keys\<close>

definition NapqesKey_debug :: "NapqesKey \<Rightarrow> string" where
  "NapqesKey_debug key =
     ''NapqesKey { k = '' @ dec_string (length (key_primes key)) @ '', sk = <redacted>, primes = <redacted> }''"

text \<open>The debug output tells two keys apart only by their number of primes.\<close>

lemma NapqesKey_debug_redacted: "NapqesKey_debug key = NapqesKey_debug key' \<longleftrightarrow> NapqesKey_k key = NapqesKey_k key'"
  by (simp add: NapqesKey_debug_def NapqesKey_k_def)

end
