(* ===== verification/GatewayRun.thy ===== *)
theory GatewayRun
  imports Gateway Messages
begin

text \<open>
  The running gateway of \<open>rust/src/bin/ls_gateway.rs\<close> and the re-keying loops of
  \<open>rust/src/kem_exchange.rs\<close>: configuration and start-up, the listeners, and the concurrent
  connection tasks as a step relation on the shared state (key store, sequence counters), with
  the invariants that hold in every interleaving.
\<close>

section \<open>Configuration\<close>

record Config =
  cfg_mode :: string
  cfg_protocols :: "string list"
  cfg_forward_addr :: string
  cfg_siem_addr :: string
  cfg_modbus_listen :: string
  cfg_dnp3_listen :: string
  cfg_modbus_secure_listen :: string
  cfg_dnp3_secure_listen :: string
  cfg_kem_listen_addr :: string
  cfg_kem_peer_addr :: string
  cfg_kem_rekey_interval_secs :: nat
  cfg_key_store_path :: string

definition default_protocols :: "string list" where "default_protocols = [''modbus'', ''dnp3'']"
definition default_modbus_listen :: string where "default_modbus_listen = ''0.0.0.0:502''"
definition default_dnp3_listen :: string where "default_dnp3_listen = ''0.0.0.0:20000''"
definition default_modbus_secure :: string where "default_modbus_secure = ''0.0.0.0:5502''"
definition default_dnp3_secure :: string where "default_dnp3_secure = ''0.0.0.0:25000''"

text \<open>The fields of the JSON object; an absent field is \<open>None\<close>.\<close>

record RawConfig =
  raw_mode :: "string option"
  raw_protocols :: "string list option"
  raw_forward_addr :: "string option"
  raw_siem_addr :: "string option"
  raw_modbus_listen :: "string option"
  raw_dnp3_listen :: "string option"
  raw_modbus_secure_listen :: "string option"
  raw_dnp3_secure_listen :: "string option"
  raw_kem_listen_addr :: "string option"
  raw_kem_peer_addr :: "string option"
  raw_kem_rekey_interval_secs :: "nat option"
  raw_key_store_path :: "string option"

definition or_default :: "'a \<Rightarrow> 'a option \<Rightarrow> 'a" where
  "or_default d v = (case v of None \<Rightarrow> d | Some x \<Rightarrow> x)"

text \<open>\<open>#[serde(default)]\<close> on every field but the mode and the forward address.\<close>

definition Config_of :: "RawConfig \<Rightarrow> Config option" where
  "Config_of raw =
     (case (raw_mode raw, raw_forward_addr raw) of
        (Some md, Some fw) \<Rightarrow>
          Some \<lparr>cfg_mode = md,
                cfg_protocols = or_default default_protocols (raw_protocols raw),
                cfg_forward_addr = fw,
                cfg_siem_addr = or_default [] (raw_siem_addr raw),
                cfg_modbus_listen = or_default default_modbus_listen (raw_modbus_listen raw),
                cfg_dnp3_listen = or_default default_dnp3_listen (raw_dnp3_listen raw),
                cfg_modbus_secure_listen = or_default default_modbus_secure (raw_modbus_secure_listen raw),
                cfg_dnp3_secure_listen = or_default default_dnp3_secure (raw_dnp3_secure_listen raw),
                cfg_kem_listen_addr = or_default [] (raw_kem_listen_addr raw),
                cfg_kem_peer_addr = or_default [] (raw_kem_peer_addr raw),
                cfg_kem_rekey_interval_secs = or_default 0 (raw_kem_rekey_interval_secs raw),
                cfg_key_store_path = or_default [] (raw_key_store_path raw)\<rparr>
      | _ \<Rightarrow> None)"

section \<open>Start-up\<close>

datatype gw_store = SessionStore key_map | FileStore key_map

fun store_load :: "gw_store \<Rightarrow> key_load" where
  "store_load (SessionStore km) dev = SessionKeyStore_load km dev"
| "store_load (FileStore km) dev = FileKeyStore_load km dev"

record GatewayState =
  gs_config :: Config
  gs_store :: gw_store
  gs_counters :: SequenceCounter
  gs_siem :: bool

datatype startup_error =
    PostFailed self_test_error | ConfigUnreadable | ConfigParse | NoKeySource
  | StoreUnreadable | StoreRejected store_error | SiemBind

definition use_kem :: "Config \<Rightarrow> bool" where
  "use_kem cfg =
     (if cfg_mode cfg = ''ingress'' then cfg_kem_peer_addr cfg \<noteq> []
      else if cfg_mode cfg = ''egress'' then cfg_kem_listen_addr cfg \<noteq> []
      else False)"

text \<open>\<open>read_store\<close> yields the entries of the key-store file, or nothing when it is unreadable or not JSON.\<close>

definition choose_store ::
    "(string \<Rightarrow> (str \<times> FileKeyEntry) list option) \<Rightarrow> Config \<Rightarrow> (gw_store, startup_error) res" where
  "choose_store read_store cfg =
     (if use_kem cfg then Ok (SessionStore SessionKeyStore_new)
      else if cfg_key_store_path cfg = [] then Err NoKeySource
      else case read_store (cfg_key_store_path cfg) of
             None \<Rightarrow> Err StoreUnreadable
           | Some raw \<Rightarrow>
               res_bind (map_err StoreRejected (FileKeyStore_load_entries raw Map.empty))
                 (\<lambda>data. Ok (FileStore data)))"

text \<open>
  \<open>main\<close> up to the spawning of tasks: the self-tests, the configuration (unreadable, not
  JSON, or an object), the key store, the socket of the event log.
\<close>

definition gateway_start ::
    "(unit, self_test_error) res \<Rightarrow> RawConfig option option
       \<Rightarrow> (string \<Rightarrow> (str \<times> FileKeyEntry) list option) \<Rightarrow> bool \<Rightarrow> (GatewayState, startup_error) res" where
  "gateway_start post_result config_file read_store siem_bound =
     res_bind (map_err PostFailed post_result) (\<lambda>_.
       case config_file of
         None \<Rightarrow> Err ConfigUnreadable
       | Some parsed \<Rightarrow>
           (case Option.bind parsed Config_of of
              None \<Rightarrow> Err ConfigParse
            | Some cfg \<Rightarrow>
                res_bind (choose_store read_store cfg) (\<lambda>st.
                  if cfg_siem_addr cfg \<noteq> [] \<and> \<not> siem_bound then Err SiemBind
                  else Ok \<lparr>gs_config = cfg, gs_store = st, gs_counters = SequenceCounter_new,
                           gs_siem = (cfg_siem_addr cfg \<noteq> [])\<rparr>)))"

section \<open>Event log\<close>

text \<open>The text of an event; \<open>rt\<close> is the number of seconds that \<open>cef_timestamp\<close> returns.\<close>

definition cef_message :: "nat \<Rightarrow> string \<Rightarrow> nat \<Rightarrow> string \<Rightarrow> string" where
  "cef_message rt event_id severity extension =
     ''CEF:0|EPINeon|LegacyShieldGateway|1.0|'' @ event_id @ ''|'' @
     map (\<lambda>c. if c = CHR ''_'' then CHR '' '' else c) event_id @ ''|'' @
     dec_string severity @ ''|rt='' @ dec_string rt @ '' '' @ extension @ [CHR 0x0A]"

fun siem_id :: "siem_event \<Rightarrow> string" where
  "siem_id PARSE_ERR = ''PARSE_ERR''"
| "siem_id KEY_MISSING = ''KEY_MISSING''"
| "siem_id AUTH_FAIL = ''AUTH_FAIL''"

fun siem_severity :: "siem_event \<Rightarrow> nat" where
  "siem_severity PARSE_ERR = 5"
| "siem_severity KEY_MISSING = 7"
| "siem_severity AUTH_FAIL = 7"

text \<open>Nothing is sent without a socket; the datagram itself is sent without waiting for an answer.\<close>

definition emit_siem :: "GatewayState \<Rightarrow> nat \<Rightarrow> siem_event \<Rightarrow> string \<Rightarrow> string option" where
  "emit_siem gs rt e ext = (if gs_siem gs then Some (cef_message rt (siem_id e) (siem_severity e) ext) else None)"

text \<open>Every event is one line with eight fields, provided the extension has no separator of its own.\<close>

lemma emit_siem_fields:
  assumes "emit_siem gs rt e ext = Some msg" "CHR ''|'' \<notin> set ext"
  shows "length (filter (\<lambda>c. c = CHR ''|'') msg) = 7"
proof -
  have none: "filter (\<lambda>c. c = CHR ''|'') xs = []" if "CHR ''|'' \<notin> set xs" for xs :: string
    using that by (auto simp: filter_empty_conv)
  have "CHR ''|'' \<notin> set (dec_string n)" for n by (rule dec_string_not) (simp add: is_digit_def)
  note d = none [OF this] none [OF assms(2)]
  have "msg = cef_message rt (siem_id e) (siem_severity e) ext"
    using assms(1) by (simp add: emit_siem_def split: if_splits)
  then show ?thesis
    by (cases e) (simp_all add: cef_message_def d)
qed

section \<open>Re-keying loops\<close>

definition rekey_interval :: "Config \<Rightarrow> nat" where
  "rekey_interval cfg =
     (if 0 < cfg_kem_rekey_interval_secs cfg then cfg_kem_rekey_interval_secs cfg else (2 ^ 64 - 1) div 2)"

text \<open>The background task that establishes the keys, spawned before the listeners start.\<close>

datatype kem_task = Initiator string nat | Responder string

definition kem_background :: "GatewayState \<Rightarrow> kem_task option" where
  "kem_background gs =
     (case gs_store gs of
        FileStore _ \<Rightarrow> None
      | SessionStore _ \<Rightarrow>
          if cfg_mode (gs_config gs) = ''ingress''
          then Some (Initiator (cfg_kem_peer_addr (gs_config gs)) (rekey_interval (gs_config gs)))
          else if cfg_mode (gs_config gs) = ''egress'' then Some (Responder (cfg_kem_listen_addr (gs_config gs)))
          else None)"

text \<open>
  Both loops over the outcomes of their successive exchanges: the store they leave and the
  seconds they sleep after each iteration. A panic ends the task.
\<close>

fun run_initiator_loop ::
    "nat \<Rightarrow> key_map \<Rightarrow> (NapqesKey, exchange_error) res list \<Rightarrow> key_map \<times> nat list" where
  "run_initiator_loop interval store [] = (store, [])"
| "run_initiator_loop interval store (r # rs) =
     (case r of
        Ok key \<Rightarrow>
          (case run_initiator_loop interval (SessionKeyStore_insert store WILDCARD_DEVICE_ID key) rs of
             (store', sleeps) \<Rightarrow> (store', interval # sleeps))
      | Err e \<Rightarrow> (case run_initiator_loop interval store rs of (store', sleeps) \<Rightarrow> (store', 5 # sleeps))
      | Panic \<Rightarrow> (store, []))"

fun responder_iterations :: "key_map \<Rightarrow> (NapqesKey, exchange_error) res list \<Rightarrow> key_map \<times> nat list" where
  "responder_iterations store [] = (store, [])"
| "responder_iterations store (r # rs) =
     (case r of
        Ok key \<Rightarrow>
          (case responder_iterations (SessionKeyStore_insert store WILDCARD_DEVICE_ID key) rs of
             (store', sleeps) \<Rightarrow> (store', 0 # sleeps))
      | Err e \<Rightarrow> (case responder_iterations store rs of (store', sleeps) \<Rightarrow> (store', 5 # sleeps))
      | Panic \<Rightarrow> (store, []))"

definition run_responder_loop ::
    "bool \<Rightarrow> key_map \<Rightarrow> (NapqesKey, exchange_error) res list \<Rightarrow> key_map \<times> nat list" where
  "run_responder_loop bound store results = (if bound then responder_iterations store results else (store, []))"

text \<open>
  \<open>wait_for_key\<close>: \<open>store i\<close> is the session store at the \<open>i\<close>-th poll. The number of
  half-second sleeps, and whether a key was found.
\<close>

fun poll_key :: "(nat \<Rightarrow> key_map) \<Rightarrow> nat \<Rightarrow> nat \<Rightarrow> nat \<times> bool" where
  "poll_key store i 0 = (i, False)"
| "poll_key store i (Suc n) = (if SessionKeyStore_is_ready (store i) then (i, True) else poll_key store (Suc i) n)"

definition wait_for_key :: "(nat \<Rightarrow> key_map) \<Rightarrow> nat \<times> bool" where
  "wait_for_key store = poll_key store 0 240"

section \<open>Listeners\<close>

datatype direction = Ingress | Egress

definition start_ot_listeners :: "Config \<Rightarrow> (direction \<times> ProtocolId \<times> string) list" where
  "start_ot_listeners cfg =
     (if cfg_mode cfg = ''ingress'' then
        List.map_filter (\<lambda>p. if p = ''modbus'' then Some (Ingress, ModbusTcp, cfg_modbus_listen cfg)
                           else if p = ''dnp3'' then Some (Ingress, Dnp3, cfg_dnp3_listen cfg) else None)
          (cfg_protocols cfg)
      else if cfg_mode cfg = ''egress'' then
        List.map_filter (\<lambda>p. if p = ''modbus'' then Some (Egress, ModbusTcp, cfg_modbus_secure_listen cfg)
                           else if p = ''dnp3'' then Some (Egress, Dnp3, cfg_dnp3_secure_listen cfg) else None)
          (cfg_protocols cfg)
      else [])"

section \<open>Concurrent tasks\<close>

text \<open>
  A connection task between two accesses to the shared state: waiting for input, holding a
  freshly drawn sequence number, or holding an envelope and the key it loaded.
\<close>

datatype task =
    IngressRead ProtocolId | IngressSeal OtAad bytes | EgressRead ProtocolId | EgressOpen ProtocolId bytes NapqesKey

text \<open>
  The history of the gateway, oldest first: what a task read from its connection (a frame on an
  ingress connection, a complete envelope or an oversized header on an egress one), envelopes
  sealed and forwarded (header, data unit, envelope, key), data units delivered (protocol of the
  listener, envelope, header, data unit, key), events reported, session keys installed.
\<close>

datatype gw_record =
    Received direction ProtocolId bytes
  | Sealed OtAad bytes bytes NapqesKey
  | Delivered ProtocolId bytes OtAad bytes NapqesKey
  | Reported siem_event
  | Rekeyed NapqesKey

text \<open>
  \<open>sys_poisoned\<close>: a panic under the lock of the send counters poisons it, and every later
  \<open>lock().unwrap()\<close> panics.
\<close>

record gw_sys =
  sys_store :: gw_store
  sys_counters :: SequenceCounter
  sys_poisoned :: bool
  sys_tasks :: "nat \<rightharpoonup> task"
  sys_log :: "gw_record list"

definition gw_init :: "GatewayState \<Rightarrow> gw_sys" where
  "gw_init gs = \<lparr>sys_store = gs_store gs, sys_counters = gs_counters gs, sys_poisoned = False,
     sys_tasks = Map.empty, sys_log = []\<rparr>"

text \<open>The extractors of both ingress handlers, with the device the frame names.\<close>

definition extract_ot :: "ProtocolId \<Rightarrow> bytes \<Rightarrow> (u64 \<times> bytes, unit) res" where
  "extract_ot proto frame =
     (case proto of
        ModbusTcp \<Rightarrow> (case extract_pdu frame of
            Ok (hdr, pdu) \<Rightarrow> Ok (ucast (unit_id hdr), pdu) | Err _ \<Rightarrow> Err () | Panic \<Rightarrow> Panic)
      | Dnp3 \<Rightarrow> (case extract_payload frame of
            Ok (hdr, payload) \<Rightarrow> Ok (ucast (source hdr), payload) | Err _ \<Rightarrow> Err () | Panic \<Rightarrow> Panic))"

text \<open>A complete envelope as the egress loop reads it: the header and the declared number of bytes.\<close>

definition envelope_read :: "bytes \<Rightarrow> bool" where
  "envelope_read env \<longleftrightarrow> ENVELOPE_HEADER_SIZE \<le> length env \<and>
     be_val (take 4 (drop 19 env)) \<le> MAX_BLOB \<and>
     length env = ENVELOPE_HEADER_SIZE + be_val (take 4 (drop 19 env))"

text \<open>One successful read of the ingress loops: into a buffer of 4096 bytes, not at the end of the connection.\<close>

definition frame_read :: "bytes \<Rightarrow> bool" where
  "frame_read frame \<longleftrightarrow> frame \<noteq> [] \<and> length frame \<le> 4096"

definition set_task :: "nat \<Rightarrow> task option \<Rightarrow> gw_sys \<Rightarrow> gw_sys" where
  "set_task i t s = s\<lparr>sys_tasks := (sys_tasks s)(i := t)\<rparr>"

definition log_record :: "gw_record \<Rightarrow> gw_sys \<Rightarrow> gw_sys" where
  "log_record r s = s\<lparr>sys_log := sys_log s @ [r]\<rparr>"

abbreviation received :: "direction \<Rightarrow> ProtocolId \<Rightarrow> bytes \<Rightarrow> gw_sys \<Rightarrow> gw_sys" where
  "received dir proto bs s \<equiv> log_record (Received dir proto bs) s"

definition set_counters :: "SequenceCounter \<Rightarrow> gw_sys \<Rightarrow> gw_sys" where
  "set_counters c s = s\<lparr>sys_counters := c\<rparr>"

inductive gw_step ::
    "mac \<Rightarrow> kem_prims \<Rightarrow> module_state \<Rightarrow> (direction \<times> ProtocolId \<times> string) list \<Rightarrow> gw_sys \<Rightarrow> gw_sys \<Rightarrow> bool"
  for H P m L where
  accept_ingress: "(Ingress, proto, addr) \<in> set L \<Longrightarrow> sys_tasks s i = None \<Longrightarrow>
     gw_step H P m L s (set_task i (Some (IngressRead proto)) s)"
| accept_egress: "(Egress, proto, addr) \<in> set L \<Longrightarrow> sys_tasks s i = None \<Longrightarrow>
     gw_step H P m L s (set_task i (Some (EgressRead proto)) s)"
| close_ingress: "sys_tasks s i = Some (IngressRead proto) \<Longrightarrow> gw_step H P m L s (set_task i None s)"
| close_egress: "sys_tasks s i = Some (EgressRead proto) \<Longrightarrow> gw_step H P m L s (set_task i None s)"
| ingress_parse_error: "sys_tasks s i = Some (IngressRead proto) \<Longrightarrow> frame_read frame \<Longrightarrow> extract_ot proto frame = Err () \<Longrightarrow>
     gw_step H P m L s (log_record (Reported PARSE_ERR) (received Ingress proto frame s))"
| ingress_parse_panic: "sys_tasks s i = Some (IngressRead proto) \<Longrightarrow> frame_read frame \<Longrightarrow> extract_ot proto frame = Panic \<Longrightarrow>
     gw_step H P m L s (set_task i None (received Ingress proto frame s))"
| ingress_number: "sys_tasks s i = Some (IngressRead proto) \<Longrightarrow> frame_read frame \<Longrightarrow> extract_ot proto frame = Ok (dev, pdu) \<Longrightarrow>
     \<not> sys_poisoned s \<Longrightarrow> next_seq (sys_counters s) proto dev = (Ok n, c) \<Longrightarrow>
     gw_step H P m L s
       (set_task i (Some (IngressSeal \<lparr>protocol = proto, device_id = dev, seq = n\<rparr> pdu))
         (set_counters c (received Ingress proto frame s)))"
| ingress_exhausted: "sys_tasks s i = Some (IngressRead proto) \<Longrightarrow> frame_read frame \<Longrightarrow> extract_ot proto frame = Ok (dev, pdu) \<Longrightarrow>
     \<not> sys_poisoned s \<Longrightarrow> next_seq (sys_counters s) proto dev = (Panic, c) \<Longrightarrow>
     gw_step H P m L s (set_task i None (set_counters c (received Ingress proto frame s))\<lparr>sys_poisoned := True\<rparr>)"
| ingress_poisoned: "sys_tasks s i = Some (IngressRead proto) \<Longrightarrow> frame_read frame \<Longrightarrow> extract_ot proto frame = Ok (dev, pdu) \<Longrightarrow>
     sys_poisoned s \<Longrightarrow> gw_step H P m L s (set_task i None (received Ingress proto frame s))"
| ingress_no_key: "sys_tasks s i = Some (IngressSeal aad pdu) \<Longrightarrow> store_load (sys_store s) (device_id aad) = Err e \<Longrightarrow>
     gw_step H P m L s (log_record (Reported KEY_MISSING) (set_task i (Some (IngressRead (protocol aad))) s))"
| ingress_sealed: "sys_tasks s i = Some (IngressSeal aad pdu) \<Longrightarrow>
     store_load (sys_store s) (device_id aad) = Ok key \<Longrightarrow> wrap_pdu H m pdu aad key = Ok env \<Longrightarrow>
     gw_step H P m L s (log_record (Sealed aad pdu env key) (set_task i (Some (IngressRead (protocol aad))) s))"
| ingress_wrap_failed: "sys_tasks s i = Some (IngressSeal aad pdu) \<Longrightarrow>
     store_load (sys_store s) (device_id aad) = Ok key \<Longrightarrow> wrap_pdu H m pdu aad key = Err f \<Longrightarrow>
     gw_step H P m L s (set_task i (Some (IngressRead (protocol aad))) s)"
| ingress_wrap_panic: "sys_tasks s i = Some (IngressSeal aad pdu) \<Longrightarrow>
     store_load (sys_store s) (device_id aad) = Ok key \<Longrightarrow> wrap_pdu H m pdu aad key = Panic \<Longrightarrow>
     gw_step H P m L s (set_task i None s)"
| egress_oversized: "sys_tasks s i = Some (EgressRead proto) \<Longrightarrow> length header = ENVELOPE_HEADER_SIZE \<Longrightarrow>
     MAX_BLOB < be_val (take 4 (drop 19 header)) \<Longrightarrow>
     gw_step H P m L s (log_record (Reported PARSE_ERR) (set_task i None (received Egress proto header s)))"
| egress_malformed: "sys_tasks s i = Some (EgressRead proto) \<Longrightarrow> envelope_read env \<Longrightarrow> peek_device_id env = None \<Longrightarrow>
     gw_step H P m L s (log_record (Reported PARSE_ERR) (received Egress proto env s))"
| egress_no_key: "sys_tasks s i = Some (EgressRead proto) \<Longrightarrow> envelope_read env \<Longrightarrow> peek_device_id env = Some dev \<Longrightarrow>
     store_load (sys_store s) dev = Err e \<Longrightarrow> gw_step H P m L s (log_record (Reported KEY_MISSING) (received Egress proto env s))"
| egress_loaded: "sys_tasks s i = Some (EgressRead proto) \<Longrightarrow> envelope_read env \<Longrightarrow> peek_device_id env = Some dev \<Longrightarrow>
     store_load (sys_store s) dev = Ok key \<Longrightarrow> gw_step H P m L s (set_task i (Some (EgressOpen proto env key)) (received Egress proto env s))"
| egress_refused: "sys_tasks s i = Some (EgressOpen proto env key) \<Longrightarrow>
     unwrap_pdu H m env key (sys_counters s) = (Err f, c) \<Longrightarrow>
     gw_step H P m L s (log_record (Reported AUTH_FAIL) (set_task i (Some (EgressRead proto)) (set_counters c s)))"
| egress_panic: "sys_tasks s i = Some (EgressOpen proto env key) \<Longrightarrow>
     unwrap_pdu H m env key (sys_counters s) = (Panic, c) \<Longrightarrow>
     gw_step H P m L s (set_task i None (set_counters c s))"
| egress_delivered: "sys_tasks s i = Some (EgressOpen proto env key) \<Longrightarrow>
     unwrap_pdu H m env key (sys_counters s) = (Ok pdu, c) \<Longrightarrow> parse_envelope_header env = Ok (p, dev, n, blob_start, blob_len) \<Longrightarrow>
     gw_step H P m L s
       (log_record (Delivered proto env \<lparr>protocol = p, device_id = dev, seq = n\<rparr> pdu key) (set_task i (Some (EgressRead proto)) (set_counters c s)))"
| rekey: "sys_store s = SessionStore km \<Longrightarrow> derive_v8_key H P ss = Ok key \<Longrightarrow>
     gw_step H P m L s (log_record (Rekeyed key) (s\<lparr>sys_store := SessionStore (rekey_step km (Ok key))\<rparr>))"

inductive_cases gw_stepE: "gw_step H P m L s s'"

definition gw_reachable ::
    "mac \<Rightarrow> kem_prims \<Rightarrow> module_state \<Rightarrow> GatewayState \<Rightarrow> gw_sys \<Rightarrow> bool" where
  "gw_reachable H P m gs s \<longleftrightarrow> (gw_step H P m (start_ot_listeners (gs_config gs)))\<^sup>*\<^sup>* (gw_init gs) s"


section \<open>Invariants\<close>

fun sealed_aad :: "gw_record \<Rightarrow> OtAad option" where
  "sealed_aad (Sealed aad pdu env key) = Some aad"
| "sealed_aad _ = None"

fun delivered_aad :: "gw_record \<Rightarrow> OtAad option" where
  "delivered_aad (Delivered proto env aad pdu key) = Some aad"
| "delivered_aad _ = None"

abbreviation sealed_aads :: "gw_sys \<Rightarrow> OtAad list" where
  "sealed_aads s \<equiv> List.map_filter sealed_aad (sys_log s)"

abbreviation delivered_aads :: "gw_sys \<Rightarrow> OtAad list" where
  "delivered_aads s \<equiv> List.map_filter delivered_aad (sys_log s)"

definition drawn_up_to :: "gw_sys \<Rightarrow> OtAad \<Rightarrow> bool" where
  "drawn_up_to s aad \<longleftrightarrow> seq aad \<le> entry_or_0 (send_state (sys_counters s)) (protocol aad, device_id aad)"

definition pending :: "gw_sys \<Rightarrow> nat \<Rightarrow> OtAad \<Rightarrow> bool" where
  "pending s i aad \<longleftrightarrow> (\<exists>pdu. sys_tasks s i = Some (IngressSeal aad pdu))"

text \<open>Every number in use was drawn, and no two uses share one.\<close>

definition numbers_inv :: "gw_sys \<Rightarrow> bool" where
  "numbers_inv s \<longleftrightarrow>
     distinct (sealed_aads s) \<and> (\<forall>aad \<in> set (sealed_aads s). drawn_up_to s aad) \<and>
     (\<forall>i aad. pending s i aad \<longrightarrow> drawn_up_to s aad \<and> aad \<notin> set (sealed_aads s)) \<and>
     (\<forall>i j aad. pending s i aad \<longrightarrow> pending s j aad \<longrightarrow> i = j)"

definition window_inv :: "gw_sys \<Rightarrow> bool" where
  "window_inv s \<longleftrightarrow> distinct (delivered_aads s) \<and>
     (\<forall>aad \<in> set (delivered_aads s). seq aad \<le> last_seen (sys_counters s) (protocol aad, device_id aad))"

lemma map_filter_app: "List.map_filter f (xs @ ys) = List.map_filter f xs @ List.map_filter f ys"
  by (simp add: List.map_filter_def)

lemma map_filter_step:
  "List.map_filter f [] = []" "List.map_filter f (x # xs) = (case f x of None \<Rightarrow> [] | Some y \<Rightarrow> [y]) @ List.map_filter f xs"
  by (simp_all add: List.map_filter_def split: option.split)

lemma next_seq_facts:
  assumes "next_seq c proto dev = (r, c')"
  shows "recv_state c' = recv_state c"
    and "entry_or_0 (send_state c) k \<le> entry_or_0 (send_state c') k"
    and "r = Ok n \<Longrightarrow> entry_or_0 (send_state c) (proto, dev) < n \<and> entry_or_0 (send_state c') (proto, dev) = n"
proof -
  have less: "x < x + 1" if "x \<noteq> - 1" for x :: u64
    using that inc_less_eq_self_iff_eq [of x] by (metis not_le)
  show "recv_state c' = recv_state c" using assms by (auto simp: next_seq_def Let_def split: if_splits)
  show "entry_or_0 (send_state c) k \<le> entry_or_0 (send_state c') k"
    using assms less [of "entry_or_0 (send_state c) (proto, dev)"]
    by (auto simp: next_seq_def Let_def entry_or_0_def less_imp_le split: if_splits option.splits)
  show "r = Ok n \<Longrightarrow> entry_or_0 (send_state c) (proto, dev) < n \<and> entry_or_0 (send_state c') (proto, dev) = n"
    using assms less [of "entry_or_0 (send_state c) (proto, dev)"]
    by (auto simp: next_seq_def Let_def entry_or_0_def split: if_splits)
qed

text \<open>What a successful \<open>unwrap_pdu\<close> opened.\<close>

lemma unwrap_header:
  assumes "unwrap_pdu H m env key c = (Ok pdu, c')" "parse_envelope_header env = Ok (p, dev, n, blob_start, blob_len)"
  shows "open_envelope H m env key = Ok (\<lparr>protocol = p, device_id = dev, seq = n\<rparr>, pdu)"
proof -
  obtain aad where "open_envelope H m env key = Ok (aad, pdu)"
    using assms(1) by (cases rule: unwrap_pdu_cases [of H m env key c]) auto
  then show ?thesis using assms(2) by (auto simp: open_envelope_def Let_def)
qed

lemmas gw_updates = set_task_def log_record_def set_counters_def map_filter_app map_filter_step

text \<open>Steps that draw no number and seal nothing keep the numbers.\<close>

lemma numbers_inv_quiet:
  assumes "numbers_inv s" and "sealed_aads s' = sealed_aads s"
    and "\<And>k. entry_or_0 (send_state (sys_counters s)) k \<le> entry_or_0 (send_state (sys_counters s')) k"
    and "\<And>i aad. pending s' i aad \<Longrightarrow> pending s i aad"
  shows "numbers_inv s'"
proof -
  have "drawn_up_to s aad \<Longrightarrow> drawn_up_to s' aad" for aad
    using assms(3) order_trans unfolding drawn_up_to_def by blast
  with assms(1,2,4) show ?thesis unfolding numbers_inv_def by metis
qed

lemma numbers_inv_draw:
  assumes inv: "numbers_inv s" and n: "next_seq (sys_counters s) proto dev = (Ok n, c)"
    and aad: "aad = \<lparr>protocol = proto, device_id = dev, seq = n\<rparr>"
  shows "numbers_inv (set_task i (Some (IngressSeal aad pdu)) (set_counters c (received dir q bs s)))" (is "numbers_inv ?s'")
proof -
  note f = next_seq_facts [OF n]
  have mono: "drawn_up_to s a \<Longrightarrow> drawn_up_to ?s' a" for a
    using order_trans [OF _ f(2)] by (simp add: drawn_up_to_def gw_updates)
  have new: "drawn_up_to ?s' aad" using f(3) [OF refl] aad by (simp add: drawn_up_to_def gw_updates)
  have fresh: "\<not> drawn_up_to s aad" using f(3) [OF refl] aad by (simp add: drawn_up_to_def not_le)
  have p: "pending ?s' j a \<longleftrightarrow> (if j = i then a = aad else pending s j a)" for j a
    by (auto simp: pending_def gw_updates)
  have l: "sealed_aads ?s' = sealed_aads s" by (simp add: gw_updates)
  show ?thesis
    using inv mono new fresh unfolding numbers_inv_def p l by (metis (full_types))
qed

lemma numbers_inv_seal:
  assumes inv: "numbers_inv s" and t: "sys_tasks s i = Some (IngressSeal aad pdu)"
  shows "numbers_inv (log_record (Sealed aad pdu env key) (set_task i (Some (IngressRead q)) s))" (is "numbers_inv ?s'")
proof -
  have p: "pending ?s' j a \<longleftrightarrow> j \<noteq> i \<and> pending s j a" for j a by (auto simp: pending_def gw_updates)
  have l: "sealed_aads ?s' = sealed_aads s @ [aad]" by (simp add: gw_updates)
  have d: "drawn_up_to ?s' a \<longleftrightarrow> drawn_up_to s a" for a by (simp add: drawn_up_to_def gw_updates)
  have "pending s i aad" using t by (auto simp: pending_def)
  then show ?thesis using inv unfolding numbers_inv_def p l d by auto
qed

lemma window_inv_quiet:
  assumes "window_inv s" and "delivered_aads s' = delivered_aads s"
    and "\<And>k. last_seen (sys_counters s) k \<le> last_seen (sys_counters s') k"
  shows "window_inv s'"
  using assms unfolding window_inv_def by (metis order_trans)

lemma window_inv_deliver:
  assumes "window_inv s" and "open_envelope H m env key = Ok (aad, pdu)"
    and u: "unwrap_pdu H m env key (sys_counters s) = (Ok pdu, c)"
  shows "window_inv (log_record (Delivered proto env aad pdu key) (set_task i t (set_counters c s)))"
proof -
  note f = unwrap_counters [OF u]
  note new = f(3) [OF assms(2) refl]
  have "aad \<notin> set (delivered_aads s)" using assms(1) new by (auto simp: window_inv_def not_le [symmetric])
  moreover have "seq a \<le> last_seen c (protocol a, device_id a)" if "a \<in> set (delivered_aads s)" for a
    using assms(1) that order_trans [OF _ f(2)] by (auto simp: window_inv_def)
  ultimately show ?thesis using assms(1) new by (auto simp: window_inv_def gw_updates)
qed

lemma gw_step_inv:
  assumes "gw_step H P m L s s'" "numbers_inv s" "window_inv s"
  shows "numbers_inv s'" "window_inv s'"
proof -
  have q: "numbers_inv s'" if "sealed_aads s' = sealed_aads s" "send_state (sys_counters s') = send_state (sys_counters s)"
      "\<And>i aad. pending s' i aad \<Longrightarrow> pending s i aad"
    using numbers_inv_quiet [OF assms(2) that(1)] that(2,3) by simp
  have w: "window_inv s'" if "delivered_aads s' = delivered_aads s" "recv_state (sys_counters s') = recv_state (sys_counters s)"
    using window_inv_quiet [OF assms(3) that(1)] that(2) by (simp add: last_seen_def)
  show "numbers_inv s'" using assms(1)
  proof cases
    case (ingress_number i proto frame dev pdu n c)
    then show ?thesis using numbers_inv_draw [OF assms(2)] by simp
  next
    case (ingress_exhausted i proto frame dev pdu c)
    then show ?thesis using next_seq_facts(2) [OF ingress_exhausted(6)]
      by (intro numbers_inv_quiet [OF assms(2)]) (auto simp: gw_updates pending_def split: if_splits)
  next
    case (ingress_sealed i aad pdu key env)
    then show ?thesis using numbers_inv_seal [OF assms(2)] by simp
  qed (rule q; auto simp: gw_updates pending_def dest: unwrap_counters(1) split: if_splits)+
  show "window_inv s'" using assms(1)
  proof cases
    case (egress_delivered i proto env key pdu c p dev n blob_start blob_len)
    then show ?thesis using window_inv_deliver [OF assms(3) unwrap_header [OF egress_delivered(3,4)]] by simp
  next
    case (egress_refused i proto env key f c)
    then show ?thesis using unwrap_counters(2) [OF egress_refused(3)]
      by (intro window_inv_quiet [OF assms(3)]) (auto simp: gw_updates)
  next
    case (egress_panic i proto env key c)
    then show ?thesis using unwrap_counters(2) [OF egress_panic(3)]
      by (intro window_inv_quiet [OF assms(3)]) (auto simp: gw_updates)
  qed (rule w; auto simp: gw_updates dest: next_seq_facts(1))+
qed


section \<open>Keys\<close>

fun store_usable :: "gw_store \<Rightarrow> bool" where
  "store_usable (SessionStore km) = keys_usable km"
| "store_usable (FileStore km) = keys_usable km"

interpretation gw_keys: key_store store_load store_usable
proof unfold_locales
  fix st d key
  show "store_usable st \<Longrightarrow> store_load st d = Ok key \<Longrightarrow> usable_key key"
    by (cases st) (auto intro: session_store.load_usable file_store.load_usable)
  show "store_load st d \<noteq> Panic"
    by (cases st) (auto simp: session_store.load_total file_store.load_total)
qed

lemma rekey_step_usable: "keys_usable km \<Longrightarrow> usable_key key \<Longrightarrow> keys_usable (rekey_step km (Ok key))"
  by (simp add: rekey_step_def session_store.install_good)

lemma gateway_start_store:
  assumes "gateway_start post_result config_file read_store siem_bound = Ok gs"
  shows "store_usable (gs_store gs)" "gs_counters gs = SequenceCounter_new"
    and "(\<exists>km. gs_store gs = SessionStore km) \<longleftrightarrow> use_kem (gs_config gs)"
proof -
  have e: "keys_usable Map.empty" "keys_usable SessionKeyStore_new" by (simp_all add: keys_usable_def SessionKeyStore_new_def)
  from assms obtain cfg st where st: "choose_store read_store cfg = Ok st" "gs_store gs = st"
      "gs_counters gs = SequenceCounter_new" "gs_config gs = cfg"
    by (auto simp: gateway_start_def split: option.splits if_splits)
  show "gs_counters gs = SequenceCounter_new" by (rule st(3))
  have "store_usable st"
    using st(1) e load_entries_usable by (auto simp: choose_store_def split: if_splits option.splits)
  then show "store_usable (gs_store gs)" using st(2) by simp
  have "(\<exists>km. st = SessionStore km) \<longleftrightarrow> use_kem cfg"
    using st(1) by (auto simp: choose_store_def split: if_splits option.splits)
  then show "(\<exists>km. gs_store gs = SessionStore km) \<longleftrightarrow> use_kem (gs_config gs)"
    unfolding st(2,4) .
qed

text \<open>
  Where a key comes from: the store the gateway started with, or an installation recorded in the
  history. A record is backed by the history before it: what was sealed is the data unit of a
  frame received before, what was delivered is an envelope received before, opened, and the key
  is one that was known for the device.
\<close>

definition key_known :: "GatewayState \<Rightarrow> gw_record list \<Rightarrow> u64 \<Rightarrow> NapqesKey \<Rightarrow> bool" where
  "key_known gs earlier dev key \<longleftrightarrow> validate_key (key_primes key) = Ok () \<and>
     (store_load (gs_store gs) dev = Ok key \<or> Rekeyed key \<in> set earlier)"

definition unit_received :: "gw_record list \<Rightarrow> OtAad \<Rightarrow> bytes \<Rightarrow> bool" where
  "unit_received earlier aad pdu \<longleftrightarrow>
     (\<exists>frame. Received Ingress (protocol aad) frame \<in> set earlier \<and> frame_read frame \<and>
        extract_ot (protocol aad) frame = Ok (device_id aad, pdu))"

definition envelope_received :: "gw_record list \<Rightarrow> ProtocolId \<Rightarrow> bytes \<Rightarrow> bool" where
  "envelope_received earlier proto env \<longleftrightarrow> Received Egress proto env \<in> set earlier \<and> envelope_read env"

fun backed :: "mac \<Rightarrow> kem_prims \<Rightarrow> module_state \<Rightarrow> GatewayState \<Rightarrow> gw_record list \<Rightarrow> gw_record \<Rightarrow> bool" where
  "backed H P m gs earlier (Sealed aad pdu env key) \<longleftrightarrow>
     unit_received earlier aad pdu \<and> key_known gs earlier (device_id aad) key \<and> wrap_pdu H m pdu aad key = Ok env"
| "backed H P m gs earlier (Delivered proto env aad pdu key) \<longleftrightarrow>
     envelope_received earlier proto env \<and> key_known gs earlier (device_id aad) key \<and>
     open_envelope H m env key = Ok (aad, pdu)"
| "backed H P m gs earlier (Rekeyed key) \<longleftrightarrow> use_kem (gs_config gs) \<and> (\<exists>ss. derive_v8_key H P ss = Ok key)"
| "backed H P m gs earlier (Received dir proto bs) \<longleftrightarrow> True"
| "backed H P m gs earlier (Reported e) \<longleftrightarrow> True"

definition log_backed :: "mac \<Rightarrow> kem_prims \<Rightarrow> module_state \<Rightarrow> GatewayState \<Rightarrow> gw_record list \<Rightarrow> bool" where
  "log_backed H P m gs log \<longleftrightarrow> (\<forall>earlier r later. log = earlier @ r # later \<longrightarrow> backed H P m gs earlier r)"

fun task_backed :: "GatewayState \<Rightarrow> gw_record list \<Rightarrow> task \<Rightarrow> bool" where
  "task_backed gs log (IngressSeal aad pdu) \<longleftrightarrow> unit_received log aad pdu"
| "task_backed gs log (EgressOpen proto env key) \<longleftrightarrow> envelope_received log proto env \<and>
     (\<exists>dev. peek_device_id env = Some dev \<and> key_known gs log dev key)"
| "task_backed gs log _ \<longleftrightarrow> True"

definition history_inv :: "mac \<Rightarrow> kem_prims \<Rightarrow> module_state \<Rightarrow> GatewayState \<Rightarrow> gw_sys \<Rightarrow> bool" where
  "history_inv H P m gs s \<longleftrightarrow>
     log_backed H P m gs (sys_log s) \<and>
     (\<forall>i t. sys_tasks s i = Some t \<longrightarrow> task_backed gs (sys_log s) t) \<and>
     (\<forall>dev key. store_load (sys_store s) dev = Ok key \<longrightarrow> key_known gs (sys_log s) dev key) \<and>
     ((\<exists>km. sys_store s = SessionStore km) \<longleftrightarrow> use_kem (gs_config gs))"

lemma log_backed_snoc: "log_backed H P m gs (log @ [r]) \<longleftrightarrow> log_backed H P m gs log \<and> backed H P m gs log r"
proof -
  have "log @ [r] = earlier @ x # later \<longleftrightarrow>
      later = [] \<and> earlier = log \<and> x = r \<or> (\<exists>later'. later = later' @ [r] \<and> log = earlier @ x # later')" for earlier x later
    by (cases later rule: rev_cases) auto
  then show ?thesis unfolding log_backed_def by (metis (no_types, opaque_lifting))
qed

lemma task_backed_mono: "task_backed gs log t \<Longrightarrow> task_backed gs (log @ later) t"
  by (cases t) (auto simp: unit_received_def envelope_received_def key_known_def)

lemma key_known_mono: "key_known gs log dev key \<Longrightarrow> key_known gs (log @ later) dev key"
  by (auto simp: key_known_def)

lemma history_invI:
  assumes inv: "history_inv H P m gs s" and "sys_log s' = sys_log s @ later" "log_backed H P m gs (sys_log s')"
    and "\<And>j t. sys_tasks s' j = Some t \<Longrightarrow> sys_tasks s j = Some t \<or> task_backed gs (sys_log s') t"
    and "sys_store s' = sys_store s"
  shows "history_inv H P m gs s'"
  using assms(1,2,4,5) task_backed_mono key_known_mono assms(3) unfolding history_inv_def by metis

text \<open>Steps that only read, report, start and end tasks keep the history backed.\<close>

fun plain_record :: "gw_record \<Rightarrow> bool" where
  "plain_record (Received dir proto bs) = True"
| "plain_record (Reported e) = True"
| "plain_record _ = False"

lemma log_backed_plain:
  "list_all plain_record later \<Longrightarrow> log_backed H P m gs log \<Longrightarrow> log_backed H P m gs (log @ later)"
proof (induction later rule: rev_induct)
  case (snoc r later)
  have "backed H P m gs (log @ later) r" using snoc.prems(1) by (cases r) auto
  with snoc show ?case unfolding append_assoc [symmetric] log_backed_snoc by simp
qed simp

lemma history_inv_quiet:
  assumes inv: "history_inv H P m gs s" and "\<exists>later. sys_log s' = sys_log s @ later \<and> list_all plain_record later"
    and "\<And>j t. sys_tasks s' j = Some t \<Longrightarrow> sys_tasks s j = Some t \<or> (\<exists>q. t = IngressRead q \<or> t = EgressRead q)"
    and "sys_store s' = sys_store s"
  shows "history_inv H P m gs s'"
proof -
  obtain later where later: "sys_log s' = sys_log s @ later" "list_all plain_record later" using assms(2) by blast
  have "log_backed H P m gs (sys_log s')" using log_backed_plain [OF later(2)] inv unfolding later(1) history_inv_def by blast
  then show ?thesis using assms(3,4) later(1) by (intro history_invI [OF inv]) fastforce+
qed

lemma rekey_known:
  assumes "history_inv H P m gs s" "sys_store s = SessionStore km" "derive_v8_key H P ss = Ok key"
  shows "history_inv H P m gs (log_record (Rekeyed key) (s\<lparr>sys_store := SessionStore (rekey_step km (Ok key))\<rparr>))"
proof -
  have valid: "validate_key (key_primes key) = Ok ()"
    using derive_v8_key_usable [OF assms(3)] by (simp add: usable_key_def validate_key_Ok_iff)
  have "key_known gs (sys_log s @ [Rekeyed key]) dev k"
    if "store_load (SessionStore (rekey_step km (Ok key))) dev = Ok k" for dev k
  proof (cases "k = key")
    case True
    then show ?thesis using valid by (simp add: key_known_def)
  next
    case False
    then have "store_load (SessionStore km) dev = Ok k"
      using that by (auto simp: rekey_step_def SessionKeyStore_insert_def SessionKeyStore_load_def split: option.splits if_splits)
    then show ?thesis using assms(1,2) key_known_mono unfolding history_inv_def by metis
  qed
  then show ?thesis
    using assms task_backed_mono unfolding history_inv_def by (auto simp: log_record_def log_backed_snoc)
qed

lemma history_inv_snoc:
  assumes "history_inv H P m gs s" "sys_log s' = sys_log s @ [r]" "backed H P m gs (sys_log s) r"
    and "sys_tasks s' = (sys_tasks s)(i \<mapsto> t)" "task_backed gs (sys_log s @ [r]) t" "sys_store s' = sys_store s"
  shows "history_inv H P m gs s'"
proof (rule history_invI [OF assms(1,2)])
  show "log_backed H P m gs (sys_log s')"
    using assms(1,3) unfolding assms(2) log_backed_snoc history_inv_def by blast
  show "sys_tasks s j = Some t' \<or> task_backed gs (sys_log s') t'" if "sys_tasks s' j = Some t'" for j t'
    using that assms(2,4,5) by (auto split: if_splits)
qed (rule assms(6))

lemma history_inv_step: "gw_step H P m L s s' \<Longrightarrow> history_inv H P m gs s \<Longrightarrow> history_inv H P m gs s'"
proof (induction rule: gw_step.induct)
  case (rekey s km ss key)
  then show ?case by (intro rekey_known)
next
  case (ingress_sealed s i aad pdu key env)
  then have "backed H P m gs (sys_log s) (Sealed aad pdu env key)"
    unfolding history_inv_def by fastforce
  from history_inv_snoc [OF ingress_sealed(4) _ this, of _ i "IngressRead (protocol aad)"] show ?case by (simp add: gw_updates)
next
  case (egress_delivered s i proto env key pdu c p dev n blob_start blob_len)
  note o = unwrap_header [OF egress_delivered(2,3)]
  have "task_backed gs (sys_log s) (EgressOpen proto env key)"
    using egress_delivered(1,4) unfolding history_inv_def by blast
  then have "backed H P m gs (sys_log s) (Delivered proto env \<lparr>protocol = p, device_id = dev, seq = n\<rparr> pdu key)"
    using o open_envelope_device [OF o] by (simp only: backed.simps task_backed.simps option.inject OtAad.simps) blast
  from history_inv_snoc [OF egress_delivered(4) _ this, of _ i "EgressRead proto"] show ?case by (simp add: gw_updates)
next
  case (ingress_number s i proto frame dev pdu n c)
  then show ?case
    by (intro history_inv_snoc [OF ingress_number(6), of _ "Received Ingress proto frame" i])
      (auto simp: gw_updates unit_received_def)
next
  case (egress_loaded s i proto env dev key)
  then have "key_known gs (sys_log s) dev key" unfolding history_inv_def by blast
  with egress_loaded show ?case
    by (intro history_inv_snoc [OF egress_loaded(5), of _ "Received Egress proto env" i])
      (auto simp: gw_updates envelope_received_def key_known_mono)
qed (rule history_inv_quiet, assumption; auto simp: gw_updates split: if_splits)+

lemma gw_reachable_inv:
  assumes "gateway_start post_result config_file read_store siem_bound = Ok gs" "gw_reachable H P m gs s"
  shows "numbers_inv s \<and> window_inv s \<and> history_inv H P m gs s"
  using assms(2) unfolding gw_reachable_def
proof (induction rule: rtranclp_induct)
  case base
  note st = gateway_start_store [OF assms(1)]
  have "validate_key (key_primes key) = Ok ()" if "store_load (gs_store gs) dev = Ok key" for dev key
    using gw_keys.load_usable [OF st(1) that] by (simp add: usable_key_def validate_key_Ok_iff)
  then show ?case
    using st(2,3)
    by (simp add: numbers_inv_def window_inv_def history_inv_def log_backed_def key_known_def gw_init_def pending_def
        List.map_filter_def)
next
  case (step s s')
  then show ?case using gw_step_inv [OF step.hyps(2)] history_inv_step [OF step.hyps(2)] by blast
qed

section \<open>The tasks run the sequential handlers\<close>

text \<open>The events of the sequential handlers that a record stands for.\<close>

fun record_event :: "gw_record \<Rightarrow> gw_event option" where
  "record_event (Sealed aad pdu env key) = Some (Forward (forward_envelope env))"
| "record_event (Delivered proto env aad pdu key) =
     Some (Forward (forward_envelope (case proto of ModbusTcp \<Rightarrow> reassemble_modbus pdu | Dnp3 \<Rightarrow> pdu)))"
| "record_event (Reported e) = Some (Siem e)"
| "record_event _ = None"

fun external :: "gw_event \<Rightarrow> bool" where
  "external (WrapFailed e) = False"
| "external _ = True"

definition ingress_frame ::
    "ProtocolId \<Rightarrow> mac \<Rightarrow> module_state \<Rightarrow> key_load \<Rightarrow> SequenceCounter \<Rightarrow> bytes
       \<Rightarrow> (gw_event list, FrameError) res \<times> SequenceCounter" where
  "ingress_frame proto = (case proto of ModbusTcp \<Rightarrow> ingress_modbus_frame | Dnp3 \<Rightarrow> ingress_dnp3_frame)"

lemma ingress_frame_extract:
  "ingress_frame proto H m load c frame =
     (case extract_ot proto frame of
        Err _ \<Rightarrow> (Ok [Siem PARSE_ERR], c) | Panic \<Rightarrow> (Panic, c)
      | Ok (dev, pdu) \<Rightarrow> ingress_seal H m load c proto dev pdu)"
  by (auto simp: ingress_frame_def extract_ot_def ingress_modbus_frame_def ingress_dnp3_frame_def
      split: ProtocolId.split res.split)

text \<open>\<open>s'\<close> is \<open>s\<close> after a handler that left the counters \<open>c'\<close> and produced the events \<open>evs\<close>.\<close>

definition handled :: "gw_sys \<Rightarrow> SequenceCounter \<Rightarrow> gw_event list \<Rightarrow> gw_sys \<Rightarrow> bool" where
  "handled s c evs s' \<longleftrightarrow> sys_counters s' = c \<and> sys_tasks s' = sys_tasks s \<and> sys_store s' = sys_store s \<and>
     (\<exists>recs. sys_log s' = sys_log s @ recs \<and> List.map_filter record_event recs = filter external evs)"

lemma handledI:
  assumes "sys_counters s' = c" "sys_tasks s' = sys_tasks s" "sys_store s' = sys_store s"
    and "sys_log s' = sys_log s @ recs" "List.map_filter record_event recs = filter external evs"
  shows "handled s c evs s'"
  using assms by (auto simp: handled_def)

lemma ingress_seal_steps:
  assumes t: "sys_tasks s i = Some (IngressRead proto)" "frame_read frame" "\<not> sys_poisoned s"
    and x: "extract_ot proto frame = Ok (dev, pdu)"
    and r: "ingress_seal H m (store_load (sys_store s)) (sys_counters s) proto dev pdu = (Ok evs, c')"
  shows "\<exists>s'. (gw_step H P m L)\<^sup>*\<^sup>* s s' \<and> handled s c' evs s'"
proof -
  obtain n where n: "next_seq (sys_counters s) proto dev = (Ok n, c')"
    using r by (auto simp: ingress_seal_def split: prod.splits res.splits)
  define aad where "aad = \<lparr>protocol = proto, device_id = dev, seq = n\<rparr>"
  define s1 where "s1 = set_task i (Some (IngressSeal aad pdu)) (set_counters c' (received Ingress proto frame s))"
  have one: "gw_step H P m L s s1" unfolding s1_def aad_def by (rule ingress_number [OF t(1,2) x t(3) n])
  have s1: "sys_tasks s1 i = Some (IngressSeal aad pdu)" "sys_store s1 = sys_store s" "sys_log s1 = sys_log s @ [Received Ingress proto frame]"
    "sys_counters s1 = c'" "(sys_tasks s1)(i \<mapsto> IngressRead proto) = sys_tasks s"
    using t(1) by (auto simp: s1_def gw_updates)
  have dev: "device_id aad = dev" "protocol aad = proto" by (simp_all add: aad_def)
  have out: "(case store_load (sys_store s) dev of
       Err _ \<Rightarrow> (Ok [Siem KEY_MISSING], c') | Panic \<Rightarrow> (Panic, c')
     | Ok key \<Rightarrow> (case wrap_pdu H m pdu aad key of
         Err e \<Rightarrow> (Ok [WrapFailed e], c') | Panic \<Rightarrow> (Panic, c')
       | Ok envelope \<Rightarrow> (Ok [Forward (forward_envelope envelope)], c')))
     = (Ok evs :: (gw_event list, FrameError) res, c')"
    using r n unfolding aad_def by (simp add: ingress_seal_def)
  consider (none) e where "store_load (sys_store s) dev = Err e" "evs = [Siem KEY_MISSING]"
    | (wrapped) key env where "store_load (sys_store s) dev = Ok key" "wrap_pdu H m pdu aad key = Ok env"
        "evs = [Forward (forward_envelope env)]"
    | (failed) key e where "store_load (sys_store s) dev = Ok key" "wrap_pdu H m pdu aad key = Err e"
        "evs = [WrapFailed e]"
    using out by (auto split: res.splits)
  then have "\<exists>s2. gw_step H P m L s1 s2 \<and> handled s c' evs s2"
  proof cases
    case none
    let ?s2 = "log_record (Reported KEY_MISSING) (set_task i (Some (IngressRead proto)) s1)"
    have "handled s c' evs ?s2"
      by (rule handledI [of _ _ _ "[Received Ingress proto frame, Reported KEY_MISSING]"]) (simp_all add: gw_updates s1 none)
    with ingress_no_key [OF s1(1), of e H P m L] none s1 dev show ?thesis by auto
  next
    case wrapped
    let ?s2 = "log_record (Sealed aad pdu env key) (set_task i (Some (IngressRead proto)) s1)"
    have "handled s c' evs ?s2"
      by (rule handledI [of _ _ _ "[Received Ingress proto frame, Sealed aad pdu env key]"]) (simp_all add: gw_updates s1 wrapped)
    with ingress_sealed [OF s1(1), of key H m env P L] wrapped s1 dev show ?thesis by auto
  next
    case failed
    let ?s2 = "set_task i (Some (IngressRead proto)) s1"
    have "handled s c' evs ?s2"
      by (rule handledI [of _ _ _ "[Received Ingress proto frame]"]) (simp_all add: gw_updates s1 failed)
    with ingress_wrap_failed [OF s1(1), of key H m e P L] failed s1 dev show ?thesis by auto
  qed
  with one show ?thesis by (meson rtranclp.rtrancl_into_rtrancl r_into_rtranclp)
qed

lemma ingress_frame_steps:
  assumes t: "sys_tasks s i = Some (IngressRead proto)" "frame_read frame" "\<not> sys_poisoned s"
    and r: "ingress_frame proto H m (store_load (sys_store s)) (sys_counters s) frame = (Ok evs, c')"
  shows "\<exists>s'. (gw_step H P m L)\<^sup>*\<^sup>* s s' \<and> handled s c' evs s'"
proof (cases "extract_ot proto frame")
  case (Ok x)
  then obtain dev pdu where "extract_ot proto frame = Ok (dev, pdu)" by (cases x) simp
  then show ?thesis
    using ingress_seal_steps [OF t, of dev pdu H m evs c' P L] r by (simp add: ingress_frame_extract)
next
  case (Err e)
  then have "gw_step H P m L s (log_record (Reported PARSE_ERR) (received Ingress proto frame s))"
    using ingress_parse_error [OF t(1,2), of H P m L] by simp
  moreover have "handled s c' evs (log_record (Reported PARSE_ERR) (received Ingress proto frame s))"
    using r Err by (intro handledI [of _ _ _ "[Received Ingress proto frame, Reported PARSE_ERR]"]) (auto simp: ingress_frame_extract gw_updates)
  ultimately show ?thesis by blast
qed (use r in \<open>simp add: ingress_frame_extract\<close>)

text \<open>The events of the egress handler once the envelope has been opened.\<close>

definition egress_outcome ::
    "ProtocolId \<Rightarrow> (bytes, FrameError) res \<Rightarrow> (gw_event list, FrameError) res" where
  "egress_outcome proto r =
     (case r of
        Err _ \<Rightarrow> Ok [Siem AUTH_FAIL] | Panic \<Rightarrow> Panic
      | Ok pdu \<Rightarrow> Ok [Forward (forward_envelope (case proto of ModbusTcp \<Rightarrow> reassemble_modbus pdu | Dnp3 \<Rightarrow> pdu))])"

lemma egress_envelope_loaded:
  assumes "peek_device_id env = Some dev" "load dev = Ok key"
  shows "egress_envelope H m load proto c env =
    (case unwrap_pdu H m env key c of (r, c') \<Rightarrow> (egress_outcome proto r, c'))"
  using assms by (auto simp: egress_envelope_def egress_outcome_def split: prod.split res.split)

lemma unwrap_parsed:
  assumes "unwrap_pdu H m env key c = (Ok pdu, c')"
  obtains p dev n blob_start blob_len where "parse_envelope_header env = Ok (p, dev, n, blob_start, blob_len)"
proof -
  obtain aad where "open_envelope H m env key = Ok (aad, pdu)"
    using assms by (cases rule: unwrap_pdu_cases [of H m env key c]) auto
  then show thesis using that by (auto simp: open_envelope_def)
qed

lemma egress_open_steps:
  assumes t: "sys_tasks s i = Some (EgressOpen proto env key)"
    and u: "unwrap_pdu H m env key (sys_counters s) = (res, c')"
    and s0: "sys_tasks s0 = (sys_tasks s)(i \<mapsto> EgressRead proto)" "sys_store s0 = sys_store s" "sys_log s = sys_log s0 @ [Received Egress proto env]"
    and r: "egress_outcome proto res = Ok evs"
  shows "\<exists>s'. gw_step H P m L s s' \<and> handled s0 c' evs s'"
proof (cases res)
  case (Ok pdu)
  obtain p dev n blob_start blob_len where h: "parse_envelope_header env = Ok (p, dev, n, blob_start, blob_len)"
    using unwrap_parsed [OF u [unfolded Ok]] .
  define aad where "aad = \<lparr>protocol = p, device_id = dev, seq = n\<rparr>"
  note step = egress_delivered [OF t u [unfolded Ok] h, of P L, folded aad_def]
  have "handled s0 c' evs (log_record (Delivered proto env aad pdu key) (set_task i (Some (EgressRead proto)) (set_counters c' s)))"
    using r Ok by (intro handledI [of _ _ _ "[Received Egress proto env, Delivered proto env aad pdu key]"]) (auto simp: gw_updates s0 egress_outcome_def)
  with step show ?thesis by auto
next
  case (Err f)
  note step = egress_refused [OF t, of H m f c' P L]
  have "handled s0 c' evs (log_record (Reported AUTH_FAIL) (set_task i (Some (EgressRead proto)) (set_counters c' s)))"
    using r Err by (intro handledI [of _ _ _ "[Received Egress proto env, Reported AUTH_FAIL]"]) (auto simp: gw_updates s0 egress_outcome_def)
  with step u Err show ?thesis by auto
qed (use r in \<open>simp add: egress_outcome_def\<close>)

lemma egress_envelope_steps:
  assumes t: "sys_tasks s i = Some (EgressRead proto)" "envelope_read env"
    and r: "egress_envelope H m (store_load (sys_store s)) proto (sys_counters s) env = (Ok evs, c')"
  shows "\<exists>s'. (gw_step H P m L)\<^sup>*\<^sup>* s s' \<and> handled s c' evs s'"
proof (cases "peek_device_id env")
  case None
  then have "handled s c' evs (log_record (Reported PARSE_ERR) (received Egress proto env s))"
    using r by (intro handledI [of _ _ _ "[Received Egress proto env, Reported PARSE_ERR]"]) (auto simp: egress_envelope_def gw_updates)
  with egress_malformed [OF t None, of H P m L] show ?thesis by blast
next
  case (Some dev)
  show ?thesis
  proof (cases "store_load (sys_store s) dev")
    case (Err e)
    then have "handled s c' evs (log_record (Reported KEY_MISSING) (received Egress proto env s))"
      using r Some by (intro handledI [of _ _ _ "[Received Egress proto env, Reported KEY_MISSING]"]) (auto simp: egress_envelope_def gw_updates)
    with egress_no_key [OF t Some Err, of H P m L] show ?thesis by blast
  next
    case (Ok key)
    define s1 where "s1 = set_task i (Some (EgressOpen proto env key)) (received Egress proto env s)"
    have one: "gw_step H P m L s s1" unfolding s1_def by (rule egress_loaded [OF t Some Ok])
    have s1: "sys_tasks s1 i = Some (EgressOpen proto env key)" "sys_counters s1 = sys_counters s"
      "sys_tasks s = (sys_tasks s1)(i \<mapsto> EgressRead proto)" "sys_store s = sys_store s1" "sys_log s1 = sys_log s @ [Received Egress proto env]"
      using t(1) by (auto simp: s1_def gw_updates)
    from r have "\<exists>s2. gw_step H P m L s1 s2 \<and> handled s c' evs s2"
      unfolding egress_envelope_loaded [of env dev "store_load (sys_store s)" key, OF Some Ok]
      by (auto split: prod.splits intro!: egress_open_steps [OF s1(1) _ s1(3-5)] simp: s1(2))
    with one show ?thesis by (meson rtranclp.rtrancl_into_rtrancl r_into_rtranclp)
  qed (simp add: gw_keys.load_total)
qed

section \<open>The loops\<close>

lemma poll_key_find:
  "poll_key store i n =
     (case List.find (\<lambda>j. SessionKeyStore_is_ready (store j)) [i..<i + n] of Some j \<Rightarrow> (j, True) | None \<Rightarrow> (i + n, False))"
proof (induction n arbitrary: i)
  case (Suc n)
  have "[i..<i + Suc n] = i # [Suc i..<Suc i + n]" by (simp add: upt_conv_Cons del: upt_Suc)
  then show ?case using Suc.IH [of "Suc i"] by (simp del: upt_Suc split: option.split)
qed simp

lemma initiator_loop_store:
  "fst (run_initiator_loop interval km rs) = foldl rekey_step km (takeWhile (\<lambda>r. r \<noteq> Panic) rs)"
  by (induction interval km rs rule: run_initiator_loop.induct)
    (auto simp: rekey_step_def split: res.split prod.split)

lemma responder_loop_store:
  "fst (responder_iterations km rs) = foldl rekey_step km (takeWhile (\<lambda>r. r \<noteq> Panic) rs)"
  by (induction km rs rule: responder_iterations.induct) (auto simp: rekey_step_def split: res.split prod.split)

lemma initiator_loop_sleeps:
  "snd (run_initiator_loop interval km rs) =
     map (\<lambda>r. if is_ok r then interval else 5) (takeWhile (\<lambda>r. r \<noteq> Panic) rs)"
  by (induction interval km rs rule: run_initiator_loop.induct) (auto split: res.split prod.split)

lemma rekey_fold_other: "dev \<noteq> WILDCARD_DEVICE_ID \<Longrightarrow> foldl rekey_step km rs dev = km dev"
  by (induction rs arbitrary: km) (auto simp: rekey_step_def SessionKeyStore_insert_def split: res.split)

lemma rekey_fold_quiet: "list_all (\<lambda>r. \<not> is_ok r) rs \<Longrightarrow> foldl rekey_step km rs = km"
  by (induction rs) (auto simp: rekey_step_def split: res.splits)

lemma rekey_fold_latest:
  assumes "list_all (\<lambda>r. \<not> is_ok r) later" "km dev = None"
  shows "SessionKeyStore_load (foldl rekey_step km (earlier @ Ok key # later)) dev = Ok key"
proof (cases "dev = WILDCARD_DEVICE_ID")
  case True
  then show ?thesis
    using assms(1) by (simp add: rekey_fold_quiet rekey_step_def SessionKeyStore_insert_def SessionKeyStore_load_def)
next
  case False
  then show ?thesis
    using assms by (simp add: rekey_fold_quiet rekey_load rekey_fold_other)
qed

lemma wait_for_key_first_ready:
  "wait_for_key store =
     (case List.find (\<lambda>i. SessionKeyStore_is_ready (store i)) [0..<240] of Some i \<Rightarrow> (i, True) | None \<Rightarrow> (240, False))"
  unfolding wait_for_key_def poll_key_find add_0 by (rule refl)

lemma listeners_of_the_mode:
  "\<forall>(dir, proto, addr) \<in> set (start_ot_listeners cfg).
     cfg_mode cfg = (case dir of Ingress \<Rightarrow> ''ingress'' | Egress \<Rightarrow> ''egress'') \<and>
     (case proto of ModbusTcp \<Rightarrow> ''modbus'' | Dnp3 \<Rightarrow> ''dnp3'') \<in> set (cfg_protocols cfg)"
  by (auto simp: start_ot_listeners_def List.map_filter_def split: if_splits)

lemma kem_background_iff:
  assumes "(\<exists>km. gs_store gs = SessionStore km) \<longleftrightarrow> use_kem (gs_config gs)"
  shows "kem_background gs =
    (if use_kem (gs_config gs)
     then Some (if cfg_mode (gs_config gs) = ''ingress''
                then Initiator (cfg_kem_peer_addr (gs_config gs)) (rekey_interval (gs_config gs))
                else Responder (cfg_kem_listen_addr (gs_config gs)))
     else None)"
  using assms by (cases "gs_store gs") (auto simp: kem_background_def use_kem_def split: if_splits)

section \<open>From one gateway to the other\<close>

text \<open>A data unit of a frame that fits the read buffer fits the largest block.\<close>

lemma unit_received_length:
  assumes "unit_received log aad pdu"
  shows "length pdu \<le> MAX_PLAINTEXT_CODEPOINTS"
proof -
  obtain frame where f: "frame_read frame" "extract_ot (protocol aad) frame = Ok (device_id aad, pdu)"
    using assms by (auto simp: unit_received_def)
  have "length pdu \<le> length frame"
    using f(2) by (auto simp: extract_ot_def extract_pdu_def extract_payload_def Let_def
        split: ProtocolId.splits res.splits prod.splits if_splits)
  then show ?thesis using f(1) by (simp add: frame_read_def)
qed

lemma wrapped_envelope_read:
  assumes "operational m" "usable_key key" "length pdu \<le> MAX_PLAINTEXT_CODEPOINTS"
    and "wrap_pdu H m pdu aad key = Ok env"
  shows "envelope_read env"
proof -
  obtain blob where env: "env = ENVELOPE_MAGIC @ [proto_u8 (protocol aad)] @ word_bytes (device_id aad)
      @ word_bytes (seq aad) @ be_bytes 4 (length blob) @ blob" and blob: "length blob \<le> 48 + 160 * 65538"
    by (rule wrapped_shape [OF assms])
  have "take 4 (drop 19 env) = be_bytes 4 (length blob)" by (simp add: env ENVELOPE_MAGIC_def)
  moreover have "length blob < 256 ^ 4" using blob by simp
  ultimately have "be_val (take 4 (drop 19 env)) = length blob" by simp
  then show ?thesis using blob by (simp add: envelope_read_def MAX_BLOB_def) (simp add: env ENVELOPE_MAGIC_def)
qed

lemma egress_delivers_steps:
  assumes t: "sys_tasks s i = Some (EgressRead proto)" "envelope_read env"
    and opn: "open_envelope H m env key = Ok (aad, pdu)" and key: "store_load (sys_store s) (device_id aad) = Ok key"
    and win: "last_seen (sys_counters s) (protocol aad, device_id aad) < seq aad"
  shows "\<exists>s'. (gw_step H P m L)\<^sup>*\<^sup>* s s' \<and> sys_tasks s' = sys_tasks s \<and>
     sys_log s' = sys_log s @ [Received Egress proto env, Delivered proto env aad pdu key] \<and>
     last_seen (sys_counters s') (protocol aad, device_id aad) = seq aad"
proof -
  let ?s1 = "set_task i (Some (EgressOpen proto env key)) (received Egress proto env s)"
  have one: "gw_step H P m L s ?s1" by (rule egress_loaded [OF t open_envelope_device [OF opn] key])
  obtain c' where u: "unwrap_pdu H m env key (sys_counters s) = (Ok pdu, c')"
      and c': "last_seen c' (protocol aad, device_id aad) = seq aad"
    by (rule unwrap_opened [OF opn win])
  obtain p dev n blob_start blob_len where h: "parse_envelope_header env = Ok (p, dev, n, blob_start, blob_len)"
    by (rule unwrap_parsed [OF u])
  have aad: "\<lparr>protocol = p, device_id = dev, seq = n\<rparr> = aad" using unwrap_header [OF u h] opn by simp
  let ?s2 = "log_record (Delivered proto env aad pdu key) (set_task i (Some (EgressRead proto)) (set_counters c' ?s1))"
  have "gw_step H P m L ?s1 ?s2"
    using egress_delivered [of ?s1 i proto env key H m pdu c' p dev n blob_start blob_len P L, unfolded aad] u h
    by (simp add: gw_updates)
  with one have "(gw_step H P m L)\<^sup>*\<^sup>* s ?s2" by (meson rtranclp.rtrancl_into_rtrancl r_into_rtranclp)
  moreover have "sys_tasks ?s2 = sys_tasks s" using t(1) by (auto simp: gw_updates)
  ultimately show ?thesis using c' by (intro exI [of _ ?s2]) (simp add: gw_updates)
qed

lemma wrap_pdu_operational: "wrap_pdu H m pdu aad key = Ok env \<Longrightarrow> operational m"
  by (auto simp: wrap_pdu_def encrypt_bytes_v8_key_def operational_def)

lemma wrap_pdu_module:
  "operational m \<Longrightarrow> operational m' \<Longrightarrow> wrap_pdu H m pdu aad key = wrap_pdu H m' pdu aad key"
  by (simp add: wrap_pdu_def encrypt_bytes_v8_key_def operational_def)

section \<open>A sample run\<close>

text \<open>An ingress gateway with one pre-shared key, and a Modbus frame of unit nine.\<close>

definition sample_raw_config :: RawConfig where
  "sample_raw_config = \<lparr>raw_mode = Some ''ingress'', raw_protocols = None, raw_forward_addr = Some ''10.0.0.2:5502'',
     raw_siem_addr = None, raw_modbus_listen = None, raw_dnp3_listen = None, raw_modbus_secure_listen = None,
     raw_dnp3_secure_listen = None, raw_kem_listen_addr = None, raw_kem_peer_addr = None,
     raw_kem_rekey_interval_secs = None, raw_key_store_path = Some ''keys.json''\<rparr>"

definition sample_entries :: "(str \<times> FileKeyEntry) list" where
  "sample_entries = [([57], \<lparr>entry_primes = sample_key, entry_sk_hex = replicate 64 48\<rparr>)]"

abbreviation sample_file_key :: NapqesKey where
  "sample_file_key \<equiv> \<lparr>key_primes = sample_key, key_sk = replicate 32 0\<rparr>"

definition sample_gateway :: GatewayState where
  "sample_gateway = \<lparr>gs_config = the (Config_of sample_raw_config), gs_store = FileStore [9 \<mapsto> sample_file_key],
     gs_counters = SequenceCounter_new, gs_siem = False\<rparr>"

lemma sample_key_usable: "usable_key sample_file_key"
  using NapqesKey_new_Ok [of sample_key "replicate 32 0"] by (simp add: NapqesKey_new_def validate_sample_key)

lemma sample_store_loads: "FileKeyStore_load_entries sample_entries Map.empty = Ok [9 \<mapsto> sample_file_key]"
proof -
  have "from_str_radix 10 u64_limit [57] = Some 9" by (simp add: from_str_radix_def digit_val_def u64_limit_def)
  moreover have "NapqesKey_new sample_key (replicate 32 0) = Ok sample_file_key"
    by (simp add: NapqesKey_new_def validate_sample_key)
  ultimately show ?thesis by (simp add: sample_entries_def parse_zero_hex)
qed

lemma sample_start:
  "gateway_start (Ok ()) (Some (Some sample_raw_config)) (\<lambda>_. Some sample_entries) False = Ok sample_gateway"
  by (simp add: gateway_start_def sample_gateway_def sample_raw_config_def Config_of_def or_default_def
      choose_store_def use_kem_def sample_store_loads)

lemma sample_run:
  obtains s env where "gw_reachable (\<lambda>_ _. 0) P open_module sample_gateway s"
    and "sys_log s = [Received Ingress ModbusTcp [0, 1, 0, 0, 0, 2, 9, 3],
          Sealed \<lparr>protocol = ModbusTcp, device_id = 9, seq = 1\<rparr> [9, 3] env sample_file_key]"
proof -
  let ?frame = "[0, 1, 0, 0, 0, 2, 9, 3] :: bytes"
  let ?aad = "\<lparr>protocol = ModbusTcp, device_id = 9, seq = 1\<rparr>"
  let ?L = "start_ot_listeners (gs_config sample_gateway)"
  let ?step = "gw_step (\<lambda>_ _. 0) P open_module ?L"
  note key = sample_key_usable
  obtain env where env: "wrap_pdu (\<lambda>_ _. 0) open_module [9, 3] ?aad sample_file_key = Ok env"
    using open_wrapped [OF _ key, of open_module "[9, 3]" "\<lambda>_ _. 0" ?aad] fips_check_open_module
    by (auto simp: operational_def)
  have "(Ingress, ModbusTcp, default_modbus_listen) \<in> set ?L"
    by (simp add: start_ot_listeners_def sample_gateway_def sample_raw_config_def Config_of_def or_default_def
        default_protocols_def List.map_filter_def)
  note start = accept_ingress [OF this, of "gw_init sample_gateway" 0]
  let ?s1 = "set_task 0 (Some (IngressRead ModbusTcp)) (gw_init sample_gateway)"
  have one: "?step (gw_init sample_gateway) ?s1" using start by (simp add: gw_init_def)
  have x: "extract_ot ModbusTcp ?frame = Ok (9, [9, 3])"
    by (simp add: extract_ot_def extract_pdu_def be16_word_def be_val_def MODBUS_PROTOCOL_ID_def)
  obtain c where n: "next_seq SequenceCounter_new ModbusTcp 9 = (Ok 1, c)"
    by (simp add: next_seq_def Let_def entry_or_0_def SequenceCounter_new_def)
  let ?s2 = "set_task 0 (Some (IngressSeal ?aad [9, 3])) (set_counters c (received Ingress ModbusTcp ?frame ?s1))"
  have two: "?step ?s1 ?s2"
    by (rule ingress_number [OF _ _ x]) (simp_all add: gw_updates gw_init_def sample_gateway_def frame_read_def n)
  let ?s3 = "log_record (Sealed ?aad [9, 3] env sample_file_key) (set_task 0 (Some (IngressRead (protocol ?aad))) ?s2)"
  have three: "?step ?s2 ?s3"
    by (rule ingress_sealed [OF _ _ env]) (simp_all add: gw_updates gw_init_def sample_gateway_def FileKeyStore_load_def)
  show thesis
  proof (rule that)
    show "gw_reachable (\<lambda>_ _. 0) P open_module sample_gateway ?s3"
      unfolding gw_reachable_def
      using one two three by (blast intro: rtranclp.rtrancl_into_rtrancl)
  qed (simp_all add: gw_updates gw_init_def)
qed

text \<open>The egress gateway with the same key, and the envelope the other one sealed.\<close>

definition sample_egress_config :: RawConfig where
  "sample_egress_config = sample_raw_config\<lparr>raw_mode := Some ''egress''\<rparr>"

definition sample_egress :: GatewayState where
  "sample_egress = sample_gateway\<lparr>gs_config := the (Config_of sample_egress_config)\<rparr>"

lemma sample_egress_start:
  "gateway_start (Ok ()) (Some (Some sample_egress_config)) (\<lambda>_. Some sample_entries) False = Ok sample_egress"
  by (simp add: gateway_start_def sample_egress_def sample_gateway_def sample_egress_config_def sample_raw_config_def
      Config_of_def or_default_def choose_store_def use_kem_def sample_store_loads)

lemma sample_accepted:
  obtains s where "gw_reachable H P m sample_egress s" "sys_tasks s 0 = Some (EgressRead ModbusTcp)" "sys_log s = []"
    "sys_store s = gs_store sample_egress" "sys_counters s = SequenceCounter_new"
proof -
  have "(Egress, ModbusTcp, default_modbus_secure) \<in> set (start_ot_listeners (gs_config sample_egress))"
    by (simp add: start_ot_listeners_def sample_egress_def sample_egress_config_def sample_raw_config_def Config_of_def
        or_default_def default_protocols_def List.map_filter_def)
  from accept_egress [OF this, of "gw_init sample_egress" 0]
  show thesis
    by (intro that [of "set_task 0 (Some (EgressRead ModbusTcp)) (gw_init sample_egress)"])
      (auto simp: gw_reachable_def gw_init_def set_task_def sample_egress_def sample_gateway_def)
qed

lemma sample_delivery:
  obtains s env where "gw_reachable (\<lambda>_ _. 0) P open_module sample_egress s"
    "sys_log s = [Received Egress ModbusTcp env,
       Delivered ModbusTcp env \<lparr>protocol = ModbusTcp, device_id = 9, seq = 1\<rparr> [9, 3] sample_file_key]"
proof -
  let ?aad = "\<lparr>protocol = ModbusTcp, device_id = 9, seq = 1\<rparr>"
  have op: "operational open_module" by (simp add: operational_def)
  obtain env where env: "wrap_pdu (\<lambda>_ _. 0) open_module [9, 3] ?aad sample_file_key = Ok env"
      "open_envelope (\<lambda>_ _. 0) open_module env sample_file_key = Ok (?aad, [9, 3])"
    using open_wrapped [OF op sample_key_usable, of "[9, 3]" "\<lambda>_ _. 0" ?aad] by auto
  have r: "envelope_read env" by (rule wrapped_envelope_read [OF op sample_key_usable _ env(1)]) simp
  obtain s where s: "gw_reachable (\<lambda>_ _. 0) P open_module sample_egress s" "sys_tasks s 0 = Some (EgressRead ModbusTcp)"
      "sys_log s = []" "sys_store s = gs_store sample_egress" "sys_counters s = SequenceCounter_new"
    by (rule sample_accepted)
  have l: "store_load (sys_store s) (device_id ?aad) = Ok sample_file_key"
    "last_seen (sys_counters s) (protocol ?aad, device_id ?aad) < seq ?aad"
    by (simp_all add: s sample_egress_def sample_gateway_def FileKeyStore_load_def last_seen_def entry_or_0_def
        SequenceCounter_new_def)
  from egress_delivers_steps [OF s(2) r env(2) l, of P "start_ot_listeners (gs_config sample_egress)"] s(1,3)
  show thesis using that [of _ env] unfolding gw_reachable_def by (auto intro: rtranclp_trans)
qed

section \<open>Properties\<close>

text \<open>
  C9: with any number of connections running concurrently, with re-keying in between and with
  connections dying from panics, the gateway never seals two envelopes under the same protocol,
  device and sequence number, and never delivers the same header twice.
\<close>

theorem concurrent_headers_unique:
  assumes "gateway_start post_result config_file read_store siem_bound = Ok gs"
    and "gw_reachable H P m gs s"
  shows "distinct (List.map_filter sealed_aad (sys_log s)) \<and> distinct (List.map_filter delivered_aad (sys_log s))"
  using gw_reachable_inv [OF assms] by (simp add: numbers_inv_def window_inv_def)

theorem concurrent_headers_unique_witness:
  "\<exists>s. gw_reachable (\<lambda>_ _. 0) sample_prims open_module sample_gateway s \<and>
     List.map_filter sealed_aad (sys_log s) = [\<lparr>protocol = ModbusTcp, device_id = 9, seq = 1\<rparr>] \<and>
     distinct (List.map_filter sealed_aad (sys_log s))"
proof -
  obtain s env where s: "gw_reachable (\<lambda>_ _. 0) sample_prims open_module sample_gateway s"
      "sys_log s = [Received Ingress ModbusTcp [0, 1, 0, 0, 0, 2, 9, 3],
          Sealed \<lparr>protocol = ModbusTcp, device_id = 9, seq = 1\<rparr> [9, 3] env sample_file_key]"
    by (rule sample_run)
  from concurrent_headers_unique [OF sample_start s(1)] s show ?thesis
    by (intro exI [of _ s]) (simp add: map_filter_step)
qed

text \<open>
  C10: whatever the interleaving, the history explains every effect of the gateway. Each sealed
  envelope is the result of wrapping, under a valid key known for the device, the data unit that
  the extractor found in a frame received before on an ingress connection of that protocol. Each
  delivered data unit is what an envelope received before, complete, on an egress connection of
  that listener opened to, with the recorded header, under a valid key known for the device. A
  key is known when the store held it for the device at the start or an exchange installed it
  before, and exchanges only install derived keys and only where an exchange is configured. The
  store never holds a key that validation rejects.
\<close>

theorem concurrent_records_backed:
  assumes "gateway_start post_result config_file read_store siem_bound = Ok gs"
    and "gw_reachable H P m gs s"
  shows "(\<forall>earlier r later. sys_log s = earlier @ r # later \<longrightarrow>
      (case r of
         Sealed aad pdu env key \<Rightarrow> wrap_pdu H m pdu aad key = Ok env \<and>
           (\<exists>frame. Received Ingress (protocol aad) frame \<in> set earlier \<and>
              extract_ot (protocol aad) frame = Ok (device_id aad, pdu)) \<and> key_known gs earlier (device_id aad) key
       | Delivered proto env aad pdu key \<Rightarrow> open_envelope H m env key = Ok (aad, pdu) \<and>
           Received Egress proto env \<in> set earlier \<and> envelope_read env \<and> key_known gs earlier (device_id aad) key
       | Rekeyed key \<Rightarrow> use_kem (gs_config gs) \<and> (\<exists>ss. derive_v8_key H P ss = Ok key)
       | _ \<Rightarrow> True)) \<and>
    (\<forall>dev key. store_load (sys_store s) dev = Ok key \<longrightarrow> validate_key (key_primes key) = Ok ())"
proof -
  have inv: "history_inv H P m gs s" using gw_reachable_inv [OF assms] by blast
  then have store: "validate_key (key_primes key) = Ok ()" if "store_load (sys_store s) dev = Ok key" for dev key
    using that unfolding history_inv_def key_known_def by blast
  have "backed H P m gs earlier r" if "sys_log s = earlier @ r # later" for earlier r later
    using inv that unfolding history_inv_def log_backed_def by blast
  then have "case r of
         Sealed aad pdu env key \<Rightarrow> wrap_pdu H m pdu aad key = Ok env \<and>
           (\<exists>frame. Received Ingress (protocol aad) frame \<in> set earlier \<and>
              extract_ot (protocol aad) frame = Ok (device_id aad, pdu)) \<and> key_known gs earlier (device_id aad) key
       | Delivered proto env aad pdu key \<Rightarrow> open_envelope H m env key = Ok (aad, pdu) \<and>
           Received Egress proto env \<in> set earlier \<and> envelope_read env \<and> key_known gs earlier (device_id aad) key
       | Rekeyed key \<Rightarrow> use_kem (gs_config gs) \<and> (\<exists>ss. derive_v8_key H P ss = Ok key)
       | _ \<Rightarrow> True" if "sys_log s = earlier @ r # later" for earlier r later
    using that by (cases r) (fastforce simp: unit_received_def envelope_received_def)+
  with store show ?thesis by blast
qed

theorem concurrent_records_backed_witness:
  "\<exists>s env. gw_reachable (\<lambda>_ _. 0) sample_prims open_module sample_egress s \<and>
     sys_log s = [Received Egress ModbusTcp env,
       Delivered ModbusTcp env \<lparr>protocol = ModbusTcp, device_id = 9, seq = 1\<rparr> [9, 3] sample_file_key] \<and>
     open_envelope (\<lambda>_ _. 0) open_module env sample_file_key = Ok (\<lparr>protocol = ModbusTcp, device_id = 9, seq = 1\<rparr>, [9, 3]) \<and>
     envelope_read env"
proof -
  obtain s env where s: "gw_reachable (\<lambda>_ _. 0) sample_prims open_module sample_egress s"
      "sys_log s = [Received Egress ModbusTcp env] @
         Delivered ModbusTcp env \<lparr>protocol = ModbusTcp, device_id = 9, seq = 1\<rparr> [9, 3] sample_file_key # []"
    by (rule sample_delivery) simp
  from conjunct1 [OF concurrent_records_backed [OF sample_egress_start s(1)], rule_format, OF s(2)] s
  show ?thesis by (intro exI [of _ s] exI [of _ env]) simp
qed

text \<open>
  C34: what one gateway seals, the other can deliver. An envelope in the history of a running
  ingress gateway, presented on an egress connection of a gateway whose module is operational,
  whose store loads the sealing key for the device and whose receive window is behind the number
  of the envelope, is a complete envelope for the reader, and the waiting task has steps in which
  it is received and the same data unit is delivered with the same header, the window moves to
  the number, and every task is as before. No condition on the size of the data unit is needed:
  what the extractors accept always fits.
\<close>

theorem sealed_unit_deliverable:
  assumes "gateway_start post_result config_file read_store siem_bound = Ok gs" "gw_reachable H P m gs s"
    and "Sealed aad pdu env key \<in> set (sys_log s)"
    and "fips_check m' = Ok ()" "sys_tasks t i = Some (EgressRead proto)"
    and "store_load (sys_store t) (device_id aad) = Ok key"
    and "last_seen (sys_counters t) (protocol aad, device_id aad) < seq aad"
  shows "\<exists>t'. (gw_step H P' m' L)\<^sup>*\<^sup>* t t' \<and> sys_tasks t' = sys_tasks t \<and>
     sys_log t' = sys_log t @ [Received Egress proto env, Delivered proto env aad pdu key] \<and>
     last_seen (sys_counters t') (protocol aad, device_id aad) = seq aad"
proof -
  have "history_inv H P m gs s" using gw_reachable_inv [OF assms(1,2)] by blast
  moreover obtain earlier later where "sys_log s = earlier @ Sealed aad pdu env key # later"
    using assms(3) by (meson split_list)
  ultimately have b: "backed H P m gs earlier (Sealed aad pdu env key)"
    unfolding history_inv_def log_backed_def by blast
  then have w: "wrap_pdu H m pdu aad key = Ok env" and use: "usable_key key"
    by (simp_all add: key_known_def usable_key_def validate_key_Ok_iff)
  have len: "length pdu \<le> MAX_PLAINTEXT_CODEPOINTS" using b by (intro unit_received_length [of earlier aad]) simp
  have op: "operational m'" using assms(4) by (simp add: operational_def)
  have w': "wrap_pdu H m' pdu aad key = Ok env" using w wrap_pdu_module [OF wrap_pdu_operational [OF w] op] by simp
  have "open_envelope H m' env key = Ok (aad, pdu)" using open_wrapped [OF op use len, of H aad] w' by auto
  from egress_delivers_steps [OF assms(5) wrapped_envelope_read [OF op use len w'] this assms(6,7)]
  show ?thesis .
qed

theorem sealed_unit_deliverable_witness:
  "\<exists>env t'. gw_reachable (\<lambda>_ _. 0) sample_prims open_module sample_egress t' \<and>
     sys_log t' = [Received Egress ModbusTcp env,
       Delivered ModbusTcp env \<lparr>protocol = ModbusTcp, device_id = 9, seq = 1\<rparr> [9, 3] sample_file_key]"
proof -
  let ?aad = "\<lparr>protocol = ModbusTcp, device_id = 9, seq = 1\<rparr>"
  obtain s env where s: "gw_reachable (\<lambda>_ _. 0) sample_prims open_module sample_gateway s"
      "sys_log s = [Received Ingress ModbusTcp [0, 1, 0, 0, 0, 2, 9, 3], Sealed ?aad [9, 3] env sample_file_key]"
    by (rule sample_run)
  then have mem: "Sealed ?aad [9, 3] env sample_file_key \<in> set (sys_log s)" by simp
  obtain t where t: "gw_reachable (\<lambda>_ _. 0) sample_prims open_module sample_egress t" "sys_tasks t 0 = Some (EgressRead ModbusTcp)"
      "sys_log t = []" "sys_store t = gs_store sample_egress" "sys_counters t = SequenceCounter_new"
    by (rule sample_accepted)
  have l: "store_load (sys_store t) (device_id ?aad) = Ok sample_file_key"
    "last_seen (sys_counters t) (protocol ?aad, device_id ?aad) < seq ?aad"
    by (simp_all add: t sample_egress_def sample_gateway_def FileKeyStore_load_def last_seen_def entry_or_0_def
        SequenceCounter_new_def)
  from sealed_unit_deliverable [OF sample_start s(1) mem fips_check_open_module t(2) l, of sample_prims
      "start_ot_listeners (gs_config sample_egress)"] t(1,3)
  show ?thesis unfolding gw_reachable_def by (auto intro: rtranclp_trans)
qed

text \<open>
  A gateway that starts has passed its self-tests, uses a session store and runs a key
  exchange task exactly when one is configured for its mode, with a positive interval between
  exchanges, holds only valid keys, starts with fresh counters and listens only in the direction of its mode and only for the configured protocols.
\<close>

lemma gateway_start_safe:
  assumes "gateway_start post_result config_file read_store siem_bound = Ok gs"
  shows "post_result = Ok () \<and> gs_counters gs = SequenceCounter_new \<and>
    ((\<exists>km. gs_store gs = SessionStore km) \<longleftrightarrow> use_kem (gs_config gs)) \<and>
    kem_background gs =
      (if use_kem (gs_config gs)
       then Some (if cfg_mode (gs_config gs) = ''ingress''
                  then Initiator (cfg_kem_peer_addr (gs_config gs)) (rekey_interval (gs_config gs))
                  else Responder (cfg_kem_listen_addr (gs_config gs)))
       else None) \<and> 0 < rekey_interval (gs_config gs) \<and>
    (\<forall>dev key. store_load (gs_store gs) dev = Ok key \<longrightarrow> validate_key (key_primes key) = Ok ()) \<and>
    (\<forall>(dir, proto, addr) \<in> set (start_ot_listeners (gs_config gs)).
       cfg_mode (gs_config gs) = (case dir of Ingress \<Rightarrow> ''ingress'' | Egress \<Rightarrow> ''egress'') \<and>
       (case proto of ModbusTcp \<Rightarrow> ''modbus'' | Dnp3 \<Rightarrow> ''dnp3'') \<in> set (cfg_protocols (gs_config gs)))"
proof -
  note st = gateway_start_store [OF assms]
  have "post_result = Ok ()"
    using assms by (cases post_result) (simp_all add: gateway_start_def)
  moreover have "validate_key (key_primes key) = Ok ()" if "store_load (gs_store gs) dev = Ok key" for dev key
    using gw_keys.load_usable [OF st(1) that] by (simp add: usable_key_def validate_key_Ok_iff)
  moreover have "0 < rekey_interval (gs_config gs)" by (simp add: rekey_interval_def)
  ultimately show ?thesis using st(2,3) kem_background_iff [OF st(3)] listeners_of_the_mode [of "gs_config gs"] by blast
qed

text \<open>
  C35: after any number of exchanges, failed ones included, both re-keying loops leave the key of
  the latest successful exchange as the one every device without a key of its own loads; the
  initiator sleeps the configured interval after a success and five seconds after a failure.
\<close>

theorem rekey_loops_install_latest:
  assumes "list_all (\<lambda>r. r \<noteq> Panic) earlier" "list_all (\<lambda>r. \<not> is_ok r \<and> r \<noteq> Panic) later" "km dev = None"
  shows "SessionKeyStore_load (fst (run_initiator_loop interval km (earlier @ Ok key # later))) dev = Ok key \<and>
     SessionKeyStore_load (fst (run_responder_loop True km (earlier @ Ok key # later))) dev = Ok key \<and>
     snd (run_initiator_loop interval km (earlier @ Ok key # later)) =
       map (\<lambda>r. if is_ok r then interval else 5) (earlier @ Ok key # later)"
proof -
  have t: "takeWhile (\<lambda>r. r \<noteq> Panic) (earlier @ Ok key # later) = earlier @ Ok key # later"
    using assms(1,2) by (auto simp: takeWhile_eq_all_conv list_all_iff)
  have "list_all (\<lambda>r. \<not> is_ok r) later" using assms(2) by (auto simp: list_all_iff)
  from rekey_fold_latest [of later km dev earlier key, OF this assms(3)] show ?thesis
    unfolding run_responder_loop_def initiator_loop_sleeps t if_True initiator_loop_store responder_loop_store by simp
qed

theorem rekey_loops_install_latest_witness:
  "SessionKeyStore_load (fst (run_initiator_loop 60 SessionKeyStore_new
      [Err AckRecv, Ok \<lparr>key_primes = sample_key, key_sk = []\<rparr>, Ok sample_file_key, Err AckRecv])) 7 = Ok sample_file_key"
  using rekey_loops_install_latest [of "[Err AckRecv, Ok \<lparr>key_primes = sample_key, key_sk = []\<rparr>]" "[Err AckRecv]"
      SessionKeyStore_new 7 60 sample_file_key]
  by (simp add: SessionKeyStore_new_def)

end
