(* ===== verification/LegacyV7.thy ===== *)
theory LegacyV7
  imports BlockV8
begin

text \<open>
  The legacy v7 format of \<open>rust/src/lib.rs\<close>: every derivation is keyed by the serialised
  prime tuple, the nonce comes from the system generator, noise runs are only bounded by a
  guard, and the decoder classifies every position on its own. Encryptors take the nonce the
  generator draws and return the module state, which the continuous random-number test changes.
\<close>

section \<open>Emission and recovery\<close>

definition V7_NOISE_RUN_GUARD :: nat where "V7_NOISE_RUN_GUARD = 4096"

function emit_codepoint_v7 ::
    "mac \<Rightarrow> bytes \<Rightarrow> bytes \<Rightarrow> f64 \<Rightarrow> nat list \<Rightarrow> nat \<Rightarrow> nat \<Rightarrow> nat \<Rightarrow> nat \<Rightarrow> (nat list \<times> nat, error) res" where
  "emit_codepoint_v7 H kb nonce noise_p key c real_idx ct_pos run =
     res_bind (key_at key real_idx) (\<lambda>k.
       if is_noise_pos H kb nonce ct_pos noise_p
       then res_bind (noise_token H kb nonce ct_pos k) (\<lambda>t.
            if V7_NOISE_RUN_GUARD < run + 1 then Err (TokenError NoiseRunGuard)
            else res_bind (emit_codepoint_v7 H kb nonce noise_p key c real_idx (ct_pos + 1) (run + 1))
                   (\<lambda>(ts, pos). Ok (t # ts, pos)))
       else res_bind (real_token H kb nonce real_idx c k) (\<lambda>t. Ok ([t], ct_pos + 1)))"
  by pat_completeness auto
termination
  by (relation "measure (\<lambda>(H, kb, nonce, noise_p, key, c, real_idx, ct_pos, run).
        V7_NOISE_RUN_GUARD - run)") auto

declare emit_codepoint_v7.simps [simp del]

fun emit_codepoints_v7 ::
    "mac \<Rightarrow> bytes \<Rightarrow> bytes \<Rightarrow> f64 \<Rightarrow> nat list \<Rightarrow> str \<Rightarrow> nat \<Rightarrow> nat \<Rightarrow> (nat list, error) res" where
  "emit_codepoints_v7 H kb nonce noise_p key [] real_idx ct_pos = Ok []"
| "emit_codepoints_v7 H kb nonce noise_p key (c # cs) real_idx ct_pos =
     res_bind (emit_codepoint_v7 H kb nonce noise_p key c real_idx ct_pos 0) (\<lambda>(ts, pos).
     res_bind (emit_codepoints_v7 H kb nonce noise_p key cs (real_idx + 1) pos) (\<lambda>us. Ok (ts @ us)))"

definition emit_tokens_v7 ::
    "mac \<Rightarrow> str \<Rightarrow> bytes \<Rightarrow> bytes \<Rightarrow> f64 \<Rightarrow> nat list \<Rightarrow> (nat list, error) res" where
  "emit_tokens_v7 H padded kb nonce noise_p key = emit_codepoints_v7 H kb nonce noise_p key padded 0 0"

text \<open>The token loop of \<open>decrypt_core\<close>; its errors keep position and value.\<close>

definition v7_errors :: decode_errors where
  "v7_errors = block_errors 0 0"

fun recover_v7 ::
    "mac \<Rightarrow> bytes \<Rightarrow> bytes \<Rightarrow> f64 \<Rightarrow> nat list \<Rightarrow> nat list \<Rightarrow> nat \<Rightarrow> nat \<Rightarrow> (str, error) res" where
  "recover_v7 H kb nonce noise_p key [] ct_pos real_idx = Ok []"
| "recover_v7 H kb nonce noise_p key (token # tokens) ct_pos real_idx =
     (if is_noise_pos H kb nonce ct_pos noise_p
      then recover_v7 H kb nonce noise_p key tokens (ct_pos + 1) real_idx
      else res_bind (key_at key real_idx) (\<lambda>k.
           res_bind (derive_addend H kb nonce real_idx k) (\<lambda>addend.
           res_bind (recover_token v7_errors token addend k ct_pos) (\<lambda>cp.
           res_bind (recover_v7 H kb nonce noise_p key tokens (ct_pos + 1) (real_idx + 1)) (\<lambda>cps.
             Ok (cp # cps))))))"

definition decrypt_core :: "mac \<Rightarrow> bytes \<Rightarrow> nat list \<Rightarrow> nat list \<Rightarrow> bytes \<Rightarrow> (str, error) res" where
  "decrypt_core H nonce cypher key kb =
     res_bind (recover_v7 H kb nonce (derive_noise_p H kb nonce) key cypher 0 0) unpad_message"

section \<open>Token-level entry points\<close>

text \<open>\<open>message.iter().enumerate().find(|(_, &c)| char::from_u32(c).is_none())\<close>\<close>

fun find_non_scalar :: "nat \<Rightarrow> str \<Rightarrow> (nat \<times> nat) option" where
  "find_non_scalar i [] = None"
| "find_non_scalar i (c # cs) = (if \<not> is_scalar c then Some (i, c) else find_non_scalar (Suc i) cs)"

text \<open>The drawn nonce and the state after the draw.\<close>

definition with_nonce ::
    "bytes \<Rightarrow> module_state \<Rightarrow> (bytes \<Rightarrow> ('a, error) res) \<Rightarrow> ('a, error) res \<times> module_state" where
  "with_nonce draw m body =
     (case generate_nonce_with_crng_check draw m of
        (r, m') \<Rightarrow> (res_bind r body, m'))"

definition encrypt ::
    "mac \<Rightarrow> bytes \<Rightarrow> module_state \<Rightarrow> str \<Rightarrow> nat list \<Rightarrow> (bytes \<times> nat list, error) res \<times> module_state" where
  "encrypt H draw m message key =
     (case fips_check m of
        Ok _ \<Rightarrow>
          if MAX_PLAINTEXT_CODEPOINTS < length message
          then (Err (PadError (MessageTooLong (length message))), m)
          else (case find_non_scalar 0 message of
             Some (i, c) \<Rightarrow> (Err (PadError (InputNotScalar c i)), m)
           | None \<Rightarrow>
               (case validate_key key of
                  Ok _ \<Rightarrow>
                    with_nonce draw m (\<lambda>nonce.
                      let kb = key_bytes key; noise_p = derive_noise_p H kb nonce in
                      res_bind (pad_message H message kb nonce) (\<lambda>padded.
                      res_bind (emit_tokens_v7 H padded kb nonce noise_p key) (\<lambda>cypher.
                        Ok (nonce, cypher))))
                | Err e \<Rightarrow> (Err e, m) | Panic \<Rightarrow> (Panic, m)))
      | Err e \<Rightarrow> (Err e, m) | Panic \<Rightarrow> (Panic, m))"

definition decrypt :: "mac \<Rightarrow> module_state \<Rightarrow> bytes \<Rightarrow> nat list \<Rightarrow> nat list \<Rightarrow> (str, error) res" where
  "decrypt H m nonce cypher key =
     res_bind (fips_check m) (\<lambda>_.
     res_bind (validate_key_v7_decrypt key) (\<lambda>_.
       decrypt_core H nonce cypher key (key_bytes key)))"

section \<open>Sealing and opening\<close>

definition seal_v7 :: "mac \<Rightarrow> str \<Rightarrow> nat list \<Rightarrow> bytes \<Rightarrow> bytes \<Rightarrow> (bytes, error) res" where
  "seal_v7 H codepoints key nonce aad =
     (let kb = key_bytes key; noise_p = derive_noise_p H kb nonce in
      res_bind (pad_message H codepoints kb nonce) (\<lambda>padded.
      res_bind (emit_tokens_v7 H padded kb nonce noise_p key) (\<lambda>cypher.
        let blob = fixed_encode_tokens cypher in
        res_bind (varint_keystream H kb nonce (length blob)) (\<lambda>ks.
          let payload = nonce @ xor_bytes blob ks in
          res_bind (compute_auth_tag H kb aad payload AAD_LEN_WIDTH_V7) (\<lambda>tag.
            Ok (payload @ tag))))))"

definition open_v7 :: "mac \<Rightarrow> bytes \<Rightarrow> nat list \<Rightarrow> bytes \<Rightarrow> (str, error) res" where
  "open_v7 H ciphertext key aad =
     res_bind (check_v7_aad_len (length aad)) (\<lambda>_.
       if length ciphertext < NONCE_SIZE + TAG_SIZE
       then Err (TokenError (CiphertextTooShort (length ciphertext)))
       else let kb = key_bytes key;
                split = length ciphertext - TAG_SIZE;
                payload = take split ciphertext;
                recv_tag = drop split ciphertext
            in res_bind (compute_auth_tag H kb aad payload AAD_LEN_WIDTH_V7) (\<lambda>calc_tag.
                 if \<not> ct_eq_bytes recv_tag calc_tag then Err AuthenticationFailed
                 else res_bind (validate_key_v7_decrypt key) (\<lambda>_.
                   let nonce = take NONCE_SIZE payload;
                       masked = drop NONCE_SIZE payload
                   in res_bind (varint_keystream H kb nonce (length masked)) (\<lambda>ks.
                      res_bind (fixed_decode_tokens (xor_bytes masked ks)) (\<lambda>tokens.
                        decrypt_core H nonce tokens key kb)))))"

section \<open>Entry points\<close>

text \<open>The checks common to \<open>encrypt_bytes\<close> and \<open>encrypt_raw\<close>, in their order.\<close>

definition v7_encrypt_checks :: "module_state \<Rightarrow> nat list \<Rightarrow> nat \<Rightarrow> nat \<Rightarrow> (unit, error) res" where
  "v7_encrypt_checks m key aad_len n =
     res_bind (fips_check m) (\<lambda>_.
     res_bind (validate_key key) (\<lambda>_.
     res_bind (check_v7_aad_len aad_len) (\<lambda>_.
       if MAX_PLAINTEXT_CODEPOINTS < n then Err (PadError (MessageTooLong n)) else Ok ())))"

definition v7_seal_drawn ::
    "mac \<Rightarrow> bytes \<Rightarrow> module_state \<Rightarrow> str \<Rightarrow> nat list \<Rightarrow> bytes \<Rightarrow> (bytes, error) res \<times> module_state" where
  "v7_seal_drawn H draw m codepoints key aad =
     (case v7_encrypt_checks m key (length aad) (length codepoints) of
        Ok _ \<Rightarrow> with_nonce draw m (\<lambda>nonce. seal_v7 H codepoints key nonce aad)
      | Err e \<Rightarrow> (Err e, m) | Panic \<Rightarrow> (Panic, m))"

definition encrypt_bytes ::
    "mac \<Rightarrow> bytes \<Rightarrow> module_state \<Rightarrow> str \<Rightarrow> nat list \<Rightarrow> bytes \<Rightarrow> (bytes, error) res \<times> module_state" where
  "encrypt_bytes H draw m message key aad = v7_seal_drawn H draw m message key aad"

text \<open>Both \<open>expect\<close>s of the known-answer helper panic.\<close>

definition encrypt_bytes_with_nonce :: "mac \<Rightarrow> str \<Rightarrow> nat list \<Rightarrow> bytes \<Rightarrow> bytes \<Rightarrow> (bytes, error) res" where
  "encrypt_bytes_with_nonce H message key nonce aad =
     (case validate_key key of
        Ok _ \<Rightarrow> (case seal_v7 H message key nonce aad of Ok ct \<Rightarrow> Ok ct | _ \<Rightarrow> Panic)
      | _ \<Rightarrow> Panic)"

definition decrypt_bytes :: "mac \<Rightarrow> module_state \<Rightarrow> bytes \<Rightarrow> nat list \<Rightarrow> bytes \<Rightarrow> (str, error) res" where
  "decrypt_bytes H m ciphertext key aad =
     res_bind (fips_check m) (\<lambda>_.
     res_bind (open_v7 H ciphertext key aad) (\<lambda>codepoints.
       collect_res (\<lambda>(i, c). if is_scalar c then Ok c else Err (TokenError (V7PlainNotScalar c i)))
         (enumerate 0 codepoints)))"

definition encrypt_raw ::
    "mac \<Rightarrow> bytes \<Rightarrow> module_state \<Rightarrow> bytes \<Rightarrow> nat list \<Rightarrow> bytes \<Rightarrow> (bytes, error) res \<times> module_state" where
  "encrypt_raw H draw m data key aad = v7_seal_drawn H draw m (map unat data) key aad"

definition decrypt_raw :: "mac \<Rightarrow> module_state \<Rightarrow> bytes \<Rightarrow> nat list \<Rightarrow> bytes \<Rightarrow> (bytes, error) res" where
  "decrypt_raw H m ciphertext key aad =
     res_bind (fips_check m) (\<lambda>_.
     res_bind (open_v7 H ciphertext key aad) (\<lambda>codepoints.
       collect_res (\<lambda>(i, c). if 0xFF < c then Err (TokenError (RawRange c i)) else Ok (of_nat c))
         (enumerate 0 codepoints)))"

text \<open>\<open>b64_enc\<close> and \<open>b64_dec\<close> are the standard engine of the \<open>base64\<close> crate.\<close>

definition encrypt_str ::
    "(bytes \<Rightarrow> str) \<Rightarrow> mac \<Rightarrow> bytes \<Rightarrow> module_state \<Rightarrow> str \<Rightarrow> nat list \<Rightarrow> bytes
       \<Rightarrow> (str, error) res \<times> module_state" where
  "encrypt_str b64_enc H draw m message key aad =
     (case res_bind (fips_check m) (\<lambda>_. validate_key key) of
        Ok _ \<Rightarrow> (case encrypt_bytes H draw m message key aad of
                   (r, m') \<Rightarrow> (res_bind r (\<lambda>ct. Ok (b64_enc ct)), m'))
      | Err e \<Rightarrow> (Err e, m) | Panic \<Rightarrow> (Panic, m))"

definition decrypt_str ::
    "(str \<Rightarrow> bytes option) \<Rightarrow> mac \<Rightarrow> module_state \<Rightarrow> str \<Rightarrow> nat list \<Rightarrow> bytes \<Rightarrow> (str, error) res" where
  "decrypt_str b64_dec H m cypher key aad =
     res_bind (fips_check m) (\<lambda>_.
       case b64_dec cypher of
         None \<Rightarrow> Err (TokenError Base64Decode)
       | Some ciphertext \<Rightarrow> decrypt_bytes H m ciphertext key aad)"

text \<open>The token stream a fuzz target starts from.\<close>

definition fuzz_v7_tokens :: "mac \<Rightarrow> str \<Rightarrow> nat list \<Rightarrow> bytes \<Rightarrow> (nat list, error) res" where
  "fuzz_v7_tokens H message key nonce =
     res_bind (validate_key key) (\<lambda>_.
       let kb = key_bytes key in
       res_bind (pad_message H message kb nonce) (\<lambda>padded.
         emit_tokens_v7 H padded kb nonce (derive_noise_p H kb nonce) key))"

section \<open>Lock-step of the two loops\<close>

text \<open>An emission either stops at the guard or is inverted by the decoder.\<close>

lemma emit_codepoint_v7_lockstep:
  assumes key: "safe_key key" and c: "is_scalar c" and "run \<le> 4096"
  shows "emit_codepoint_v7 H kb nonce np key c real_idx ct_pos run = Err (TokenError NoiseRunGuard) \<or>
    (\<exists>ts. emit_codepoint_v7 H kb nonce np key c real_idx ct_pos run = Ok (ts, ct_pos + length ts)
       \<and> run + length ts \<le> 4097 \<and> (\<forall>t \<in> set ts. t < u64_limit)
       \<and> (\<forall>us. recover_v7 H kb nonce np key (ts @ us) ct_pos real_idx
             = res_bind (recover_v7 H kb nonce np key us (ct_pos + length ts) (real_idx + 1))
                 (\<lambda>cps. Ok (c # cps))))"
  (is "?E ct_pos run \<or> (\<exists>ts. ?P ts ct_pos run)")
  using assms(3)
proof (induction "4096 - run" arbitrary: ct_pos run rule: less_induct)
  case less
  obtain k where k: "key_at key real_idx = Ok k" "2 \<le> k" "k \<le> MAX_SAFE_KEY_PRIME"
    using key_at_Ok [OF key] by blast
  have c': "c \<le> 0x10FFFF" using c by (simp add: is_scalar_def)
  note noise = noise_token_Ok [OF k(2,3), of H kb nonce ct_pos]
  note real = real_token_Ok [OF c' k(2,3), of H kb nonce real_idx]
  show ?case
  proof (cases "is_noise_pos H kb nonce ct_pos np")
    case True
    show ?thesis
    proof (cases "run = 4096")
      case True
      then show ?thesis using \<open>is_noise_pos H kb nonce ct_pos np\<close> k(1) noise(1)
        by (subst (1) emit_codepoint_v7.simps) (simp add: V7_NOISE_RUN_GUARD_def)
    next
      case False
      then have run: "run + 1 \<le> 4096" "4096 - (run + 1) < 4096 - run" using less.prems by auto
      have step: "emit_codepoint_v7 H kb nonce np key c real_idx ct_pos run
          = res_bind (emit_codepoint_v7 H kb nonce np key c real_idx (ct_pos + 1) (run + 1))
              (\<lambda>(ts, pos). Ok (noise_value H kb nonce ct_pos k # ts, pos))"
        using \<open>is_noise_pos H kb nonce ct_pos np\<close> k(1) noise(1) run(1)
        by (subst emit_codepoint_v7.simps) (simp add: V7_NOISE_RUN_GUARD_def)
      from less.hyps [OF run(2,1), of "ct_pos + 1"] show ?thesis
      proof
        assume "?E (ct_pos + 1) (run + 1)"
        then show ?thesis using step by simp
      next
        assume "\<exists>ts. ?P ts (ct_pos + 1) (run + 1)"
        then obtain ts where ts: "?P ts (ct_pos + 1) (run + 1)" by blast
        then have "?P (noise_value H kb nonce ct_pos k # ts) ct_pos run"
          using step noise(2) \<open>is_noise_pos H kb nonce ct_pos np\<close> by auto
        then show ?thesis by blast
      qed
    qed
  next
    case False
    have "?P [c * k + addend_value H kb nonce 0x01 real_idx k] ct_pos run"
      using False less.prems k real derive_addend_Ok [OF k(2), of H kb nonce real_idx]
        recover_real_token [OF c] addend_value_bounds [OF k(2), of H kb nonce "0x01" real_idx]
      by (subst (1) emit_codepoint_v7.simps) simp
    then show ?thesis by blast
  qed
qed

lemma emit_codepoints_v7_lockstep:
  assumes key: "safe_key key" and "\<forall>c \<in> set cs. is_scalar c"
  shows "emit_codepoints_v7 H kb nonce np key cs real_idx ct_pos = Err (TokenError NoiseRunGuard) \<or>
    (\<exists>ts. emit_codepoints_v7 H kb nonce np key cs real_idx ct_pos = Ok ts
       \<and> length ts \<le> 4097 * length cs \<and> (\<forall>t \<in> set ts. t < u64_limit)
       \<and> recover_v7 H kb nonce np key ts ct_pos real_idx = Ok cs)"
  using assms(2)
proof (induction cs arbitrary: real_idx ct_pos)
  case (Cons c cs)
  from Cons.prems have "is_scalar c" by simp
  from emit_codepoint_v7_lockstep [OF key this le0, of H kb nonce np real_idx ct_pos] show ?case
  proof (elim disjE exE conjE)
    fix ts assume ts: "emit_codepoint_v7 H kb nonce np key c real_idx ct_pos 0 = Ok (ts, ct_pos + length ts)"
      "0 + length ts \<le> 4097" "\<forall>t \<in> set ts. t < u64_limit"
      "\<forall>us. recover_v7 H kb nonce np key (ts @ us) ct_pos real_idx
             = res_bind (recover_v7 H kb nonce np key us (ct_pos + length ts) (real_idx + 1))
                 (\<lambda>cps. Ok (c # cps))"
    from Cons.IH [of "real_idx + 1" "ct_pos + length ts"] Cons.prems show ?thesis
      using ts by fastforce
  qed simp_all
qed simp

section \<open>Opening inverts sealing\<close>

lemma pad_message_Ok:
  assumes "length msg < 2 ^ 16"
  obtains padded where "pad_message H msg kb nonce = Ok padded"
    "pad_to_block H msg kb nonce (bucket_block_size (length msg)) = Ok padded"
    "length padded \<le> 65538"
proof -
  have "length msg < bucket_block_size (length msg)" by (rule bucket_block_size_gt)
  then obtain padded where "pad_to_block H msg kb nonce (bucket_block_size (length msg)) = Ok padded"
      "length padded = bucket_block_size (length msg) + 2"
    by (rule pad_to_block_Ok)
  moreover have "bucket_block_size (length msg) \<le> 65536"
    using reachable_block_cases [OF bucket_block_size_reachable [OF assms]] by blast
  ultimately show thesis using that assms by (simp add: pad_message_def)
qed

lemma emit_tokens_v7_cases:
  assumes "safe_key key" "\<forall>c \<in> set msg. is_scalar c" "length msg < 2 ^ 16"
  obtains (guard) padded where "pad_message H msg kb nonce = Ok padded"
      "emit_tokens_v7 H padded kb nonce (derive_noise_p H kb nonce) key = Err (TokenError NoiseRunGuard)"
    | (tokens) padded ts where "pad_message H msg kb nonce = Ok padded"
      "emit_tokens_v7 H padded kb nonce (derive_noise_p H kb nonce) key = Ok ts"
      "length ts \<le> 4097 * 65538" "\<forall>t \<in> set ts. t < u64_limit"
      "decrypt_core H nonce ts key kb = Ok msg"
proof -
  obtain padded where padded: "pad_message H msg kb nonce = Ok padded"
      "pad_to_block H msg kb nonce (bucket_block_size (length msg)) = Ok padded" "length padded \<le> 65538"
    using pad_message_Ok [OF assms(3)] by metis
  have "unpad_message padded = Ok msg" using unpad_pad [OF padded(2) assms(3)] .
  moreover note emit_codepoints_v7_lockstep [OF assms(1) padded_scalars [OF padded(2) assms(2)],
      of H kb nonce "derive_noise_p H kb nonce" 0 0]
  ultimately show thesis
    using padded(1,3) guard tokens by (auto simp: emit_tokens_v7_def decrypt_core_def)
qed

lemma check_v7_aad_len_Ok: "check_v7_aad_len n = Ok () \<longleftrightarrow> n < 2 ^ 32"
  by (auto simp: check_v7_aad_len_def)

lemma open_v7_parts:
  assumes "length nonce = 16" "length aad < 2 ^ 32" "v7_key key"
    and "length masked \<le> 32 * (2 ^ 32 - 1)"
    and "compute_auth_tag H (key_bytes key) aad (nonce @ masked) 4 = Ok tag" "length tag = 32"
  shows "open_v7 H (nonce @ masked @ tag) key aad =
    res_bind (fixed_decode_tokens (xor_bytes masked (keystream_spec H (key_bytes key) nonce (length masked))))
      (\<lambda>tokens. decrypt_core H nonce tokens key (key_bytes key))"
proof -
  have "validate_key_v7_decrypt key = Ok ()" using assms(3) by (simp add: validate_key_v7_decrypt_Ok_iff)
  with assms show ?thesis by (simp add: open_v7_def check_v7_aad_len_def Let_def varint_keystream_Ok)
qed

lemma seal_open_v7:
  assumes key: "v7_key key" and msg: "\<forall>c \<in> set msg. is_scalar c" "length msg < 2 ^ 16"
    and nonce: "length nonce = 16" and aad: "length aad < 2 ^ 32"
  shows "seal_v7 H msg key nonce aad = Err (TokenError NoiseRunGuard) \<or>
    (\<exists>ct. seal_v7 H msg key nonce aad = Ok ct \<and> open_v7 H ct key aad = Ok msg)"
proof -
  define kb where "kb = key_bytes key"
  show ?thesis
  proof (cases rule: emit_tokens_v7_cases [OF v7_key_safe [OF key] msg, of H kb nonce])
    case (1 padded)
    then show ?thesis by (simp add: seal_v7_def Let_def flip: kb_def)
  next
    case (2 padded ts)
    note tokens = this
    define ks where "ks = keystream_spec H kb nonce (8 * length ts)"
    define masked where "masked = xor_bytes (fixed_encode_tokens ts) ks"
    have len: "length masked = 8 * length ts" by (simp add: masked_def ks_def)
    have ks: "varint_keystream H kb nonce (8 * length ts) = Ok ks"
      using tokens(3) by (simp add: varint_keystream_Ok ks_def)
    obtain tag where tag: "compute_auth_tag H kb aad (nonce @ masked) 4 = Ok tag" "length tag = 32"
      using compute_auth_tag_v7 [of "nonce @ masked" aad H kb] nonce aad by simp
    have "seal_v7 H msg key nonce aad = Ok (nonce @ masked @ tag)"
      using tokens(1,2) ks tag by (simp add: seal_v7_def Let_def flip: kb_def masked_def)
    moreover have "xor_bytes masked (keystream_spec H kb nonce (length masked)) = fixed_encode_tokens ts"
      unfolding len ks_def [symmetric] unfolding masked_def by (rule xor_bytes_cancel) (simp add: ks_def)
    moreover have "fixed_decode_tokens (fixed_encode_tokens ts) = Ok ts"
      using tokens(4) by (intro fixed_decode_encode) blast
    ultimately have "open_v7 H (nonce @ masked @ tag) key aad = Ok msg"
      using open_v7_parts [OF nonce aad key _ tag [unfolded kb_def]] tokens(3,5) len
      by (simp flip: kb_def)
    with \<open>seal_v7 H msg key nonce aad = Ok (nonce @ masked @ tag)\<close> show ?thesis by blast
  qed
qed

lemma open_v7_scalars: "open_v7 H ct key aad = Ok cps \<Longrightarrow> \<forall>c \<in> set cps. is_scalar c"
proof -
  have rec: "recover_v7 H kb nonce np key ts p i = Ok cs \<Longrightarrow> \<forall>c \<in> set cs. is_scalar c"
    for kb nonce np ts p i cs
    by (induction H kb nonce np key ts p i arbitrary: cs rule: recover_v7.induct)
      (auto simp: recover_token_def Let_def split: if_splits)
  have un: "unpad_message cs = Ok ds \<Longrightarrow> set ds \<subseteq> set cs" for cs ds
    by (auto simp: unpad_message_def Let_def split: if_splits dest: in_set_takeD in_set_dropD)
  assume "open_v7 H ct key aad = Ok cps"
  then obtain tokens nonce kb where "decrypt_core H nonce tokens key kb = Ok cps"
    by (auto simp: open_v7_def Let_def split: if_splits)
  then show ?thesis using rec un by (fastforce simp: decrypt_core_def)
qed

section \<open>Text and raw conventions\<close>

lemma decrypt_bytes_open:
  assumes "fips_check m = Ok ()"
  shows "decrypt_bytes H m ct key aad = open_v7 H ct key aad"
proof (cases "open_v7 H ct key aad")
  case (Ok cps)
  have "\<forall>p \<in> set (enumerate 0 cps). is_scalar (snd p)"
    using open_v7_scalars [OF Ok] by (auto simp: enumerate_eq_zip dest: set_zip_rightD)
  then have "collect_res (\<lambda>(i, c). if is_scalar c then Ok c else Err (TokenError (V7PlainNotScalar c i)))
      (enumerate 0 cps) = Ok (map snd (enumerate 0 cps))"
    by (intro collect_res_all_Ok) auto
  then show ?thesis using assms Ok by (simp add: decrypt_bytes_def)
qed (use assms in \<open>simp_all add: decrypt_bytes_def\<close>)

lemma decrypt_raw_open:
  assumes "fips_check m = Ok ()" "open_v7 H ct key aad = Ok (map unat data)"
  shows "decrypt_raw H m ct key aad = Ok data"
proof -
  let ?f = "\<lambda>(i, c). if 0xFF < c then Err (TokenError (RawRange c i)) else Ok (of_nat c :: byte)"
  have "unat (b :: byte) \<le> 0xFF" for b using unat_byte_less [of b] by linarith
  then have "collect_res ?f (enumerate 0 (map unat data))
      = Ok (map (of_nat \<circ> snd) (enumerate 0 (map unat data)))"
    by (intro collect_res_all_Ok) (auto simp: enumerate_eq_zip not_less dest!: set_zip_rightD)
  also have "map (of_nat \<circ> snd) (enumerate 0 (map unat data)) = data"
    by (simp add: map_map [symmetric] del: map_map) (simp add: comp_def)
  finally show ?thesis using assms by (simp add: decrypt_raw_def)
qed

lemma decrypt_raw_wide:
  assumes "fips_check m = Ok ()" "open_v7 H ct key aad = Ok cps" "find (\<lambda>c. 0xFF < c) cps = Some c"
  shows "\<exists>i. decrypt_raw H m ct key aad = Err (TokenError (RawRange c i))"
proof -
  let ?f = "\<lambda>(i, c). if 0xFF < c then Err (TokenError (RawRange c i)) else Ok (of_nat c :: byte)"
  have "\<exists>i. collect_res ?f (enumerate n cps) = Err (TokenError (RawRange c i))" for n
    using assms(3) by (induction cps arbitrary: n) (fastforce split: if_splits)+
  then show ?thesis using assms(1,2) by (simp add: decrypt_raw_def)
qed

lemma seal_drawn_cases:
  assumes "fips_check m = Ok ()" "valid_key key" "length nonce = 16" "length aad < 2 ^ 32"
    and "\<forall>c \<in> set cps. is_scalar c" "length cps \<le> 0xFFFF"
  obtains (stuck) "prev_nonce m = Some nonce" "fst (v7_seal_drawn H nonce m cps key aad) = Err CrngStuck"
    | (guard) "fst (v7_seal_drawn H nonce m cps key aad) = Err (TokenError NoiseRunGuard)"
    | (sealed) ct where "fst (v7_seal_drawn H nonce m cps key aad) = Ok ct" "open_v7 H ct key aad = Ok cps"
proof -
  have checks: "v7_encrypt_checks m key (length aad) (length cps) = Ok ()"
    using assms by (simp add: v7_encrypt_checks_def validate_key_Ok_iff check_v7_aad_len_Ok)
  have len: "length cps < 2 ^ 16" using assms(6) by simp
  show thesis
  proof (cases rule: crng_cases [of m nonce])
    case stuck
    then show ?thesis using that(1) checks by (simp add: v7_seal_drawn_def with_nonce_def)
  next
    case fresh
    then have "fst (v7_seal_drawn H nonce m cps key aad) = seal_v7 H cps key nonce aad"
      using checks by (simp add: v7_seal_drawn_def with_nonce_def)
    with seal_open_v7 [OF valid_key_v7 [OF assms(2)] assms(5) len assms(3,4), of H] show ?thesis
      using guard sealed by auto
  qed
qed

section \<open>No v7 entry point panics\<close>

lemma recover_v7_not_Panic:
  assumes "safe_key key"
  shows "recover_v7 H kb nonce np key ts p i \<noteq> Panic"
proof (induction ts arbitrary: p i)
  case (Cons t ts)
  obtain k where "key_at key i = Ok k" "2 \<le> k" using key_at_Ok [OF assms] by metis
  then show ?case using Cons.IH recover_token_not_Panic derive_addend_Ok [of k H kb nonce i] by auto
qed simp

lemma decrypt_core_v7_not_Panic: "safe_key key \<Longrightarrow> decrypt_core H nonce cypher key kb \<noteq> Panic"
  by (simp add: decrypt_core_def recover_v7_not_Panic unpad_message_not_Panic)

lemma validate_v7_not_Panic: "validate_key_v7_decrypt key \<noteq> Panic"
proof -
  have "validate_v7_elements i seen ks \<noteq> Panic" for i seen ks
    by (induction i seen ks rule: validate_v7_elements.induct) auto
  then show ?thesis by (simp add: validate_key_v7_decrypt_def)
qed

lemma v7_guarded_not_Panic:
  "(v7_key key \<Longrightarrow> body \<noteq> Panic) \<Longrightarrow> res_bind (validate_key_v7_decrypt key) (\<lambda>_. body) \<noteq> Panic"
  using validate_v7_not_Panic [of key] validate_key_v7_decrypt_Ok_iff [of key]
  by (cases "validate_key_v7_decrypt key") auto

lemma decrypt_v7_not_Panic: "decrypt H m nonce cypher key \<noteq> Panic"
  using fips_check_cases [of m] v7_guarded_not_Panic [OF decrypt_core_v7_not_Panic [OF v7_key_safe], of key]
  by (auto simp: decrypt_def)

lemma open_v7_not_Panic:
  assumes "length ct \<le> 32 * (2 ^ 32 - 1)"
  shows "open_v7 H ct key aad \<noteq> Panic"
proof (cases "length aad < 2 ^ 32 \<and> 48 \<le> length ct")
  case True
  define p where "p = take (length ct - 32) ct"
  have p: "16 \<le> length p" "length (drop 16 p) \<le> 32 * (2 ^ 32 - 1)" using True assms by (auto simp: p_def)
  obtain tag where "compute_auth_tag H (key_bytes key) aad p 4 = Ok tag"
    using compute_auth_tag_v7 [of p aad H "key_bytes key"] p(1) True by auto
  moreover have "res_bind (validate_key_v7_decrypt key) (\<lambda>_.
      res_bind (varint_keystream H (key_bytes key) (take 16 p) (length (drop 16 p))) (\<lambda>ks.
      res_bind (fixed_decode_tokens (xor_bytes (drop 16 p) ks)) (\<lambda>tokens.
        decrypt_core H (take 16 p) tokens key (key_bytes key)))) \<noteq> Panic"
    using decrypt_core_v7_not_Panic [OF v7_key_safe, of key] fixed_decode_not_Panic
    by (intro v7_guarded_not_Panic) (simp only: varint_keystream_Ok [OF p(2)] res_bind.simps, simp)
  moreover have "check_v7_aad_len (length aad) = Ok ()" using True by (simp add: check_v7_aad_len_Ok)
  ultimately show ?thesis using True unfolding open_v7_def Let_def size_consts p_def [symmetric]
    by (simp del: res_bind_eq_Panic)
qed (auto simp: open_v7_def check_v7_aad_len_def)


lemma decrypt_raw_not_Panic:
  assumes "length ct \<le> 32 * (2 ^ 32 - 1)"
  shows "decrypt_raw H m ct key aad \<noteq> Panic"
proof -
  have "collect_res (\<lambda>(i, c). if 0xFF < c then Err (TokenError (RawRange c i)) else Ok (of_nat c :: byte)) cs \<noteq> Panic"
    for cs by (induction cs) (auto split: if_splits)
  then show ?thesis
    using fips_check_cases [of m] open_v7_not_Panic [OF assms, of H key aad] by (auto simp: decrypt_raw_def)
qed

lemma decrypt_bytes_not_Panic:
  assumes "length ct \<le> 32 * (2 ^ 32 - 1)"
  shows "decrypt_bytes H m ct key aad \<noteq> Panic"
  using fips_check_cases [of m]
proof
  assume "fips_check m = Ok ()"
  then show ?thesis using open_v7_not_Panic [OF assms] by (simp add: decrypt_bytes_open)
qed (simp add: decrypt_bytes_def)

lemma seal_drawn_not_Panic:
  assumes "length draw = 16" "length aad < 2 ^ 32" "list_all is_scalar cps" "length cps \<le> 0xFFFF"
  shows "fst (v7_seal_drawn H draw m cps key aad) \<noteq> Panic"
proof (cases "fips_check m = Ok () \<and> validate_key key = Ok ()")
  case True
  then have "valid_key key" "\<forall>c \<in> set cps. is_scalar c"
    using assms(3) by (simp_all add: validate_key_Ok_iff list_all_iff)
  then show ?thesis
    using True by (cases rule: seal_drawn_cases [OF _ _ assms(1,2) _ assms(4), of m key H]) auto
next
  case False
  then show ?thesis
    using fips_check_cases [of m] validate_key_not_Panic [of key]
    by (cases "validate_key key") (auto simp: v7_seal_drawn_def v7_encrypt_checks_def)
qed

lemma fuzz_v7_tokens_cases:
  assumes "fips_check m = Ok ()" "validate_key key = Ok ()" "list_all is_scalar msg" "length msg < 2 ^ 16"
  obtains (guard) "fuzz_v7_tokens H msg key nonce = Err (TokenError NoiseRunGuard)"
    | (tokens) ts where "fuzz_v7_tokens H msg key nonce = Ok ts" "decrypt H m nonce ts key = Ok msg"
proof -
  have key: "valid_key key" using assms(2) by (simp add: validate_key_Ok_iff)
  have v7: "validate_key_v7_decrypt key = Ok ()" using valid_key_v7 [OF key] by (simp add: validate_key_v7_decrypt_Ok_iff)
  have msg: "\<forall>c \<in> set msg. is_scalar c" using assms(3) by (simp add: list_all_iff)
  show thesis
    by (rule emit_tokens_v7_cases [OF valid_key_safe [OF key] msg assms(4), of H "key_bytes key" nonce])
      (use guard tokens assms(1,2) v7 in \<open>auto simp: fuzz_v7_tokens_def decrypt_def Let_def\<close>)
qed

section \<open>A concrete ciphertext\<close>

text \<open>Under the hash that is constantly all ones no position is noise.\<close>

lemma be_bytes_max: "be_bytes w (256 ^ w - 1) = replicate w (- 1)"
proof (induction w)
  case (Suc w)
  have *: "(256 ^ Suc w - 1 :: nat) = 256 * (256 ^ w - 1) + 255"
    using one_le_power [of "256 :: nat" w] by (simp add: diff_mult_distrib2)
  have "(256 ^ Suc w - 1 :: nat) div 256 = 256 ^ w - 1" "(256 ^ Suc w - 1 :: nat) mod 256 = 255"
    unfolding * by simp_all
  moreover from this(2) have "(of_nat (256 ^ Suc w - 1) :: byte) = - 1"
    by (intro word_unat_eq_iff [THEN iffD2])
      (simp only: unat_of_nat_byte unsigned_minus_1_eq_mask, simp add: mask_eq_exp_minus_1)
  ultimately show ?case using Suc.IH by (simp add: replicate_append_same)
qed simp

lemma ones_digest: "hmac_digest (\<lambda>_ _. - 1) kb data = replicate 32 (- 1)"
proof -
  have "unat (- 1 :: 256 word) = 256 ^ 32 - 1"
    by (simp add: unsigned_minus_1_eq_mask mask_eq_exp_minus_1)
  then show ?thesis unfolding hmac_digest_def by (simp only: be_bytes_max)
qed

lemma ones_real: "\<not> is_noise_pos (\<lambda>_ _. - 1) kb nonce pos (derive_noise_p (\<lambda>_ _. - 1) kb nonce)"
proof -
  have "u64_from_be8 (replicate 32 (- 1)) = 2 ^ 64 - 1"
    using arg_cong [OF be_bytes_max [of 8], of be_val] by (simp add: u64_from_be8_def)
  moreover have "f64_of_nat (2 ^ 64 - 1) = (9007199254740992, 11)"
    using bit_len_unique [of 63 "2 ^ 64 - 1"] by (simp add: f64_of_nat_def round_f64_def)
  moreover have "f64_sub f64_0_99 f64_0_75 = (2161727821137838, -53)"
    using bit_len_unique [of 50 2161727821137838]
    by (simp add: f64_sub_def f64_align_def f64_0_99_def f64_0_75_def round_f64_def)
  moreover have "f64_mul (9007199254740992, -53) (2161727821137838, -53) = (8646911284551352, -55)"
    using bit_len_unique [of 103 19471113219505602886413420855296]
    by (simp add: f64_mul_def round_f64_def)
  moreover have "f64_add f64_0_75 (8646911284551352, -55) = (8917127262193582, -53)"
    using bit_len_unique [of 54 35668509048774328]
    by (simp add: f64_add_def f64_align_def f64_0_75_def round_f64_def)
  ultimately show ?thesis
    by (simp add: is_noise_pos_def derive_noise_p_def ones_digest Let_def f64_div_two64_def f64_less_def
        f64_align_def)
qed

lemma real_token_not_Err: "real_token H kb nonce i c k \<noteq> Err e"
  by (simp add: real_token_def mul_u64_def add_u64_def derive_addend_def Let_def)

lemma emit_without_noise:
  assumes "\<And>pos. \<not> is_noise_pos H kb nonce pos np"
  shows "emit_codepoints_v7 H kb nonce np key cs real_idx ct_pos \<noteq> Err e"
proof (induction cs arbitrary: real_idx ct_pos)
  case (Cons c cs)
  have "emit_codepoint_v7 H kb nonce np key c real_idx ct_pos 0 \<noteq> Err e"
    using assms by (subst emit_codepoint_v7.simps) (simp add: real_token_not_Err key_at_def)
  with Cons.IH show ?case by auto
qed simp

lemma sample_v7_ciphertext:
  assumes "is_scalar c"
  obtains ct where "fst (encrypt_bytes (\<lambda>_ _. - 1) (replicate 16 1) open_module [c] sample_key []) = Ok ct"
    "decrypt_bytes (\<lambda>_ _. - 1) open_module ct sample_key [] = Ok [c]"
proof -
  let ?H = "(\<lambda>_ _. - 1) :: mac" and ?n = "replicate 16 1 :: bytes" and ?kb = "key_bytes sample_key"
  have "seal_v7 ?H [c] sample_key ?n [] \<noteq> Err (TokenError NoiseRunGuard)"
    by (rule emit_tokens_v7_cases [OF valid_key_safe [OF valid_sample_key], of "[c]" ?H ?kb ?n])
      (use assms emit_without_noise [OF ones_real, of ?kb ?n sample_key] in
        \<open>auto simp: seal_v7_def Let_def emit_tokens_v7_def varint_keystream_Ok compute_auth_tag_def be_len_prefix_def\<close>)
  then have "fst (v7_seal_drawn ?H ?n open_module [c] sample_key []) \<noteq> Err (TokenError NoiseRunGuard)"
    using crng_cases [of open_module ?n] by (simp add: v7_seal_drawn_def with_nonce_def open_module_def
        generate_nonce_with_crng_check_def v7_encrypt_checks_def fips_check_def validate_sample_key check_v7_aad_len_def)
  moreover have "prev_nonce open_module \<noteq> Some ?n" by (simp add: open_module_def)
  ultimately show thesis
    by (cases rule: seal_drawn_cases [OF fips_check_open_module valid_sample_key, of ?n "[]" "[c]" ?H])
      (use assms that in \<open>auto simp: encrypt_bytes_def decrypt_bytes_open\<close>)
qed

section \<open>Properties\<close>

text \<open>
  C20: the v7 text and raw formats round-trip. For a validated key and a 16-byte draw,
  \<open>encrypt_bytes\<close> and \<open>encrypt_raw\<close> either report the stuck generator or the exhausted
  noise-run guard, or return a ciphertext that the matching decryptor turns back into the
  input, although the noise decisions of v7 are made in floating point.
\<close>

theorem v7_round_trip:
  assumes "fips_check m = Ok ()" "validate_key key = Ok ()" "length nonce = 16" "length aad < 2 ^ 32"
    and "list_all is_scalar message" "length message \<le> 0xFFFF" "length data \<le> 0xFFFF"
  shows "(case fst (encrypt_bytes H nonce m message key aad) of
            Ok ct \<Rightarrow> decrypt_bytes H m ct key aad = Ok message
          | Err e \<Rightarrow> e = CrngStuck \<or> e = TokenError NoiseRunGuard
          | Panic \<Rightarrow> False) \<and>
         (case fst (encrypt_raw H nonce m data key aad) of
            Ok ct \<Rightarrow> decrypt_raw H m ct key aad = Ok data
          | Err e \<Rightarrow> e = CrngStuck \<or> e = TokenError NoiseRunGuard
          | Panic \<Rightarrow> False)"
proof
  have key: "valid_key key" using assms(2) by (simp add: validate_key_Ok_iff)
  have msg: "\<forall>c \<in> set message. is_scalar c" using assms(5) by (simp add: list_all_iff)
  have raw: "\<forall>c \<in> set (map (unat :: byte \<Rightarrow> nat) data). is_scalar c"
  proof -
    have "is_scalar (unat b)" for b :: byte unfolding is_scalar_def using unat_byte_less [of b] by linarith
    then show ?thesis by simp
  qed
  show "case fst (encrypt_bytes H nonce m message key aad) of
      Ok ct \<Rightarrow> decrypt_bytes H m ct key aad = Ok message
    | Err e \<Rightarrow> e = CrngStuck \<or> e = TokenError NoiseRunGuard | Panic \<Rightarrow> False"
    by (rule seal_drawn_cases [OF assms(1) key assms(3,4) msg assms(6), of H])
      (simp_all add: encrypt_bytes_def decrypt_bytes_open [OF assms(1)])
  have "length (map (unat :: byte \<Rightarrow> nat) data) \<le> 0xFFFF" using assms(7) by simp
  then show "case fst (encrypt_raw H nonce m data key aad) of
      Ok ct \<Rightarrow> decrypt_raw H m ct key aad = Ok data
    | Err e \<Rightarrow> e = CrngStuck \<or> e = TokenError NoiseRunGuard | Panic \<Rightarrow> False"
    by (rule seal_drawn_cases [OF assms(1) key assms(3,4) raw, of H])
      (simp_all add: encrypt_raw_def decrypt_raw_open [OF assms(1)])
qed

theorem v7_round_trip_witness:
  "\<exists>ct. fst (encrypt_bytes (\<lambda>_ _. - 1) (replicate 16 1) open_module [65] sample_key []) = Ok ct \<and>
     decrypt_bytes (\<lambda>_ _. - 1) open_module ct sample_key [] = Ok [65]"
proof -
  obtain ct where "fst (encrypt_bytes (\<lambda>_ _. - 1) (replicate 16 1) open_module [65] sample_key []) = Ok ct"
    by (rule sample_v7_ciphertext [of 65]) (simp_all add: is_scalar_def)
  with v7_round_trip [OF fips_check_open_module validate_sample_key, of "replicate 16 1" "[]" "[65]" "[]" "\<lambda>_ _. - 1"]
  show ?thesis by (simp add: is_scalar_def)
qed

text \<open>
  The two v7 conventions are not confused silently: a ciphertext of a text with a
  codepoint above 255 makes \<open>decrypt_raw\<close> return the range error for that codepoint instead
  of truncating it to a byte.
\<close>

lemma raw_decryption_rejects_wide_text:
  assumes "fips_check m = Ok ()" "decrypt_bytes H m ct key aad = Ok message"
    and "find (\<lambda>c. 0xFF < c) message = Some c"
  shows "\<exists>i. decrypt_raw H m ct key aad = Err (TokenError (RawRange c i))"
  using decrypt_raw_wide [OF assms(1) _ assms(3)] assms(2) by (simp add: decrypt_bytes_open [OF assms(1)])

end
