(* ===== verification/StreamV8.thy ===== *)
theory StreamV8
  imports KeyMaterial LegacyV7
begin

text \<open>
  The v8 streaming format of \<open>rust/src/lib.rs\<close> (feature \<open>experimental-stream\<close>): the
  framed stream with a tag per chunk and a sentinel, the all-at-once encryptor, the decryptor
  and the incremental \<open>StreamV8Encryptor\<close>.
\<close>

section \<open>Derivations\<close>

definition STREAM_AE_V8_DEFAULT_FRAME :: nat where "STREAM_AE_V8_DEFAULT_FRAME = 128"
definition STREAM_AE_V8_MAX_FRAME :: nat where [simp]: "STREAM_AE_V8_MAX_FRAME = 16384"
definition DOMAIN_STREAM_V8_CHUNK_TAG :: byte where "DOMAIN_STREAM_V8_CHUNK_TAG = 0x0C"
definition DOMAIN_STREAM_V8_SENTINEL :: byte where "DOMAIN_STREAM_V8_SENTINEL = 0x0D"
definition DOMAIN_STREAM_V8_SUBNONCE :: byte where "DOMAIN_STREAM_V8_SUBNONCE = 0x0E"
definition DOMAIN_STREAM_V8_COUNT_MASK :: byte where "DOMAIN_STREAM_V8_COUNT_MASK = 0x0F"

definition stream_v8_header :: "nat \<Rightarrow> bytes \<Rightarrow> bytes" where
  "stream_v8_header f nonce = FORMAT_STREAM_AE_V8 # be_bytes 4 f @ nonce"

definition stream_v8_count_mask :: "mac \<Rightarrow> bytes \<Rightarrow> nat \<Rightarrow> bytes \<Rightarrow> nat \<Rightarrow> nat" where
  "stream_v8_count_mask H sk_fmt f nonce chunk_count =
     u64_from_be8 (hmac_digest H sk_fmt
       (DOMAIN_STREAM_V8_COUNT_MASK # stream_v8_header f nonce @ be_bytes 4 chunk_count))"

definition derive_stream_v8_sub_nonce :: "mac \<Rightarrow> bytes \<Rightarrow> bytes \<Rightarrow> nat \<Rightarrow> bytes" where
  "derive_stream_v8_sub_nonce H sk_fmt nonce chunk_idx =
     take NONCE_SIZE (hmac_digest H sk_fmt (DOMAIN_STREAM_V8_SUBNONCE # nonce @ be_bytes 4 chunk_idx))"

definition derive_stream_v8_filler_cp :: "mac \<Rightarrow> bytes \<Rightarrow> bytes \<Rightarrow> nat \<Rightarrow> nat" where
  "derive_stream_v8_filler_cp H sk_fmt sub_nonce fill_idx =
     (let d = hmac_digest H sk_fmt (schedule_data 0x06 sub_nonce (be_bytes 4 fill_idx))
      in u32_from_be4 d mod PAD_ALPHABET + ASCII_PRINTABLE_BASE)"

definition encrypt_v8_stream_chunk_core ::
    "mac \<Rightarrow> str \<Rightarrow> nat list \<Rightarrow> bytes \<Rightarrow> bytes \<Rightarrow> (nat list, error) res" where
  "encrypt_v8_stream_chunk_core H chunk_cps primes sk_fmt sub_nonce =
     emit_tokens_v8 H chunk_cps primes sk_fmt sub_nonce"

definition compute_stream_v8_chunk_tag ::
    "mac \<Rightarrow> bytes \<Rightarrow> nat \<Rightarrow> bytes \<Rightarrow> nat \<Rightarrow> bytes \<Rightarrow> bytes \<Rightarrow> (bytes, error) res" where
  "compute_stream_v8_chunk_tag H sk_fmt f nonce chunk_idx aad masked_chunk =
     res_bind (be_len_prefix (length aad) AAD_LEN_WIDTH_V8) (\<lambda>prefix.
       Ok (hmac_digest H sk_fmt
             (DOMAIN_STREAM_V8_CHUNK_TAG # stream_v8_header f nonce @ be_bytes 4 chunk_idx
                @ prefix @ aad @ masked_chunk)))"

definition compute_stream_v8_sentinel_tag ::
    "mac \<Rightarrow> bytes \<Rightarrow> nat \<Rightarrow> bytes \<Rightarrow> nat \<Rightarrow> bytes \<Rightarrow> nat \<Rightarrow> (bytes, error) res" where
  "compute_stream_v8_sentinel_tag H sk_fmt f nonce chunk_count aad total_real_cps =
     res_bind (be_len_prefix (length aad) AAD_LEN_WIDTH_V8) (\<lambda>prefix.
       Ok (hmac_digest H sk_fmt
             (DOMAIN_STREAM_V8_SENTINEL # stream_v8_header f nonce @ be_bytes 4 chunk_count
                @ prefix @ aad @ be_bytes 8 total_real_cps)))"

definition validate_stream_v8_frame :: "nat \<Rightarrow> (unit, error) res" where
  "validate_stream_v8_frame f =
     (if f < 1 \<or> STREAM_AE_V8_MAX_FRAME < f then Err (StreamError (FrameRange f)) else Ok ())"

definition next_stream_chunk_idx :: "nat \<Rightarrow> (nat, error) res" where
  "next_stream_chunk_idx chunk_idx =
     (if chunk_idx + 1 < 2 ^ 32 then Ok (chunk_idx + 1) else Err (StreamError ChunkLimit))"

section \<open>Encryption\<close>

definition emit_stream_v8_chunk ::
    "mac \<Rightarrow> str \<Rightarrow> nat \<Rightarrow> nat list \<Rightarrow> bytes \<Rightarrow> bytes \<Rightarrow> bytes \<Rightarrow> (bytes, error) res" where
  "emit_stream_v8_chunk H codepoints_f idx primes sk_fmt nonce aad =
     (let sub_nonce = derive_stream_v8_sub_nonce H sk_fmt nonce idx in
      res_bind (encrypt_v8_stream_chunk_core H codepoints_f primes sk_fmt sub_nonce) (\<lambda>tokens.
        let blob = fixed_encode_tokens tokens in
        res_bind (varint_keystream H sk_fmt sub_nonce (length blob)) (\<lambda>ks.
          let masked = xor_bytes blob ks in
          res_bind (compute_stream_v8_chunk_tag H sk_fmt (length codepoints_f) nonce idx aad masked) (\<lambda>tag.
            Ok (be_bytes 4 (length masked) @ masked @ tag)))))"

text \<open>
  The loop \<open>for ch in plaintext.chars()\<close>: the frames it appends, then the buffer, the count
  and the chunk index it leaves.
\<close>

fun stream_chars ::
    "mac \<Rightarrow> nat list \<Rightarrow> bytes \<Rightarrow> bytes \<Rightarrow> bytes \<Rightarrow> nat \<Rightarrow> str \<Rightarrow> str \<Rightarrow> nat \<Rightarrow> nat
       \<Rightarrow> (bytes \<times> str \<times> nat \<times> nat, error) res" where
  "stream_chars H primes sk_fmt nonce aad f [] cp_buf total_cps chunk_idx = Ok ([], cp_buf, total_cps, chunk_idx)"
| "stream_chars H primes sk_fmt nonce aad f (ch # chs) cp_buf total_cps chunk_idx =
     (let buf = cp_buf @ [ch] in
      res_bind (add_u64 total_cps 1) (\<lambda>total_cps'.
        if f \<le> length buf
        then res_bind (next_stream_chunk_idx chunk_idx) (\<lambda>next_idx.
             res_bind (emit_stream_v8_chunk H (take f buf) chunk_idx primes sk_fmt nonce aad) (\<lambda>frame.
             res_bind (stream_chars H primes sk_fmt nonce aad f chs (drop f buf) total_cps' next_idx)
               (\<lambda>(out, rest). Ok (frame @ out, rest))))
        else stream_chars H primes sk_fmt nonce aad f chs buf total_cps' chunk_idx))"

text \<open>The filler that completes the last chunk.\<close>

definition stream_filler :: "mac \<Rightarrow> bytes \<Rightarrow> bytes \<Rightarrow> nat \<Rightarrow> nat \<Rightarrow> str" where
  "stream_filler H sk_fmt nonce chunk_idx fill_needed =
     map (derive_stream_v8_filler_cp H sk_fmt (derive_stream_v8_sub_nonce H sk_fmt nonce chunk_idx))
       [0..<fill_needed]"

definition stream_last_chunk ::
    "mac \<Rightarrow> nat list \<Rightarrow> bytes \<Rightarrow> bytes \<Rightarrow> bytes \<Rightarrow> nat \<Rightarrow> str \<Rightarrow> nat \<Rightarrow> (bytes, error) res" where
  "stream_last_chunk H primes sk_fmt nonce aad f cp_buf chunk_idx =
     emit_stream_v8_chunk H (cp_buf @ stream_filler H sk_fmt nonce chunk_idx (f - length cp_buf))
       chunk_idx primes sk_fmt nonce aad"

text \<open>The partial last chunk of the all-at-once encryptor and the final chunk count.\<close>

definition stream_flush ::
    "mac \<Rightarrow> nat list \<Rightarrow> bytes \<Rightarrow> bytes \<Rightarrow> bytes \<Rightarrow> nat \<Rightarrow> str \<Rightarrow> nat \<Rightarrow> (bytes \<times> nat, error) res" where
  "stream_flush H primes sk_fmt nonce aad f cp_buf chunk_idx =
     (if cp_buf = [] then Ok ([], chunk_idx)
      else res_bind (next_stream_chunk_idx chunk_idx) (\<lambda>next_idx.
           res_bind (stream_last_chunk H primes sk_fmt nonce aad f cp_buf chunk_idx)
             (\<lambda>frame. Ok (frame, next_idx))))"

text \<open>The sentinel: four zero bytes, the masked count, the tag.\<close>

definition stream_sentinel ::
    "mac \<Rightarrow> bytes \<Rightarrow> bytes \<Rightarrow> bytes \<Rightarrow> nat \<Rightarrow> nat \<Rightarrow> nat \<Rightarrow> (bytes, error) res" where
  "stream_sentinel H sk_fmt nonce aad f total_cps chunk_idx =
     res_bind (compute_stream_v8_sentinel_tag H sk_fmt f nonce chunk_idx aad total_cps) (\<lambda>tag.
       let mask = stream_v8_count_mask H sk_fmt f nonce chunk_idx in
       Ok (be_bytes 4 0 @ be_bytes 8 (total_cps XOR mask) @ tag))"

definition encrypt_stream_ae_v8_inner ::
    "mac \<Rightarrow> str \<Rightarrow> nat list \<Rightarrow> bytes \<Rightarrow> bytes \<Rightarrow> bytes \<Rightarrow> nat \<Rightarrow> (bytes, error) res" where
  "encrypt_stream_ae_v8_inner H plaintext primes sk_fmt nonce aad frame_codepoints =
     res_bind (stream_chars H primes sk_fmt nonce aad frame_codepoints plaintext [] 0 0)
       (\<lambda>(frames, cp_buf, total_cps, chunk_idx).
     res_bind (stream_flush H primes sk_fmt nonce aad frame_codepoints cp_buf chunk_idx)
       (\<lambda>(last_frame, count).
     res_bind (stream_sentinel H sk_fmt nonce aad frame_codepoints total_cps count) (\<lambda>sentinel.
       Ok (stream_v8_header frame_codepoints nonce @ frames @ last_frame @ sentinel))))"

definition encrypt_stream_ae_v8_with_nonce ::
    "mac \<Rightarrow> str \<Rightarrow> nat list \<Rightarrow> bytes \<Rightarrow> bytes \<Rightarrow> bytes \<Rightarrow> nat \<Rightarrow> (bytes, error) res" where
  "encrypt_stream_ae_v8_with_nonce H plaintext primes sk nonce aad frame_codepoints =
     res_bind (validate_key primes) (\<lambda>_.
     res_bind (validate_stream_v8_frame frame_codepoints) (\<lambda>_.
       encrypt_stream_ae_v8_inner H plaintext primes (derive_format_subkey H sk FORMAT_STREAM_AE_V8)
         nonce aad frame_codepoints))"

definition encrypt_stream_ae_v8 ::
    "mac \<Rightarrow> bytes \<Rightarrow> module_state \<Rightarrow> str \<Rightarrow> nat list \<Rightarrow> bytes \<Rightarrow> bytes \<Rightarrow> nat
       \<Rightarrow> (bytes, error) res \<times> module_state" where
  "encrypt_stream_ae_v8 H draw m plaintext primes sk aad frame_codepoints =
     (case fips_check m of
        Ok _ \<Rightarrow> with_nonce draw m (\<lambda>nonce.
          encrypt_stream_ae_v8_with_nonce H plaintext primes sk nonce aad frame_codepoints)
      | Err e \<Rightarrow> (Err e, m) | Panic \<Rightarrow> (Panic, m))"

definition encrypt_stream_ae_v8_key ::
    "mac \<Rightarrow> bytes \<Rightarrow> module_state \<Rightarrow> str \<Rightarrow> NapqesKey \<Rightarrow> bytes \<Rightarrow> nat
       \<Rightarrow> (bytes, error) res \<times> module_state" where
  "encrypt_stream_ae_v8_key H draw m plaintext key aad frame_codepoints =
     (case res_bind (fips_check m) (\<lambda>_. validate_stream_v8_frame frame_codepoints) of
        Ok _ \<Rightarrow> with_nonce draw m (\<lambda>nonce.
          encrypt_stream_ae_v8_inner H plaintext (key_primes key)
            (derive_format_subkey H (key_sk key) FORMAT_STREAM_AE_V8) nonce aad frame_codepoints)
      | Err e \<Rightarrow> (Err e, m) | Panic \<Rightarrow> (Panic, m))"

section \<open>Decryption\<close>

text \<open>The sentinel branch; \<open>rest\<close> is the stream after the zero length prefix.\<close>

definition stream_finish ::
    "mac \<Rightarrow> bytes \<Rightarrow> bytes \<Rightarrow> bytes \<Rightarrow> nat \<Rightarrow> bytes \<Rightarrow> nat \<Rightarrow> str \<Rightarrow> str option \<Rightarrow> (str, error) res" where
  "stream_finish H sk_fmt nonce aad f rest chunk_idx delivered pending =
     (if length rest < 8 + TAG_SIZE then Err (StreamError SentinelTruncated)
      else let total_cps = u64_from_be8 rest XOR stream_v8_count_mask H sk_fmt f nonce chunk_idx in
        res_bind (compute_stream_v8_sentinel_tag H sk_fmt f nonce chunk_idx aad total_cps) (\<lambda>calc.
          if \<not> ct_eq_bytes (take TAG_SIZE (drop 8 rest)) calc then Err (StreamError SentinelAuth)
          else let pending_len = (case pending of None \<Rightarrow> 0 | Some p \<Rightarrow> length p);
                   delivered_len = length delivered;
                   available = delivered_len + pending_len
               in if \<not> (case pending of
                           Some _ \<Rightarrow> delivered_len < total_cps \<and> total_cps \<le> available
                         | None \<Rightarrow> total_cps = delivered_len)
                  then Err (StreamError (SentinelCount total_cps delivered_len pending_len))
                  else if length rest \<noteq> 8 + TAG_SIZE
                  then Err (StreamError (Trailing (length rest - (8 + TAG_SIZE))))
                  else to_text (case pending of
                                  None \<Rightarrow> delivered
                                | Some p \<Rightarrow> delivered @ take (total_cps - delivered_len) p)))"

text \<open>One chunk: the tag first, then the index limit, then unmasking and token recovery.\<close>

definition open_stream_chunk ::
    "mac \<Rightarrow> nat list \<Rightarrow> bytes \<Rightarrow> bytes \<Rightarrow> bytes \<Rightarrow> nat \<Rightarrow> nat \<Rightarrow> bytes \<Rightarrow> bytes \<Rightarrow> (nat \<times> str, error) res" where
  "open_stream_chunk H primes sk_fmt nonce aad f chunk_idx masked recv_tag =
     res_bind (compute_stream_v8_chunk_tag H sk_fmt f nonce chunk_idx aad masked) (\<lambda>calc.
       if \<not> ct_eq_bytes recv_tag calc then Err (StreamError (ChunkAuth chunk_idx))
       else res_bind (next_stream_chunk_idx chunk_idx) (\<lambda>next_idx.
         let sub_nonce = derive_stream_v8_sub_nonce H sk_fmt nonce chunk_idx in
         res_bind (varint_keystream H sk_fmt sub_nonce (length masked)) (\<lambda>ks.
         res_bind (fixed_decode_tokens (xor_bytes masked ks)) (\<lambda>tokens.
         res_bind (decrypt_v8_stream_chunk_core H tokens primes sk_fmt sub_nonce f) (\<lambda>cps.
           Ok (next_idx, cps))))))"

text \<open>
  The frame loop; \<open>rest\<close> is the stream from \<open>pos\<close> on, which gets shorter in every
  iteration.
\<close>

function stream_frames ::
    "mac \<Rightarrow> nat list \<Rightarrow> bytes \<Rightarrow> bytes \<Rightarrow> bytes \<Rightarrow> nat \<Rightarrow> bytes \<Rightarrow> nat \<Rightarrow> str \<Rightarrow> str option \<Rightarrow> (str, error) res" where
  "stream_frames H primes sk_fmt nonce aad f rest chunk_idx delivered pending =
     (if length rest < 4 then Err (StreamError LengthTruncated)
      else let chunk_len = be_val (take 4 rest);
               body = drop 4 rest;
               expected = f * TOKEN_WIDTH * (MAX_NOISE_RUN + 1)
           in if chunk_len = 0 then stream_finish H sk_fmt nonce aad f body chunk_idx delivered pending
              else if chunk_len \<noteq> expected then Err (StreamError (FrameLength chunk_len expected))
              else if length body < chunk_len + TAG_SIZE then Err (StreamError FrameTruncated)
              else res_bind (open_stream_chunk H primes sk_fmt nonce aad f chunk_idx (take chunk_len body)
                               (take TAG_SIZE (drop chunk_len body)))
                     (\<lambda>(next_idx, cps).
                       stream_frames H primes sk_fmt nonce aad f (drop (chunk_len + TAG_SIZE) body) next_idx
                         (delivered @ (case pending of None \<Rightarrow> [] | Some p \<Rightarrow> p)) (Some cps)))"
  by pat_completeness auto
termination
  by (relation "measure (\<lambda>(H, primes, sk_fmt, nonce, aad, f, rest, chunk_idx, delivered, pending).
        length rest)") auto

declare stream_frames.simps [simp del]

definition decrypt_stream_ae_v8_inner ::
    "mac \<Rightarrow> bytes \<Rightarrow> nat list \<Rightarrow> bytes \<Rightarrow> bytes \<Rightarrow> (str, error) res" where
  "decrypt_stream_ae_v8_inner H stream primes sk_fmt aad =
     (if length stream < 1 + 4 + NONCE_SIZE then Err (StreamError (HeaderTruncated (length stream)))
      else if stream ! 0 \<noteq> FORMAT_STREAM_AE_V8 then Err (StreamError (FormatId (stream ! 0)))
      else let f = be_val (take 4 (drop 1 stream)) in
        if f < 1 \<or> STREAM_AE_V8_MAX_FRAME < f then Err (StreamError (HeaderFrame f))
        else stream_frames H primes sk_fmt (take NONCE_SIZE (drop 5 stream)) aad f
               (drop (1 + 4 + NONCE_SIZE) stream) 0 [] None)"

definition decrypt_stream_ae_v8 ::
    "mac \<Rightarrow> module_state \<Rightarrow> bytes \<Rightarrow> nat list \<Rightarrow> bytes \<Rightarrow> bytes \<Rightarrow> (str, error) res" where
  "decrypt_stream_ae_v8 H m stream primes sk aad =
     res_bind (fips_check m) (\<lambda>_.
     res_bind (validate_key primes) (\<lambda>_.
       decrypt_stream_ae_v8_inner H stream primes (derive_format_subkey H sk FORMAT_STREAM_AE_V8) aad))"

definition decrypt_stream_ae_v8_key ::
    "mac \<Rightarrow> module_state \<Rightarrow> bytes \<Rightarrow> NapqesKey \<Rightarrow> bytes \<Rightarrow> (str, error) res" where
  "decrypt_stream_ae_v8_key H m stream key aad =
     res_bind (fips_check m) (\<lambda>_.
       decrypt_stream_ae_v8_inner H stream (key_primes key)
         (derive_format_subkey H (key_sk key) FORMAT_STREAM_AE_V8) aad)"

section \<open>The incremental encryptor\<close>

record StreamV8Encryptor =
  se_primes :: "nat list"
  se_sk_fmt :: bytes
  se_aad :: bytes
  se_nonce :: bytes
  se_f :: nat
  se_chunk_idx :: nat
  se_total_real_cps :: nat
  se_cp_buf :: str
  se_finished :: bool

text \<open>The buffer is overwritten and emptied.\<close>

definition zeroize_codepoints :: "str \<Rightarrow> str" where
  "zeroize_codepoints buf = take 0 (map (\<lambda>_. 0) buf)"

definition stream_enc_new_validated ::
    "mac \<Rightarrow> bytes \<Rightarrow> module_state \<Rightarrow> nat list \<Rightarrow> bytes \<Rightarrow> bytes \<Rightarrow> nat
       \<Rightarrow> (StreamV8Encryptor \<times> bytes, error) res \<times> module_state" where
  "stream_enc_new_validated H draw m primes sk aad frame_codepoints =
     (case validate_stream_v8_frame frame_codepoints of
        Ok _ \<Rightarrow> with_nonce draw m (\<lambda>nonce.
          Ok (\<lparr>se_primes = primes, se_sk_fmt = derive_format_subkey H sk FORMAT_STREAM_AE_V8,
               se_aad = aad, se_nonce = nonce, se_f = frame_codepoints, se_chunk_idx = 0,
               se_total_real_cps = 0, se_cp_buf = [], se_finished = False\<rparr>,
              FORMAT_STREAM_AE_V8 # be_bytes 4 frame_codepoints @ nonce))
      | Err e \<Rightarrow> (Err e, m) | Panic \<Rightarrow> (Panic, m))"

definition stream_enc_new ::
    "mac \<Rightarrow> bytes \<Rightarrow> module_state \<Rightarrow> nat list \<Rightarrow> bytes \<Rightarrow> bytes \<Rightarrow> nat
       \<Rightarrow> (StreamV8Encryptor \<times> bytes, error) res \<times> module_state" where
  "stream_enc_new H draw m primes sk aad frame_codepoints =
     (case res_bind (fips_check m) (\<lambda>_. validate_key primes) of
        Ok _ \<Rightarrow> stream_enc_new_validated H draw m primes sk aad frame_codepoints
      | Err e \<Rightarrow> (Err e, m) | Panic \<Rightarrow> (Panic, m))"

definition stream_enc_new_key ::
    "mac \<Rightarrow> bytes \<Rightarrow> module_state \<Rightarrow> NapqesKey \<Rightarrow> bytes \<Rightarrow> nat
       \<Rightarrow> (StreamV8Encryptor \<times> bytes, error) res \<times> module_state" where
  "stream_enc_new_key H draw m key aad frame_codepoints =
     (case fips_check m of
        Ok _ \<Rightarrow> stream_enc_new_validated H draw m (key_primes key) (key_sk key) aad frame_codepoints
      | Err e \<Rightarrow> (Err e, m) | Panic \<Rightarrow> (Panic, m))"

text \<open>A refused push leaves the encryptor as it was.\<close>

definition stream_enc_push ::
    "mac \<Rightarrow> module_state \<Rightarrow> StreamV8Encryptor \<Rightarrow> nat \<Rightarrow> (bytes option, error) res \<times> StreamV8Encryptor" where
  "stream_enc_push H m st ch =
     (if se_finished st then (Err (StreamError PushAfterFinish), st)
      else case fips_check m of
        Err e \<Rightarrow> (Err e, st) | Panic \<Rightarrow> (Panic, st)
      | Ok _ \<Rightarrow>
         if se_chunk_idx st = 2 ^ 32 - 1 then (Err (StreamError ChunkLimit), st)
         else let st1 = st\<lparr>se_cp_buf := se_cp_buf st @ [ch]\<rparr> in
           case add_u64 (se_total_real_cps st1) 1 of
             Err e \<Rightarrow> (Err e, st1) | Panic \<Rightarrow> (Panic, st1)
           | Ok n \<Rightarrow>
              let st2 = st1\<lparr>se_total_real_cps := n\<rparr> in
              if se_f st2 \<le> length (se_cp_buf st2)
              then (case emit_stream_v8_chunk H (take (se_f st2) (se_cp_buf st2)) (se_chunk_idx st2)
                           (se_primes st2) (se_sk_fmt st2) (se_nonce st2) (se_aad st2) of
                      Ok frame \<Rightarrow>
                        (Ok (Some frame),
                         st2\<lparr>se_cp_buf := zeroize_codepoints (se_cp_buf st2),
                             se_chunk_idx := se_chunk_idx st2 + 1\<rparr>)
                    | Err e \<Rightarrow> (Err e, st2) | Panic \<Rightarrow> (Panic, st2))
              else (Ok None, st2))"

text \<open>\<open>finish\<close> consumes the encryptor; the index increment is a checked \<open>u32\<close> addition.\<close>

definition stream_enc_finish :: "mac \<Rightarrow> module_state \<Rightarrow> StreamV8Encryptor \<Rightarrow> (bytes, error) res" where
  "stream_enc_finish H m st =
     (if se_finished st then Err (StreamError FinishTwice)
      else res_bind (fips_check m) (\<lambda>_.
        res_bind (if se_cp_buf st = [] then Ok ([], se_chunk_idx st)
                  else res_bind (stream_last_chunk H (se_primes st) (se_sk_fmt st) (se_nonce st) (se_aad st)
                                   (se_f st) (se_cp_buf st) (se_chunk_idx st))
                         (\<lambda>frame. if se_chunk_idx st + 1 < 2 ^ 32 then Ok (frame, se_chunk_idx st + 1)
                                   else Panic))
          (\<lambda>(out, count).
        res_bind (stream_sentinel H (se_sk_fmt st) (se_nonce st) (se_aad st) (se_f st)
                    (se_total_real_cps st) count)
          (\<lambda>sentinel. Ok (out @ sentinel)))))"

definition stream_enc_drop :: "StreamV8Encryptor \<Rightarrow> StreamV8Encryptor" where
  "stream_enc_drop st =
     st\<lparr>se_primes := zeroize_key (se_primes st), se_cp_buf := zeroize_codepoints (se_cp_buf st),
        se_sk_fmt := map (\<lambda>_. 0) (se_sk_fmt st)\<rparr>"

end
