(* ===== verification/StreamCorrect.thy ===== *)
theory StreamCorrect
  imports StreamV8
begin

text \<open>
  Correctness of the streaming format: one chunk is inverted by one iteration of the decoder,
  hence the whole stream by the whole loop; the incremental encryptor produces the stream of
  the all-at-once one.
\<close>

section \<open>One chunk\<close>

definition chunk_tag_input :: "nat \<Rightarrow> bytes \<Rightarrow> nat \<Rightarrow> bytes \<Rightarrow> bytes \<Rightarrow> bytes" where
  "chunk_tag_input f nonce idx aad masked =
     DOMAIN_STREAM_V8_CHUNK_TAG # stream_v8_header f nonce @ be_bytes 4 idx
       @ be_bytes 8 (length aad) @ aad @ masked"

definition sentinel_tag_input :: "nat \<Rightarrow> bytes \<Rightarrow> nat \<Rightarrow> bytes \<Rightarrow> nat \<Rightarrow> bytes" where
  "sentinel_tag_input f nonce count aad n =
     DOMAIN_STREAM_V8_SENTINEL # stream_v8_header f nonce @ be_bytes 4 count
       @ be_bytes 8 (length aad) @ aad @ be_bytes 8 n"

lemma compute_chunk_tag:
  "compute_stream_v8_chunk_tag H kb f nonce idx aad masked
     = Ok (hmac_digest H kb (chunk_tag_input f nonce idx aad masked))"
  by (simp add: compute_stream_v8_chunk_tag_def chunk_tag_input_def)

lemma compute_sentinel_tag:
  "compute_stream_v8_sentinel_tag H kb f nonce count aad n
     = Ok (hmac_digest H kb (sentinel_tag_input f nonce count aad n))"
  by (simp add: compute_stream_v8_sentinel_tag_def sentinel_tag_input_def)

lemma emit_chunk_Ok:
  assumes "safe_key primes" "\<forall>c \<in> set cps. is_scalar c" "length cps = f" "f \<le> 16384"
  obtains masked ks tokens where
    "emit_stream_v8_chunk H cps idx primes kb nonce aad
       = Ok (be_bytes 4 (160 * f) @ masked @ hmac_digest H kb (chunk_tag_input f nonce idx aad masked))"
    "length masked = 160 * f"
    "varint_keystream H kb (derive_stream_v8_sub_nonce H kb nonce idx) (160 * f) = Ok ks"
    "fixed_decode_tokens (xor_bytes masked ks) = Ok tokens"
    "decrypt_v8_stream_chunk_core H tokens primes kb (derive_stream_v8_sub_nonce H kb nonce idx) f = Ok cps"
proof -
  define sn where "sn = derive_stream_v8_sub_nonce H kb nonce idx"
  obtain ts where ts: "emit_tokens_v8 H cps primes kb sn = Ok ts" "length ts = 20 * f"
      "\<forall>t \<in> set ts. t < u64_limit"
      "\<And>errs. recover_loop H errs kb sn primes ts (derive_noise_threshold_v8 H kb sn) f 0 0 = Ok cps"
    using emit_tokens_v8_Ok [OF assms(1,2)] assms(3) by metis
  define ks where "ks = keystream_spec H kb sn (160 * f)"
  define masked where "masked = xor_bytes (fixed_encode_tokens ts) ks"
  have ks: "varint_keystream H kb sn (160 * f) = Ok ks"
    using assms(4) unfolding ks_def by (intro varint_keystream_Ok) simp
  have "length ks = 160 * f" by (simp add: ks_def)
  have len: "length masked = 160 * f" using ts(2) by (simp add: masked_def ks_def)
  have unmask: "xor_bytes masked ks = fixed_encode_tokens ts"
    unfolding masked_def by (rule xor_bytes_cancel) (simp add: ts ks_def)
  have dec: "fixed_decode_tokens (xor_bytes masked ks) = Ok ts"
    unfolding unmask using ts(3) by (intro fixed_decode_encode) blast
  have "8 * length ts = 160 * f" using ts(2) by simp
  then have "emit_stream_v8_chunk H cps idx primes kb nonce aad
      = Ok (be_bytes 4 (160 * f) @ masked @ hmac_digest H kb (chunk_tag_input f nonce idx aad masked))"
    using ts(1) ks \<open>length ks = 160 * f\<close> assms(3)
    by (simp add: emit_stream_v8_chunk_def encrypt_v8_stream_chunk_core_def Let_def compute_chunk_tag
        flip: sn_def masked_def)
  moreover have "decrypt_v8_stream_chunk_core H ts primes kb sn f = Ok cps"
    using ts(4) by (simp add: decrypt_v8_stream_chunk_core_def)
  ultimately show thesis using that [of masked ks ts] len ks dec by (simp flip: sn_def)
qed

lemma be_bytes_4_frame: "f \<le> 16384 \<Longrightarrow> be_val (be_bytes 4 (160 * f)) = 160 * f"
  by simp

lemma stream_frames_chunk:
  assumes "safe_key primes" "\<forall>c \<in> set cps. is_scalar c" "length cps = f" "0 < f" "f \<le> 16384"
    and "idx + 1 < 2 ^ 32" and "emit_stream_v8_chunk H cps idx primes kb nonce aad = Ok frame"
  shows "stream_frames H primes kb nonce aad f (frame @ rest) idx delivered pending
       = stream_frames H primes kb nonce aad f rest (idx + 1)
           (delivered @ (case pending of None \<Rightarrow> [] | Some p \<Rightarrow> p)) (Some cps)"
proof -
  obtain masked ks tokens where m: "frame = be_bytes 4 (160 * f) @ masked
        @ hmac_digest H kb (chunk_tag_input f nonce idx aad masked)"
      "length masked = 160 * f"
      and kt: "varint_keystream H kb (derive_stream_v8_sub_nonce H kb nonce idx) (160 * f) = Ok ks"
      "fixed_decode_tokens (xor_bytes masked ks) = Ok tokens"
      "decrypt_v8_stream_chunk_core H tokens primes kb (derive_stream_v8_sub_nonce H kb nonce idx) f = Ok cps"
    using emit_chunk_Ok [OF assms(1,2,3,5), of H idx kb nonce aad] assms(7) by (metis res.inject(1))
  have v: "be_val (be_bytes 4 (160 * f)) = 160 * f" using assms(5) by (rule be_bytes_4_frame)
  have t: "take 4 (frame @ rest) = be_bytes 4 (160 * f)"
    "drop 4 (frame @ rest) = masked @ hmac_digest H kb (chunk_tag_input f nonce idx aad masked) @ rest"
    "\<not> length (frame @ rest) < 4" by (simp_all add: m)
  show ?thesis
    unfolding stream_frames.simps [of H primes kb nonce aad f "frame @ rest"] Let_def t v
    using assms(4,6) m(2) kt t(3)
    by (simp add: open_stream_chunk_def compute_chunk_tag next_stream_chunk_idx_def Let_def)
qed

section \<open>The sentinel\<close>

lemma xor_less_u64: "a < 2 ^ 64 \<Longrightarrow> b < 2 ^ 64 \<Longrightarrow> a XOR b < (2 :: nat) ^ 64"
  by (metis take_bit_nat_eq_self_iff take_bit_xor)

lemma xor_cancel_nat: "(a XOR b) XOR b = (a :: nat)"
  by (simp add: xor.assoc)

lemma stream_sentinel_Ok:
  "stream_sentinel H kb nonce aad f n count =
     Ok (be_bytes 4 0 @ be_bytes 8 (n XOR stream_v8_count_mask H kb f nonce count)
           @ hmac_digest H kb (sentinel_tag_input f nonce count aad n))"
  by (simp add: stream_sentinel_def compute_sentinel_tag Let_def)

lemma stream_frames_sentinel:
  assumes "stream_sentinel H kb nonce aad f n idx = Ok sentinel" "n < 2 ^ 64"
    and "\<forall>c \<in> set (delivered @ (case pending of None \<Rightarrow> [] | Some p \<Rightarrow> p)). is_scalar c"
    and "case pending of None \<Rightarrow> n = length delivered
         | Some p \<Rightarrow> length delivered < n \<and> n \<le> length delivered + length p"
  shows "stream_frames H primes kb nonce aad f sentinel idx delivered pending
       = Ok (take n (delivered @ (case pending of None \<Rightarrow> [] | Some p \<Rightarrow> p)))"
proof -
  let ?mask = "stream_v8_count_mask H kb f nonce idx"
  have "?mask < 2 ^ 64" unfolding stream_v8_count_mask_def by (rule u64_from_be8_less)
  then have "n XOR ?mask < 2 ^ 64" using assms(2) by (intro xor_less_u64)
  then have v: "u64_from_be8 (be_bytes 8 (n XOR ?mask) @ tag) XOR ?mask = n" for tag
    by (simp add: u64_from_be8_def xor_cancel_nat)
  have s: "sentinel = be_bytes 4 0 @ be_bytes 8 (n XOR ?mask)
      @ hmac_digest H kb (sentinel_tag_input f nonce idx aad n)"
    using assms(1) by (simp add: stream_sentinel_Ok)
  have scal: "to_text (take k xs) = Ok (take k xs)" if "\<forall>c \<in> set xs. is_scalar c" for k xs
    using that by (intro to_text_Ok) (auto dest: in_set_takeD)
  have "take 4 sentinel = be_bytes 4 0" "drop 4 sentinel = be_bytes 8 (n XOR ?mask)
      @ hmac_digest H kb (sentinel_tag_input f nonce idx aad n)" "\<not> length sentinel < 4"
    by (simp_all add: s)
  moreover have "be_val (be_bytes 4 0) = 0" by simp
  ultimately have "stream_frames H primes kb nonce aad f sentinel idx delivered pending
      = stream_finish H kb nonce aad f (be_bytes 8 (n XOR ?mask)
      @ hmac_digest H kb (sentinel_tag_input f nonce idx aad n)) idx delivered pending"
    by (subst stream_frames.simps) (simp only: Let_def if_True if_False simp_thms)
  also have "\<dots> = Ok (take n (delivered @ (case pending of None \<Rightarrow> [] | Some p \<Rightarrow> p)))"
    using assms(3,4) scal [of delivered "length delivered"] scal [of "delivered @ the pending" n]
    by (auto simp: stream_finish_def Let_def v compute_sentinel_tag split: option.splits)
  finally show ?thesis .
qed

section \<open>The whole stream\<close>

lemma filler_scalar: "is_scalar (derive_stream_v8_filler_cp H kb sn i)"
proof -
  have "is_scalar (x mod 95 + 32)" for x :: nat
    unfolding is_scalar_def using mod_less_divisor [of 95 x] by linarith
  then show ?thesis by (simp add: derive_stream_v8_filler_cp_def alphabet_consts Let_def)
qed

lemma chunk_index_bound: "f * idx < f * (2 ^ 32 - 1) \<Longrightarrow> idx + 1 < (2 :: nat) ^ 32"
  by (simp only: mult_less_cancel1) linarith

lemma stream_flush_decode:
  assumes key: "safe_key primes" and f: "0 < f" "f \<le> 16384"
    and buf: "length buf < f" "\<forall>c \<in> set buf. is_scalar c"
    and sofar: "\<forall>c \<in> set (delivered @ p). is_scalar c"
    and pend: "pending = None \<and> delivered = [] \<and> p = [] \<or> pending = Some p \<and> length p = f"
    and n: "n = length delivered + length p + length buf" "n < 2 ^ 64"
    and idx: "buf = [] \<or> idx + 1 < 2 ^ 32"
  shows "\<exists>last count sentinel. stream_flush H primes kb nonce aad f buf idx = Ok (last, count)
     \<and> stream_sentinel H kb nonce aad f n count = Ok sentinel
     \<and> stream_frames H primes kb nonce aad f (last @ sentinel) idx delivered pending
         = Ok (delivered @ p @ buf)"
proof (cases "buf = []")
  case True
  obtain sentinel where s: "stream_sentinel H kb nonce aad f n idx = Ok sentinel"
    by (simp add: stream_sentinel_Ok)
  have "stream_frames H primes kb nonce aad f sentinel idx delivered pending
      = Ok (take n (delivered @ (case pending of None \<Rightarrow> [] | Some p \<Rightarrow> p)))"
    using pend sofar n f True by (intro stream_frames_sentinel [OF s n(2)]) auto
  moreover have "stream_flush H primes kb nonce aad f buf idx = Ok ([], idx)"
    using True by (simp add: stream_flush_def)
  ultimately show ?thesis using s pend n(1) True by auto
next
  case False
  define cps where "cps = buf @ stream_filler H kb nonce idx (f - length buf)"
  have cps: "length cps = f" "\<forall>c \<in> set cps. is_scalar c"
    using buf by (auto simp: cps_def stream_filler_def filler_scalar)
  obtain frame where frame: "emit_stream_v8_chunk H cps idx primes kb nonce aad = Ok frame"
    using emit_chunk_Ok [OF key cps(2,1) f(2)] by metis
  obtain sentinel where s: "stream_sentinel H kb nonce aad f n (idx + 1) = Ok sentinel"
    by (simp add: stream_sentinel_Ok)
  have idx': "idx + 1 < 2 ^ 32" using idx False by blast
  have "stream_flush H primes kb nonce aad f buf idx = Ok (frame, idx + 1)"
    using False idx' frame
    by (simp add: stream_flush_def next_stream_chunk_idx_def stream_last_chunk_def flip: cps_def)
  moreover have "stream_frames H primes kb nonce aad f sentinel (idx + 1) (delivered @ p) (Some cps)
      = Ok (take n ((delivered @ p) @ (case Some cps of None \<Rightarrow> [] | Some p \<Rightarrow> p)))"
    using sofar cps n(1) buf(1) False
    by (intro stream_frames_sentinel [OF s n(2)]) auto
  moreover have "take n ((delivered @ p) @ cps) = delivered @ p @ buf"
    using n(1) by (simp add: cps_def)
  moreover have "(case pending of None \<Rightarrow> [] | Some p \<Rightarrow> p) = p" using pend by auto
  ultimately show ?thesis
    using stream_frames_chunk [OF key cps(2,1) f idx' frame, of sentinel delivered pending] s by auto
qed

lemma stream_chars_decode:
  assumes key: "safe_key primes" and f: "0 < f" "f \<le> 16384"
  shows "length buf < f \<Longrightarrow> \<forall>c \<in> set (delivered @ p @ buf @ chs). is_scalar c \<Longrightarrow>
     pending = None \<and> delivered = [] \<and> p = [] \<or> pending = Some p \<and> length p = f \<Longrightarrow>
     n = length delivered + length p + length buf \<Longrightarrow> n = f * idx + length buf \<Longrightarrow>
     n + length chs \<le> f * (2 ^ 32 - 1) \<Longrightarrow>
     \<exists>frames buf' n' idx' last count sentinel.
       stream_chars H primes kb nonce aad f chs buf n idx = Ok (frames, buf', n', idx')
     \<and> stream_flush H primes kb nonce aad f buf' idx' = Ok (last, count)
     \<and> stream_sentinel H kb nonce aad f n' count = Ok sentinel
     \<and> stream_frames H primes kb nonce aad f (frames @ last @ sentinel) idx delivered pending
         = Ok (delivered @ p @ buf @ chs)"
proof (induction chs arbitrary: buf n idx delivered p pending)
  case Nil
  have "n \<le> 16384 * (2 ^ 32 - 1)"
    using Nil.prems(6) f(2) by (simp add: mult_le_mono1 order_trans)
  then have n: "n < 2 ^ 64" by simp
  have "idx + 1 < 2 ^ 32" if "buf \<noteq> []"
  proof -
    have "0 < length buf" using that by simp
    then have "f * idx < f * (2 ^ 32 - 1)" using Nil.prems(5,6) by linarith
    then show ?thesis by (rule chunk_index_bound)
  qed
  then have "\<exists>last count sentinel. stream_flush H primes kb nonce aad f buf idx = Ok (last, count)
     \<and> stream_sentinel H kb nonce aad f n count = Ok sentinel
     \<and> stream_frames H primes kb nonce aad f (last @ sentinel) idx delivered pending
         = Ok (delivered @ p @ buf)"
    using Nil.prems n by (intro stream_flush_decode [OF key f]) auto
  then show ?case by auto
next
  case (Cons ch chs)
  let ?buf = "buf @ [ch]"
  have "n + 1 \<le> 16384 * (2 ^ 32 - 1)"
    using Cons.prems(6) f(2) by (intro order_trans [OF _ mult_le_mono1 [OF f(2)]]) simp
  then have add: "add_u64 n 1 = (Ok (n + 1) :: (nat, error) res)" by (simp add: add_u64_def u64_limit_def)
  show ?case
  proof (cases "f \<le> length ?buf")
    case True
    then have len: "length ?buf = f" using Cons.prems(1) by simp
    have "f * idx < f * (2 ^ 32 - 1)"
      using Cons.prems(5,6) unfolding list.size(4) by linarith
    then have idx: "idx + 1 < 2 ^ 32" by (rule chunk_index_bound)
    have sc: "\<forall>c \<in> set ?buf. is_scalar c" using Cons.prems(2) by auto
    obtain frame where frame: "emit_stream_v8_chunk H ?buf idx primes kb nonce aad = Ok frame"
      using emit_chunk_Ok [OF key sc len f(2)] by metis
    have "\<exists>frames buf' n' idx' last count sentinel.
       stream_chars H primes kb nonce aad f chs [] (n + 1) (idx + 1) = Ok (frames, buf', n', idx')
     \<and> stream_flush H primes kb nonce aad f buf' idx' = Ok (last, count)
     \<and> stream_sentinel H kb nonce aad f n' count = Ok sentinel
     \<and> stream_frames H primes kb nonce aad f (frames @ last @ sentinel) (idx + 1) (delivered @ p) (Some ?buf)
         = Ok ((delivered @ p) @ ?buf @ [] @ chs)"
      using Cons.prems f(1) len by (intro Cons.IH) (auto simp: algebra_simps)
    then obtain frames buf' n' idx' last count sentinel where IH:
       "stream_chars H primes kb nonce aad f chs [] (n + 1) (idx + 1) = Ok (frames, buf', n', idx')"
       "stream_flush H primes kb nonce aad f buf' idx' = Ok (last, count)"
       "stream_sentinel H kb nonce aad f n' count = Ok sentinel"
       "stream_frames H primes kb nonce aad f (frames @ last @ sentinel) (idx + 1) (delivered @ p) (Some ?buf)
         = Ok ((delivered @ p) @ ?buf @ [] @ chs)" by blast
    have "stream_chars H primes kb nonce aad f (ch # chs) buf n idx = Ok (frame @ frames, buf', n', idx')"
      using True len frame IH(1) add idx by (simp add: Let_def next_stream_chunk_idx_def)
    moreover have "(case pending of None \<Rightarrow> [] | Some p \<Rightarrow> p) = p" using Cons.prems(3) by auto
    ultimately show ?thesis
      using IH stream_frames_chunk [OF key sc len f idx frame, of "frames @ last @ sentinel" delivered pending]
      by auto
  next
    case False
    have "\<exists>frames buf' n' idx' last count sentinel.
       stream_chars H primes kb nonce aad f chs ?buf (n + 1) idx = Ok (frames, buf', n', idx')
     \<and> stream_flush H primes kb nonce aad f buf' idx' = Ok (last, count)
     \<and> stream_sentinel H kb nonce aad f n' count = Ok sentinel
     \<and> stream_frames H primes kb nonce aad f (frames @ last @ sentinel) idx delivered pending
         = Ok (delivered @ p @ ?buf @ chs)"
      using Cons.prems False by (intro Cons.IH) auto
    then show ?thesis using False add by (auto simp: Let_def)
  qed
qed

lemma stream_round_trip_inner:
  assumes "safe_key primes" "0 < f" "f \<le> 16384" "length nonce = 16"
    and "\<forall>c \<in> set s. is_scalar c" "length s \<le> f * (2 ^ 32 - 1)"
  shows "\<exists>stream. encrypt_stream_ae_v8_inner H s primes kb nonce aad f = Ok stream
     \<and> decrypt_stream_ae_v8_inner H stream primes kb aad = Ok s"
proof -
  obtain frames buf' n' idx' last count sentinel where enc:
       "stream_chars H primes kb nonce aad f s [] 0 0 = Ok (frames, buf', n', idx')"
       "stream_flush H primes kb nonce aad f buf' idx' = Ok (last, count)"
       "stream_sentinel H kb nonce aad f n' count = Ok sentinel"
       "stream_frames H primes kb nonce aad f (frames @ last @ sentinel) 0 [] None = Ok s"
    using stream_chars_decode [OF assms(1-3), where buf = "[]" and delivered = "[]" and p = "[]" and
        pending = None and n = 0 and idx = 0 and chs = s and H = H and kb = kb and nonce = nonce and aad = aad]
      assms by auto
  let ?stream = "stream_v8_header f nonce @ frames @ last @ sentinel"
  have "encrypt_stream_ae_v8_inner H s primes kb nonce aad f = Ok ?stream"
    using enc by (simp add: encrypt_stream_ae_v8_inner_def)
  moreover have "decrypt_stream_ae_v8_inner H ?stream primes kb aad = Ok s"
    using enc(4) assms(2-4) by (simp add: decrypt_stream_ae_v8_inner_def stream_v8_header_def Let_def)
  ultimately show ?thesis by blast
qed

section \<open>Decryption does not panic\<close>

lemma open_stream_chunk_not_Panic:
  assumes "safe_key primes" "length masked \<le> 160 * 16384"
  shows "open_stream_chunk H primes kb nonce aad f idx masked tag \<noteq> Panic"
proof -
  have "varint_keystream H kb sn (length masked) = Ok (keystream_spec H kb sn (length masked))" for sn
    using assms(2) by (intro varint_keystream_Ok) simp
  then show ?thesis
    by (simp add: open_stream_chunk_def compute_chunk_tag next_stream_chunk_idx_def Let_def
        fixed_decode_not_Panic decrypt_v8_stream_chunk_core_def recover_loop_not_Panic [OF assms(1)])
qed

lemma stream_finish_not_Panic: "stream_finish H kb nonce aad f rest idx delivered pending \<noteq> Panic"
  by (simp add: stream_finish_def compute_sentinel_tag Let_def to_text_not_Panic)

lemma stream_frames_not_Panic:
  assumes "safe_key primes" "f \<le> 16384"
  shows "stream_frames H primes kb nonce aad f rest idx delivered pending \<noteq> Panic"
proof (induction "length rest" arbitrary: rest idx delivered pending rule: less_induct)
  case less
  have *: "open_stream_chunk H primes kb nonce aad f idx (take (160 * f) d) tag \<noteq> Panic" for d tag
    using assms(2) by (intro open_stream_chunk_not_Panic [OF assms(1)]) simp
  show ?case
    by (subst stream_frames.simps)
      (use * less in \<open>auto simp: Let_def stream_finish_not_Panic\<close>)
qed

lemma decrypt_stream_inner_not_Panic:
  "safe_key primes \<Longrightarrow> decrypt_stream_ae_v8_inner H stream primes kb aad \<noteq> Panic"
  by (simp add: decrypt_stream_ae_v8_inner_def Let_def stream_frames_not_Panic)


text \<open>The length of a stream that the encryptor returns.\<close>

lemma stream_chars_length:
  assumes key: "safe_key primes" and f: "0 < f" "f \<le> 16384"
  shows "stream_chars H primes kb nonce aad f chs buf n idx = Ok (frames, buf', n', idx') \<Longrightarrow> length buf < f \<Longrightarrow>
     \<forall>c \<in> set (buf @ chs). is_scalar c \<Longrightarrow>
     length frames \<le> length chs * (36 + 160 * f) \<and> length buf' < f \<and> (\<forall>c \<in> set buf'. is_scalar c)"
proof (induction chs arbitrary: buf n idx frames)
  case (Cons ch chs)
  let ?buf = "buf @ [ch]"
  show ?case
  proof (cases "f \<le> length ?buf")
    case True
    then have len: "length ?buf = f" using Cons.prems(2) by simp
    have sc: "\<forall>c \<in> set ?buf. is_scalar c" using Cons.prems(3) by simp
    obtain masked where m: "emit_stream_v8_chunk H ?buf idx primes kb nonce aad
        = Ok (be_bytes 4 (160 * f) @ masked @ hmac_digest H kb (chunk_tag_input f nonce idx aad masked))"
      "length masked = 160 * f"
      using emit_chunk_Ok [OF key sc len f(2)] by metis
    from Cons.prems(1) True len m(1) obtain frames' where fr:
        "stream_chars H primes kb nonce aad f chs [] (n + 1) (idx + 1) = Ok (frames', buf', n', idx')"
        "length frames = 36 + 160 * f + length frames'"
      by (auto simp: Let_def add_u64_def next_stream_chunk_idx_def m(2) split: if_splits)
    from Cons.IH [OF fr(1)] f(1) Cons.prems(3) fr(2) show ?thesis by simp
  next
    case False
    then have "stream_chars H primes kb nonce aad f chs ?buf (n + 1) idx = Ok (frames, buf', n', idx')"
      using Cons.prems(1) by (auto simp: Let_def add_u64_def split: if_splits)
    from Cons.IH [OF this] False Cons.prems(3) show ?thesis by simp
  qed
qed auto

lemma stream_length:
  assumes key: "safe_key primes" and f: "0 < f" "f \<le> 16384" and nonce: "length nonce = 16"
    and s: "\<forall>c \<in> set s. is_scalar c" and enc: "encrypt_stream_ae_v8_inner H s primes kb nonce aad f = Ok stream"
  shows "65 \<le> length stream" "length stream \<le> 65 + (length s + 1) * (36 + 160 * f)"
proof -
  from enc obtain frames buf n idx last count sentinel where e:
      "stream_chars H primes kb nonce aad f s [] 0 0 = Ok (frames, buf, n, idx)"
      "stream_flush H primes kb nonce aad f buf idx = Ok (last, count)"
      "stream_sentinel H kb nonce aad f n count = Ok sentinel"
      "stream = stream_v8_header f nonce @ frames @ last @ sentinel"
    by (auto simp: encrypt_stream_ae_v8_inner_def)
  have fr: "length frames \<le> length s * (36 + 160 * f)" "length buf < f" "\<forall>c \<in> set buf. is_scalar c"
    using stream_chars_length [OF key f e(1)] f s by auto
  define cps where "cps = buf @ stream_filler H kb nonce idx (f - length buf)"
  have cps: "length cps = f" "\<forall>c \<in> set cps. is_scalar c"
    using fr by (auto simp: cps_def stream_filler_def filler_scalar)
  obtain masked where "emit_stream_v8_chunk H cps idx primes kb nonce aad
        = Ok (be_bytes 4 (160 * f) @ masked @ hmac_digest H kb (chunk_tag_input f nonce idx aad masked))"
      "length masked = 160 * f"
    using emit_chunk_Ok [OF key cps(2,1) f(2)] by metis
  then have "length last \<le> 36 + 160 * f"
    using e(2) by (auto simp: stream_flush_def stream_last_chunk_def next_stream_chunk_idx_def
        simp flip: cps_def split: if_splits)
  moreover have "length sentinel = 44" using e(3) by (auto simp: stream_sentinel_Ok)
  moreover have "length (stream_v8_header f nonce) = 21" using nonce by (simp add: stream_v8_header_def)
  ultimately show "65 \<le> length stream" "length stream \<le> 65 + (length s + 1) * (36 + 160 * f)"
    using fr(1) e(4) by simp_all
qed

section \<open>The incremental encryptor\<close>

text \<open>A client that pushes every codepoint and collects the frames, then finishes.\<close>

fun push_all :: "mac \<Rightarrow> module_state \<Rightarrow> StreamV8Encryptor \<Rightarrow> str \<Rightarrow> (bytes \<times> StreamV8Encryptor, error) res" where
  "push_all H m st [] = Ok ([], st)"
| "push_all H m st (ch # chs) =
     (case stream_enc_push H m st ch of
        (Ok out, st') \<Rightarrow>
           res_bind (push_all H m st' chs) (\<lambda>(frames, st'').
             Ok ((case out of None \<Rightarrow> [] | Some frame \<Rightarrow> frame) @ frames, st''))
      | (Err e, st') \<Rightarrow> Err e
      | (Panic, st') \<Rightarrow> Panic)"

definition push_stream :: "mac \<Rightarrow> module_state \<Rightarrow> StreamV8Encryptor \<Rightarrow> str \<Rightarrow> (bytes, error) res" where
  "push_stream H m st chs =
     res_bind (push_all H m st chs) (\<lambda>(frames, st').
     res_bind (stream_enc_finish H m st') (\<lambda>last. Ok (frames @ last)))"

lemma push_all_stream_chars:
  assumes m: "fips_check m = Ok ()"
  shows "\<not> se_finished st \<Longrightarrow> 0 < se_f st \<Longrightarrow> length (se_cp_buf st) < se_f st \<Longrightarrow>
    se_f st * se_chunk_idx st + length (se_cp_buf st) + length chs \<le> se_f st * (2 ^ 32 - 1) \<Longrightarrow>
    push_all H m st chs =
      res_bind (stream_chars H (se_primes st) (se_sk_fmt st) (se_nonce st) (se_aad st) (se_f st) chs
                  (se_cp_buf st) (se_total_real_cps st) (se_chunk_idx st))
        (\<lambda>(frames, buf, n, idx).
           Ok (frames, st\<lparr>se_cp_buf := buf, se_total_real_cps := n, se_chunk_idx := idx\<rparr>))"
proof (induction chs arbitrary: st)
  case (Cons ch chs)
  let ?buf = "se_cp_buf st @ [ch]"
  have "se_f st * se_chunk_idx st < se_f st * (2 ^ 32 - 1)"
    using Cons.prems(4) unfolding list.size(4) by linarith
  then have idx: "se_chunk_idx st + 1 < 2 ^ 32" by (rule chunk_index_bound)
  then have ne: "se_chunk_idx st \<noteq> 2 ^ 32 - 1" by simp
  show ?case
  proof (cases "add_u64 (se_total_real_cps st) 1 :: (nat, error) res")
    case (Ok n)
    show ?thesis
    proof (cases "se_f st \<le> length ?buf")
      case False
      let ?st = "st\<lparr>se_cp_buf := ?buf, se_total_real_cps := n\<rparr>"
      have "stream_enc_push H m st ch = (Ok None, ?st)"
        using False Ok m ne Cons.prems(1) by (simp add: stream_enc_push_def Let_def)
      then show ?thesis using Cons.IH [of ?st] Cons.prems False Ok by (simp add: Let_def)
    next
      case True
      then have len: "length ?buf = se_f st" using Cons.prems(3) by simp
      let ?frame = "emit_stream_v8_chunk H ?buf (se_chunk_idx st) (se_primes st) (se_sk_fmt st)
          (se_nonce st) (se_aad st)"
      let ?st = "st\<lparr>se_cp_buf := [], se_total_real_cps := n, se_chunk_idx := se_chunk_idx st + 1\<rparr>"
      have step: "stream_enc_push H m st ch =
          (case ?frame of Ok frame \<Rightarrow> (Ok (Some frame), ?st)
             | Err e \<Rightarrow> (Err e, st\<lparr>se_cp_buf := ?buf, se_total_real_cps := n\<rparr>)
             | Panic \<Rightarrow> (Panic, st\<lparr>se_cp_buf := ?buf, se_total_real_cps := n\<rparr>))"
        using True len Ok m ne Cons.prems(1)
        by (cases ?frame) (simp_all add: stream_enc_push_def Let_def zeroize_codepoints_def)
      have IH: "push_all H m ?st chs =
          res_bind (stream_chars H (se_primes st) (se_sk_fmt st) (se_nonce st) (se_aad st) (se_f st) chs
                      [] n (se_chunk_idx st + 1))
            (\<lambda>(frames, buf, k, i).
               Ok (frames, st\<lparr>se_cp_buf := buf, se_total_real_cps := k, se_chunk_idx := i\<rparr>))"
        using Cons.IH [of ?st] Cons.prems len by (simp add: algebra_simps)
      show ?thesis
      proof (cases ?frame)
        case (Ok frame)
        with step IH True len idx \<open>add_u64 (se_total_real_cps st) 1 = Ok n\<close> show ?thesis
          by (cases "stream_chars H (se_primes st) (se_sk_fmt st) (se_nonce st) (se_aad st) (se_f st) chs
                      [] n (se_chunk_idx st + 1)")
            (auto simp: Let_def next_stream_chunk_idx_def split: prod.splits)
      qed (use step True len idx \<open>add_u64 (se_total_real_cps st) 1 = Ok n\<close>
           in \<open>simp_all add: Let_def next_stream_chunk_idx_def\<close>)
    qed
  qed (use m ne Cons.prems(1) in \<open>simp_all add: stream_enc_push_def Let_def\<close>)
qed simp

lemma stream_chars_count:
  "stream_chars H primes kb nonce aad f chs buf n idx = Ok (frames, buf', n', idx') \<Longrightarrow>
   length buf < f \<Longrightarrow>
   f * idx' + length buf' = f * idx + length buf + length chs \<and> length buf' < f"
proof (induction chs arbitrary: buf n idx frames)
  case (Cons ch chs)
  show ?case
  proof (cases "f \<le> length (buf @ [ch])")
    case True
    then have len: "Suc (length buf) = f" using Cons.prems(2) by simp
    from True Cons.prems(1) obtain k out where
      "stream_chars H primes kb nonce aad f chs (drop f (buf @ [ch])) k (idx + 1) = Ok (out, buf', n', idx')"
      by (auto simp: Let_def next_stream_chunk_idx_def split: if_splits)
    from Cons.IH [OF this] show ?thesis using len by (auto simp: algebra_simps)
  next
    case False
    with Cons.prems(1) obtain k where
      "stream_chars H primes kb nonce aad f chs (buf @ [ch]) k idx = Ok (frames, buf', n', idx')"
      by (auto simp: Let_def)
    from Cons.IH [OF this] show ?thesis using False by auto
  qed
qed simp

lemma push_stream_inner:
  assumes m: "fips_check m = Ok ()" and f: "0 < se_f st"
    and fresh: "\<not> se_finished st" "se_cp_buf st = []" "se_total_real_cps st = 0" "se_chunk_idx st = 0"
    and len: "length chs \<le> se_f st * (2 ^ 32 - 1)"
  shows "encrypt_stream_ae_v8_inner H chs (se_primes st) (se_sk_fmt st) (se_nonce st) (se_aad st) (se_f st)
       = res_bind (push_stream H m st chs) (\<lambda>out. Ok (stream_v8_header (se_f st) (se_nonce st) @ out))"
proof (cases "stream_chars H (se_primes st) (se_sk_fmt st) (se_nonce st) (se_aad st) (se_f st) chs [] 0 0")
  case (Ok r)
  obtain frames buf n idx where r: "r = (frames, buf, n, idx)" by (metis prod.exhaust)
  let ?st = "st\<lparr>se_cp_buf := buf, se_total_real_cps := n, se_chunk_idx := idx\<rparr>"
  have push: "push_all H m st chs = Ok (frames, ?st)"
    using push_all_stream_chars [OF m, of st chs H] fresh f len Ok r by simp
  have count: "se_f st * idx + length buf = length chs"
    using stream_chars_count [OF Ok [unfolded r]] f by simp
  have "idx + 1 < 2 ^ 32" if "buf \<noteq> []"
  proof -
    have "0 < length buf" using that by simp
    then have "se_f st * idx < se_f st * (2 ^ 32 - 1)" using count len by linarith
    then show ?thesis by (rule chunk_index_bound)
  qed
  then have "stream_flush H (se_primes st) (se_sk_fmt st) (se_nonce st) (se_aad st) (se_f st) buf idx
     = (if buf = [] then Ok ([], idx)
        else res_bind (stream_last_chunk H (se_primes st) (se_sk_fmt st) (se_nonce st) (se_aad st) (se_f st) buf idx)
          (\<lambda>frame. if idx + 1 < 2 ^ 32 then Ok (frame, idx + 1) else Panic))"
    by (auto simp: stream_flush_def next_stream_chunk_idx_def)
  then show ?thesis
    using push fresh(1) m Ok r
    by (cases "stream_last_chunk H (se_primes st) (se_sk_fmt st) (se_nonce st) (se_aad st) (se_f st) buf idx")
      (simp_all add: encrypt_stream_ae_v8_inner_def push_stream_def stream_enc_finish_def res_bind_assoc)
next
  case (Err e)
  then have "push_all H m st chs = Err e"
    using push_all_stream_chars [OF m, of st chs H] fresh f len by simp
  then show ?thesis using Err by (simp add: encrypt_stream_ae_v8_inner_def push_stream_def)
next
  case Panic
  then have "push_all H m st chs = Panic"
    using push_all_stream_chars [OF m, of st chs H] fresh f len by simp
  then show ?thesis using Panic by (simp add: encrypt_stream_ae_v8_inner_def push_stream_def)
qed

section \<open>What an accepted stream is\<close>

text \<open>The frames of the masked chunks, numbered from \<open>idx\<close>, each with its tag.\<close>

fun tagged_frames :: "mac \<Rightarrow> bytes \<Rightarrow> bytes \<Rightarrow> bytes \<Rightarrow> nat \<Rightarrow> nat \<Rightarrow> bytes list \<Rightarrow> bytes" where
  "tagged_frames H kb nonce aad f idx [] = []"
| "tagged_frames H kb nonce aad f idx (masked # ms) =
     be_bytes 4 (160 * f) @ masked @ hmac_digest H kb (chunk_tag_input f nonce idx aad masked)
       @ tagged_frames H kb nonce aad f (idx + 1) ms"

definition tagged_sentinel :: "mac \<Rightarrow> bytes \<Rightarrow> bytes \<Rightarrow> bytes \<Rightarrow> nat \<Rightarrow> nat \<Rightarrow> nat \<Rightarrow> bytes" where
  "tagged_sentinel H kb nonce aad f count n =
     be_bytes 4 0 @ be_bytes 8 (n XOR stream_v8_count_mask H kb f nonce count)
       @ hmac_digest H kb (sentinel_tag_input f nonce count aad n)"

lemma to_text_id: "to_text s = Ok t \<Longrightarrow> t = s"
  unfolding to_text_def by (induction s arbitrary: t) (auto split: if_splits)

lemma stream_finish_accept:
  assumes "stream_finish H kb nonce aad f body idx delivered pending = Ok s"
  shows "be_bytes 4 0 @ body = tagged_sentinel H kb nonce aad f idx (length s)"
proof -
  define n where "n = u64_from_be8 body XOR stream_v8_count_mask H kb f nonce idx"
  from assms have len: "length body = 40"
      and tag: "take 32 (drop 8 body) = hmac_digest H kb (sentinel_tag_input f nonce idx aad n)"
      and plain: "(case pending of Some p \<Rightarrow> length delivered < n \<and> n \<le> length delivered + length p
                  | None \<Rightarrow> n = length delivered) \<and>
                to_text (case pending of None \<Rightarrow> delivered
                         | Some p \<Rightarrow> delivered @ take (n - length delivered) p) = Ok s"
    by (auto simp: stream_finish_def Let_def compute_sentinel_tag n_def split: if_splits option.splits)
  have "length s = n"
    using plain by (auto dest!: to_text_id split: option.splits)
  moreover have "take 8 body = be_bytes 8 (n XOR stream_v8_count_mask H kb f nonce idx)"
    using len by (simp add: n_def xor_cancel_nat u64_from_be8_def)
  moreover have "body = take 8 body @ take 32 (drop 8 body)" using len by simp
  ultimately show ?thesis using tag by (simp add: tagged_sentinel_def)
qed

lemma open_stream_chunk_accept:
  assumes "open_stream_chunk H primes kb nonce aad f idx masked tag = Ok (next_idx, cps)"
  shows "tag = hmac_digest H kb (chunk_tag_input f nonce idx aad masked)" "next_idx = idx + 1"
  using assms
  by (auto simp: open_stream_chunk_def compute_chunk_tag next_stream_chunk_idx_def Let_def split: if_splits)

lemma stream_frames_Ok_cases:
  assumes "stream_frames H primes kb nonce aad f rest idx delivered pending = Ok s"
  obtains (sentinel) "4 \<le> length rest" "be_val (take 4 rest) = 0"
      "stream_finish H kb nonce aad f (drop 4 rest) idx delivered pending = Ok s"
    | (chunk) next_idx cps where "4 \<le> length rest" "be_val (take 4 rest) = 160 * f" "f \<noteq> 0"
      "160 * f + 32 \<le> length (drop 4 rest)"
      "open_stream_chunk H primes kb nonce aad f idx (take (160 * f) (drop 4 rest))
         (take 32 (drop (160 * f) (drop 4 rest))) = Ok (next_idx, cps)"
      "stream_frames H primes kb nonce aad f (drop (160 * f + 32) (drop 4 rest)) next_idx
         (delivered @ (case pending of None \<Rightarrow> [] | Some p \<Rightarrow> p)) (Some cps) = Ok s"
  using assms sentinel chunk
  by (subst (asm) stream_frames.simps) (auto simp: Let_def not_less mult.commute split: if_splits)

lemma stream_frames_accept:
  assumes "stream_frames H primes kb nonce aad f rest idx delivered pending = Ok s"
  shows "\<exists>ms. rest = tagged_frames H kb nonce aad f idx ms
                  @ tagged_sentinel H kb nonce aad f (idx + length ms) (length s)
       \<and> (\<forall>masked \<in> set ms. length masked = 160 * f)"
  using assms
proof (induction "length rest" arbitrary: rest idx delivered pending rule: less_induct)
  case less
  from less.prems show ?case
  proof (cases rule: stream_frames_Ok_cases)
    case sentinel
    then have "be_bytes 4 0 = take 4 rest" using be_bytes_be_val [of "take 4 rest" 4] by simp
    with stream_finish_accept [OF sentinel(3)]
    have "rest = tagged_sentinel H kb nonce aad f idx (length s)" by (metis append_take_drop_id)
    then show ?thesis by (intro exI [of _ "[]"]) simp
  next
    case (chunk next_idx cps)
    let ?body = "drop 4 rest"
    let ?m = "take (160 * f) ?body"
    have hd: "take 4 rest = be_bytes 4 (160 * f)"
      using be_bytes_be_val [of "take 4 rest" 4] chunk(1,2) by simp
    note acc = open_stream_chunk_accept [OF chunk(5)]
    have "length (drop (160 * f + 32) ?body) < length rest" using chunk(1) by simp
    from less.hyps [OF this chunk(6)] acc(2) obtain ms where
      ms: "drop (160 * f + 32) ?body = tagged_frames H kb nonce aad f (idx + 1) ms
                  @ tagged_sentinel H kb nonce aad f (idx + 1 + length ms) (length s)"
       "\<forall>masked \<in> set ms. length masked = 160 * f" by blast
    have "tagged_frames H kb nonce aad f idx (?m # ms)
        @ tagged_sentinel H kb nonce aad f (idx + length (?m # ms)) (length s)
        = take 4 rest @ ?m @ take 32 (drop (160 * f) ?body) @ drop (160 * f + 32) ?body"
      unfolding hd ms(1) acc(1) by simp
    also have "\<dots> = rest"
      by (rule take_drop_parts)
    finally have "rest = tagged_frames H kb nonce aad f idx (?m # ms)
        @ tagged_sentinel H kb nonce aad f (idx + length (?m # ms)) (length s)" by (rule sym)
    moreover have "length ?m = 160 * f" using chunk(4) by simp
    ultimately show ?thesis using ms(2) by (intro exI [of _ "?m # ms"]) auto
  qed
qed

section \<open>Properties\<close>

lemma encrypt_stream_drawn:
  assumes "fips_check m = Ok ()" "prev_nonce m \<noteq> Some nonce"
  shows "fst (encrypt_stream_ae_v8 H nonce m s primes sk aad f) =
     encrypt_stream_ae_v8_with_nonce H s primes sk nonce aad f"
  by (cases rule: crng_cases [of m nonce])
    (use assms in \<open>simp_all add: encrypt_stream_ae_v8_def with_nonce_def\<close>)

text \<open>
  C2: stream round trip. Every text of at most \<open>F * (2^32 - 1)\<close> codepoints (the range of
  the chunk index) encrypts, and decrypting the stream returns the text, with the filler of
  the last chunk removed.
\<close>

theorem stream_round_trip:
  assumes "fips_check m = Ok ()" "prev_nonce m \<noteq> Some nonce" "length nonce = 16"
    and "validate_key primes = Ok ()" "validate_stream_v8_frame f = Ok ()"
    and "list_all is_scalar s" "length s \<le> f * (2 ^ 32 - 1)"
  shows "\<exists>stream. fst (encrypt_stream_ae_v8 H nonce m s primes sk aad f) = Ok stream \<and>
     decrypt_stream_ae_v8 H m stream primes sk aad = Ok s"
proof -
  have f: "0 < f" "f \<le> 16384" using assms(5) by (auto simp: validate_stream_v8_frame_def split: if_splits)
  have "safe_key primes" using assms(4) by (simp add: validate_key_Ok_iff valid_key_safe)
  from stream_round_trip_inner [OF this f assms(3) _ assms(7), of H _ aad] assms(6)
  show ?thesis
    using assms(1,4,5) by (simp add: encrypt_stream_drawn [OF assms(1,2)] encrypt_stream_ae_v8_with_nonce_def
        decrypt_stream_ae_v8_def list_all_iff)
qed

theorem stream_round_trip_witness:
  "\<exists>stream. fst (encrypt_stream_ae_v8 (\<lambda>_ _. 0) (replicate 16 1) open_module [72, 105, 33] sample_key [] [9] 2) = Ok stream \<and>
     decrypt_stream_ae_v8 (\<lambda>_ _. 0) open_module stream sample_key [] [9] = Ok [72, 105, 33]"
  by (rule stream_round_trip)
    (simp_all add: validate_sample_key validate_stream_v8_frame_def is_scalar_def open_module_def fips_check_def)

text \<open>
  C7: the incremental encryptor and the all-at-once encryptor agree. Creating a
  \<open>StreamV8Encryptor\<close>, pushing the characters one by one and finishing yields the bytes,
  or the error, that \<open>encrypt_stream_ae_v8\<close> yields for the same draw.
\<close>

theorem incremental_equals_all_at_once:
  assumes "fips_check m = Ok ()" "prev_nonce m \<noteq> Some nonce" "length s \<le> f * (2 ^ 32 - 1)"
  shows "res_bind (fst (stream_enc_new H nonce m primes sk aad f)) (\<lambda>(st, header).
           res_bind (push_stream H m st s) (\<lambda>out. Ok (header @ out)))
       = fst (encrypt_stream_ae_v8 H nonce m s primes sk aad f)"
proof (cases "validate_key primes = Ok () \<and> validate_stream_v8_frame f = Ok ()")
  case True
  then have f: "0 < f" by (auto simp: validate_stream_v8_frame_def split: if_splits)
  let ?st = "\<lparr>se_primes = primes, se_sk_fmt = derive_format_subkey H sk FORMAT_STREAM_AE_V8,
      se_aad = aad, se_nonce = nonce, se_f = f, se_chunk_idx = 0, se_total_real_cps = 0,
      se_cp_buf = [], se_finished = False\<rparr>"
  have "fst (stream_enc_new H nonce m primes sk aad f) = Ok (?st, stream_v8_header f nonce)"
    by (cases rule: crng_cases [of m nonce])
      (use True assms in \<open>simp_all add: stream_enc_new_def stream_enc_new_validated_def with_nonce_def
        stream_v8_header_def\<close>)
  with push_stream_inner [OF assms(1), of ?st s H] f assms(3) True show ?thesis
    by (simp add: encrypt_stream_drawn [OF assms(1,2)] encrypt_stream_ae_v8_with_nonce_def)
next
  case False
  then show ?thesis
    using validate_key_not_Panic [of primes]
    by (cases "validate_key primes"; cases "validate_stream_v8_frame f")
      (simp_all add: encrypt_stream_drawn [OF assms(1,2)] encrypt_stream_ae_v8_with_nonce_def
        stream_enc_new_def stream_enc_new_validated_def assms(1))
qed

theorem incremental_equals_all_at_once_witness:
  "res_bind (fst (stream_enc_new (\<lambda>_ _. 0) (replicate 16 1) open_module sample_key [] [] 2)) (\<lambda>(st, header).
     res_bind (push_stream (\<lambda>_ _. 0) open_module st [72, 105, 33]) (\<lambda>out. Ok (header @ out)))
   = fst (encrypt_stream_ae_v8 (\<lambda>_ _. 0) (replicate 16 1) open_module [72, 105, 33] sample_key [] [] 2)"
  by (rule incremental_equals_all_at_once) (simp_all add: open_module_def fips_check_def)

text \<open>
  C15: what an accepted stream is. A stream that decrypts to a text consists of a header with
  a legal frame size, chunks of exactly the size the header fixes, each with the HMAC of
  header, its own index and its bytes, and a sentinel whose tag covers the number of chunks
  and the number of codepoints returned; nothing follows it. Chunks can thus not be dropped,
  repeated, reordered or appended without a new tag.
\<close>

theorem accepted_stream_structure:
  assumes "decrypt_stream_ae_v8 H m stream primes sk aad = Ok s"
  shows "\<exists>f nonce ms. 1 \<le> f \<and> f \<le> 16384 \<and> length nonce = 16 \<and> list_all (\<lambda>c. length c = 160 * f) ms \<and>
     stream = stream_v8_header f nonce
       @ tagged_frames H (derive_format_subkey H sk FORMAT_STREAM_AE_V8) nonce aad f 0 ms
       @ tagged_sentinel H (derive_format_subkey H sk FORMAT_STREAM_AE_V8) nonce aad f (length ms) (length s)"
proof -
  define kb where "kb = derive_format_subkey H sk FORMAT_STREAM_AE_V8"
  define f where "f = be_val (take 4 (drop 1 stream))"
  define nonce where "nonce = take 16 (drop 5 stream)"
  have f: "1 \<le> f" "f \<le> 16384" and len: "21 \<le> length stream" and hd: "stream ! 0 = FORMAT_STREAM_AE_V8"
    and frames: "stream_frames H primes kb nonce aad f (drop 21 stream) 0 [] None = Ok s"
    using assms by (auto simp: decrypt_stream_ae_v8_def decrypt_stream_ae_v8_inner_def Let_def f_def nonce_def
        kb_def split: if_splits)
  have "stream = take 1 stream @ take 4 (drop 1 stream) @ take 16 (drop 4 (drop 1 stream)) @ drop (4 + 16) (drop 1 stream)"
    by (rule take_drop_parts [symmetric])
  moreover have "take 1 stream = [FORMAT_STREAM_AE_V8]" using len hd by (cases stream) auto
  moreover have "take 4 (drop 1 stream) = be_bytes 4 f" using len by (simp add: f_def)
  ultimately have "stream = stream_v8_header f nonce @ drop 21 stream"
    by (simp add: stream_v8_header_def nonce_def)
  moreover obtain ms where "drop 21 stream = tagged_frames H kb nonce aad f 0 ms
      @ tagged_sentinel H kb nonce aad f (0 + length ms) (length s)" "\<forall>c \<in> set ms. length c = 160 * f"
    using stream_frames_accept [OF frames] by blast
  moreover have "length nonce = 16" using len by (simp add: nonce_def)
  ultimately show ?thesis
    using f by (intro exI [of _ f] exI [of _ nonce] exI [of _ ms]) (simp add: list_all_iff flip: kb_def)
qed

theorem accepted_stream_structure_witness:
  "\<exists>stream f nonce ms. decrypt_stream_ae_v8 (\<lambda>_ _. 0) open_module stream sample_key [] [] = Ok [65] \<and>
     stream = stream_v8_header f nonce
       @ tagged_frames (\<lambda>_ _. 0) (derive_format_subkey (\<lambda>_ _. 0) [] FORMAT_STREAM_AE_V8) nonce [] f 0 ms
       @ tagged_sentinel (\<lambda>_ _. 0) (derive_format_subkey (\<lambda>_ _. 0) [] FORMAT_STREAM_AE_V8) nonce [] f (length ms) 1"
proof -
  have "is_scalar 65" by (simp add: is_scalar_def)
  then obtain stream where
    "decrypt_stream_ae_v8_inner (\<lambda>_ _. 0) stream sample_key (derive_format_subkey (\<lambda>_ _. 0) [] FORMAT_STREAM_AE_V8) [] = Ok [65]"
    using stream_round_trip_inner [OF valid_key_safe [OF valid_sample_key], of 1 "replicate 16 0" "[65]"] by fastforce
  then have "decrypt_stream_ae_v8 (\<lambda>_ _. 0) open_module stream sample_key [] [] = Ok [65]"
    by (simp add: decrypt_stream_ae_v8_def validate_sample_key)
  from accepted_stream_structure [OF this] this show ?thesis by fastforce
qed

end
