(* ===== verification/Utf8.thy ===== *)
theory Utf8
  imports Tokens
begin

text \<open>
  \<open>std::str::from_utf8\<close>, which the fuzz targets and the gateway use: the table of well-formed
  byte sequences, and that the accepted byte strings are exactly the encodings of the strings of
  Unicode scalar values.
\<close>

section \<open>The decoder\<close>

definition is_cont :: "byte \<Rightarrow> bool" where
  "is_cont b \<longleftrightarrow> 0x80 \<le> unat b \<and> unat b \<le> 0xBF"

definition cont_val :: "byte \<Rightarrow> nat" where
  "cont_val b = unat b - 0x80"

text \<open>
  The second byte of a three- or four-byte sequence: \<open>E0\<close> excludes overlong forms, \<open>ED\<close>
  the surrogates, \<open>F0\<close> overlong forms and \<open>F4\<close> the values above \<open>10FFFF\<close>.
\<close>

definition second_ok :: "nat \<Rightarrow> byte \<Rightarrow> bool" where
  "second_ok lead b \<longleftrightarrow> is_cont b \<and>
     (lead = 0xE0 \<longrightarrow> 0xA0 \<le> unat b) \<and> (lead = 0xED \<longrightarrow> unat b \<le> 0x9F) \<and>
     (lead = 0xF0 \<longrightarrow> 0x90 \<le> unat b) \<and> (lead = 0xF4 \<longrightarrow> unat b \<le> 0x8F)"

fun decode_char :: "bytes \<Rightarrow> (nat \<times> bytes) option" where
  "decode_char [] = None"
| "decode_char (b # bs) =
     (let n = unat b in
      if n < 0x80 then Some (n, bs)
      else if 0xC2 \<le> n \<and> n \<le> 0xDF then
        (case bs of
           c1 # rest \<Rightarrow> if is_cont c1 then Some ((n - 0xC0) * 64 + cont_val c1, rest) else None
         | _ \<Rightarrow> None)
      else if 0xE0 \<le> n \<and> n \<le> 0xEF then
        (case bs of
           c1 # c2 # rest \<Rightarrow>
             if second_ok n c1 \<and> is_cont c2
             then Some ((n - 0xE0) * 4096 + cont_val c1 * 64 + cont_val c2, rest) else None
         | _ \<Rightarrow> None)
      else if 0xF0 \<le> n \<and> n \<le> 0xF4 then
        (case bs of
           c1 # c2 # c3 # rest \<Rightarrow>
             if second_ok n c1 \<and> is_cont c2 \<and> is_cont c3
             then Some ((n - 0xF0) * 262144 + cont_val c1 * 4096 + cont_val c2 * 64 + cont_val c3, rest)
             else None
         | _ \<Rightarrow> None)
      else None)"

lemma decode_char_shorter: "decode_char bs = Some (c, rest) \<Longrightarrow> length rest < length bs"
  by (cases bs) (auto simp: Let_def split: if_splits list.splits)

function from_utf8 :: "bytes \<Rightarrow> str option" where
  "from_utf8 bs =
     (if bs = [] then Some []
      else case decode_char bs of
             None \<Rightarrow> None
           | Some (c, rest) \<Rightarrow> map_option (Cons c) (from_utf8 rest))"
  by auto
termination
  by (relation "measure length") (auto dest: decode_char_shorter)

declare from_utf8.simps [simp del]

section \<open>One character\<close>

lemma byte_eqI: "unat b = n \<Longrightarrow> b = of_nat n" for b :: byte
  by (auto simp: word_unat_eq_iff)

lemma unat_small: "n < 256 \<Longrightarrow> unat (of_nat n :: byte) = n"
  by simp

lemma digit_parts:
  "x < 64 \<Longrightarrow> (q * 64 + x) div 64 = q" "x < 64 \<Longrightarrow> (q * 64 + x) mod 64 = x" for x q :: nat
  by simp_all

lemma cont_cases:
  assumes "is_cont b"
  obtains x where "b = of_nat (0x80 + x)" "x < 64" "cont_val b = x" "unat b = 0x80 + x"
proof -
  have "b = of_nat (0x80 + cont_val b)"
    using assms by (intro byte_eqI) (simp add: is_cont_def cont_val_def)
  moreover have "cont_val b < 64" "unat b = 0x80 + cont_val b"
    using assms unfolding is_cont_def cont_val_def by linarith+
  ultimately show thesis using that by blast
qed

lemma decode_char_sound:
  assumes "decode_char bs = Some (c, rest)"
  shows "is_scalar c \<and> bs = utf8_char c @ rest"
proof (cases bs)
  case Nil
  with assms show ?thesis by simp
next
  case (Cons b bs')
  define n where "n = unat b"
  have b: "b = of_nat n" by (rule byte_eqI) (simp add: n_def)
  consider (one) "n < 0x80" | (two) "0xC2 \<le> n" "n \<le> 0xDF" | (three) "0xE0 \<le> n" "n \<le> 0xEF"
    | (four) "0xF0 \<le> n" "n \<le> 0xF4"
    using assms Cons by (auto simp: Let_def n_def split: if_splits)
  then show ?thesis
  proof cases
    case one
    with assms Cons have "c = n" "rest = bs'" by (simp_all add: n_def)
    with Cons one show ?thesis by (simp add: is_scalar_def utf8_char_def flip: b)
  next
    case two
    with assms Cons obtain c1 where c1: "bs' = c1 # rest" "is_cont c1" "c = (n - 0xC0) * 64 + cont_val c1"
      by (auto simp: n_def Let_def split: if_splits list.splits)
    from c1(2) obtain x where x: "c1 = of_nat (0x80 + x)" "x < 64" "cont_val c1 = x" by (rule cont_cases)
    have "c div 64 = n - 0xC0" "c mod 64 = x" using c1(3) x by simp_all
    moreover have "0x80 \<le> c" "c < 0x800" using c1(3) x two by simp_all
    ultimately show ?thesis using Cons b c1(1) x(1) two by (simp add: is_scalar_def utf8_char_def)
  next
    case three
    with assms Cons obtain c1 c2 where c: "bs' = c1 # c2 # rest" "second_ok n c1" "is_cont c2"
        "c = (n - 0xE0) * 4096 + cont_val c1 * 64 + cont_val c2"
      by (auto simp: n_def Let_def split: if_splits list.splits)
    from c(2) have "is_cont c1" by (simp add: second_ok_def)
    then obtain x where x: "c1 = of_nat (0x80 + x)" "x < 64" "cont_val c1 = x" "unat c1 = 0x80 + x"
      by (rule cont_cases)
    from c(3) obtain y where y: "c2 = of_nat (0x80 + y)" "y < 64" "cont_val c2 = y" by (rule cont_cases)
    have c': "c = ((n - 0xE0) * 64 + x) * 64 + y" using c(4) x y by simp
    then have "c div 64 = (n - 0xE0) * 64 + x" "c mod 64 = y" by (simp_all only: digit_parts [OF y(2)])
    moreover have "c div 4096 = c div 64 div 64" by (simp add: div_mult2_eq [symmetric])
    ultimately have "c div 64 mod 64 = x" "c mod 64 = y" "c div 4096 = n - 0xE0"
      by (simp_all only: digit_parts [OF x(2)])
    moreover have lim: "n = 0xE0 \<Longrightarrow> 32 \<le> x" "n = 0xED \<Longrightarrow> x \<le> 31" using c(2) x(4) by (auto simp: second_ok_def)
    have "0x800 \<le> c" using c' lim(1) three by (cases "n = 0xE0") simp_all
    moreover have "c < 0x10000" using c' x(2) y(2) three by simp
    moreover have "\<not> (0xD800 \<le> c \<and> c \<le> 0xDFFF)"
      using c' lim(2) x(2) y(2) three by (cases n "0xED :: nat" rule: linorder_cases) auto
    ultimately show ?thesis using Cons b c(1) x(1) y(1) three by (simp add: is_scalar_def utf8_char_def)
  next
    case four
    with assms Cons obtain c1 c2 c3 where c: "bs' = c1 # c2 # c3 # rest" "second_ok n c1" "is_cont c2" "is_cont c3"
        "c = (n - 0xF0) * 262144 + cont_val c1 * 4096 + cont_val c2 * 64 + cont_val c3"
      by (auto simp: n_def Let_def split: if_splits list.splits)
    from c(2) have "is_cont c1" by (simp add: second_ok_def)
    then obtain x where x: "c1 = of_nat (0x80 + x)" "x < 64" "cont_val c1 = x" "unat c1 = 0x80 + x"
      by (rule cont_cases)
    from c(3) obtain y where y: "c2 = of_nat (0x80 + y)" "y < 64" "cont_val c2 = y" by (rule cont_cases)
    from c(4) obtain z where z: "c3 = of_nat (0x80 + z)" "z < 64" "cont_val c3 = z" by (rule cont_cases)
    have c': "c = (((n - 0xF0) * 64 + x) * 64 + y) * 64 + z" using c(5) x y z by simp
    then have "c div 64 = ((n - 0xF0) * 64 + x) * 64 + y" "c mod 64 = z" by (simp_all only: digit_parts [OF z(2)])
    moreover from this(1) have "c div 64 div 64 = (n - 0xF0) * 64 + x" "c div 64 mod 64 = y"
      by (simp_all only: digit_parts [OF y(2)])
    moreover have "c div 4096 = c div 64 div 64" "c div 262144 = c div 64 div 64 div 64"
      by (simp_all add: div_mult2_eq [symmetric])
    ultimately have "c div 4096 mod 64 = x" "c div 64 mod 64 = y" "c mod 64 = z" "c div 262144 = n - 0xF0"
      by (simp_all only: digit_parts [OF x(2)])
    moreover have lim: "n = 0xF0 \<Longrightarrow> 16 \<le> x" "n = 0xF4 \<Longrightarrow> x \<le> 15" using c(2) x(4) by (auto simp: second_ok_def)
    have "0x10000 \<le> c" using c' lim(1) four by (cases "n = 0xF0") simp_all
    moreover have "c \<le> 0x10FFFF" using c' lim(2) x(2) y(2) z(2) four by (cases "n = 0xF4") simp_all
    ultimately show ?thesis using Cons b c(1) x(1) y(1) z(1) four by (simp add: is_scalar_def utf8_char_def)
  qed
qed

lemma cont_of_nat: "x < 64 \<Longrightarrow> is_cont (of_nat (0x80 + x)) \<and> cont_val (of_nat (0x80 + x)) = x
    \<and> unat (of_nat (0x80 + x) :: byte) = 0x80 + x"
  unfolding is_cont_def cont_val_def unat_of_nat_byte by simp

lemma base64_digits:
  "c = c div 4096 * 4096 + c div 64 mod 64 * 64 + c mod 64"
  "c = c div 262144 * 262144 + c div 4096 mod 64 * 4096 + c div 64 mod 64 * 64 + c mod 64" for c :: nat
proof -
  have d: "c div 4096 = c div 64 div 64" "c div 262144 = c div 64 div 64 div 64"
    by (simp_all add: div_mult2_eq [symmetric])
  have "c = c div 64 * 64 + c mod 64" "c div 64 = c div 64 div 64 * 64 + c div 64 mod 64"
    "c div 64 div 64 = c div 64 div 64 div 64 * 64 + c div 64 div 64 mod 64" by simp_all
  then show "c = c div 4096 * 4096 + c div 64 mod 64 * 64 + c mod 64"
    "c = c div 262144 * 262144 + c div 4096 mod 64 * 4096 + c div 64 mod 64 * 64 + c mod 64"
    unfolding d by linarith+
qed

lemma decode_char_complete:
  assumes "is_scalar c"
  shows "decode_char (utf8_char c @ rest) = Some (c, rest)"
proof -
  have small: "x mod 64 < 64" for x :: nat by simp
  note k = cont_of_nat [OF small]
  consider (one) "c < 0x80" | (two) "0x80 \<le> c" "c < 0x800" | (three) "0x800 \<le> c" "c < 0x10000"
    | (four) "0x10000 \<le> c" "c \<le> 0x10FFFF"
    using assms unfolding is_scalar_def by linarith
  then show ?thesis
  proof cases
    case one
    then show ?thesis by (simp add: utf8_char_def)
  next
    case two
    have u: "unat (of_nat (0xC0 + c div 64) :: byte) = 0xC0 + c div 64"
      using two by (intro unat_small) simp
    have "0xC2 \<le> 0xC0 + c div 64" "0xC0 + c div 64 \<le> 0xDF" using two by simp_all
    moreover have "c div 64 * 64 + c mod 64 = c" by simp
    ultimately show ?thesis using two k [of c] by (simp add: utf8_char_def u Let_def del: of_nat_add)
  next
    case three
    define q x y where "q = c div 4096" and "x = c div 64 mod 64" and "y = c mod 64"
    have c: "c = q * 4096 + x * 64 + y" "x < 64" "y < 64"
      using base64_digits [of c] by (simp_all add: q_def x_def y_def)
    then have "q \<le> 15" using three by simp
    then have q: "q \<le> 15" "unat (of_nat (0xE0 + q) :: byte) = 0xE0 + q" by (simp_all only: unat_small)
    have "q = 0 \<Longrightarrow> 32 \<le> x" "q = 13 \<Longrightarrow> x \<le> 31"
      using c three assms unfolding is_scalar_def by auto
    then have "second_ok (0xE0 + q) (of_nat (0x80 + x))"
      unfolding second_ok_def using cont_of_nat [OF c(2)] q(1) by auto
    with three q cont_of_nat [OF c(2)] cont_of_nat [OF c(3)] show ?thesis
      by (simp add: utf8_char_def Let_def c(1) [symmetric] del: of_nat_add flip: q_def x_def y_def)
  next
    case four
    define q w x y where "q = c div 262144" and "w = c div 4096 mod 64" and "x = c div 64 mod 64" and "y = c mod 64"
    have c: "c = q * 262144 + w * 4096 + x * 64 + y" "w < 64" "x < 64" "y < 64"
      using base64_digits [of c] by (simp_all add: q_def w_def x_def y_def)
    then have "q \<le> 4" using four by simp
    then have q: "q \<le> 4" "unat (of_nat (0xF0 + q) :: byte) = 0xF0 + q" by (simp_all only: unat_small)
    have "q = 0 \<Longrightarrow> 16 \<le> w" "q = 4 \<Longrightarrow> w \<le> 15" using c four by auto
    then have "second_ok (0xF0 + q) (of_nat (0x80 + w))"
      unfolding second_ok_def using cont_of_nat [OF c(2)] q(1) by auto
    with four q cont_of_nat [OF c(2)] cont_of_nat [OF c(3)] cont_of_nat [OF c(4)] show ?thesis
      by (simp add: utf8_char_def Let_def c(1) [symmetric] del: of_nat_add flip: q_def w_def x_def y_def)
  qed
qed

section \<open>Strings\<close>

lemma utf8_char_nonempty [simp]: "utf8_char c \<noteq> []"
  by (simp add: utf8_char_def)

lemma from_utf8_sound: "from_utf8 bs = Some s \<Longrightarrow> list_all is_scalar s \<and> utf8_bytes s = bs"
proof (induction bs arbitrary: s rule: from_utf8.induct)
  case (1 bs)
  show ?case
  proof (cases "bs = []")
    case True
    with 1(2) show ?thesis by (simp add: from_utf8.simps utf8_bytes_def)
  next
    case False
    with 1(2) obtain c rest s' where c: "decode_char bs = Some (c, rest)" "from_utf8 rest = Some s'" "s = c # s'"
      by (subst (asm) from_utf8.simps) (auto split: option.splits)
    from 1(1) [OF False c(1) refl c(2)] decode_char_sound [OF c(1)] c(3)
    show ?thesis by (simp add: utf8_bytes_def)
  qed
qed

lemma from_utf8_utf8_bytes: "list_all is_scalar s \<Longrightarrow> from_utf8 (utf8_bytes s) = Some s"
proof (induction s)
  case (Cons c s)
  then show ?case
    by (subst from_utf8.simps) (simp add: utf8_bytes_def decode_char_complete)
qed (simp add: from_utf8.simps utf8_bytes_def)

lemma length_utf8_char: "0 < length (utf8_char c)"
  by simp

lemma length_utf8_bytes: "length s \<le> length (utf8_bytes s)"
proof (induction s)
  case (Cons c s)
  then show ?case using length_utf8_char [of c] unfolding utf8_bytes_def by (simp del: length_greater_0_conv)
qed simp

lemma from_utf8_length: "from_utf8 bs = Some s \<Longrightarrow> length s \<le> length bs"
  using from_utf8_sound [of bs s] length_utf8_bytes [of s] by auto

text \<open>
  The decoder accepts exactly the encodings of strings of scalar values and returns the string
  encoded: no overlong form, surrogate or truncated sequence is accepted.
\<close>

lemma from_utf8_exact: "from_utf8 bs = Some s \<longleftrightarrow> list_all is_scalar s \<and> utf8_bytes s = bs"
  using from_utf8_sound from_utf8_utf8_bytes by blast

end
