(* ===== verification/Lucas.thy ===== *)
theory Lucas
  imports Primes
begin

text \<open>
  Primality certificates for the larger primes of the fixture keys: the order of a residue, the
  theorem of Lucas, and modular powers by repeated squaring. The trial division of the code is
  too long to evaluate for them; \<open>is_prime_iff\<close> connects the two.
\<close>

section \<open>Modular powers\<close>

fun powmod :: "nat \<Rightarrow> nat \<Rightarrow> nat \<Rightarrow> nat" where
  "powmod a e n = (if e = 0 then 1 mod n else
      let r = powmod (a * a mod n) (e div 2) n in if even e then r else a * r mod n)"
declare powmod.simps [simp del]

lemma powmod_eq: "powmod a e n = a ^ e mod n"
proof (induction a e n rule: powmod.induct)
  case (1 a e n)
  show ?case
  proof (cases "e = 0")
    case True
    then show ?thesis by (simp add: powmod.simps)
  next
    case False
    have half: "(a * a mod n) ^ (e div 2) mod n = a ^ (2 * (e div 2)) mod n"
      by (simp add: power_mod power_mult power2_eq_square)
    show ?thesis
    proof (cases "even e")
      case True
      with False 1 half show ?thesis by (simp add: powmod.simps [of a e n])
    next
      case odd: False
      then have "a ^ e = a * a ^ (2 * (e div 2))" by (metis odd_two_times_div_two_succ power_Suc Suc_eq_plus1)
      with False odd 1 half show ?thesis by (simp add: powmod.simps [of a e n] mod_mult_right_eq)
    qed
  qed
qed

lemma prime_dvd_prod_list:
  assumes "prime_number p" "p dvd prod_list qs" "list_all prime_number qs"
  shows "p \<in> set qs"
  using assms(2,3)
proof (induction qs)
  case Nil
  with assms(1) show ?case by (simp add: prime_number_def)
next
  case (Cons q qs)
  show ?case
  proof (cases "gcd p q = 1")
    case True
    then have "coprime p q" by (simp add: coprime_iff_gcd_eq_1)
    with Cons.prems(1) have "p dvd prod_list qs" by (simp add: coprime_dvd_mult_right_iff)
    with Cons show ?thesis by simp
  next
    case False
    have "gcd p q dvd p" by simp
    with False assms(1) have "gcd p q = p" by (auto simp: prime_number_def)
    then have "p dvd q" by (metis gcd_dvd2)
    with assms(1) Cons.prems(2) have "p = q" by (auto simp: prime_number_def)
    then show ?thesis by simp
  qed
qed

lemma prime_factor_exists: "1 < n \<Longrightarrow> \<exists>p. prime_number p \<and> p dvd n"
proof (induction n rule: less_induct)
  case (less n)
  show ?case
  proof (cases "prime_number n")
    case False
    with less.prems obtain m where m: "m dvd n" "m \<noteq> 1" "m \<noteq> n" by (auto simp: prime_number_def)
    with less.prems have "1 < m" "m < n" using dvd_imp_le [of m n] by (auto intro: ccontr simp: not_less le_Suc_eq)
    with less.IH [of m] m(1) show ?thesis by (meson dvd_trans)
  qed auto
qed

section \<open>The order of a residue\<close>

lemma power_mod_one_mult: "a ^ e mod n = 1 \<Longrightarrow> a ^ (e * k) mod n = 1 mod n" for a e n k :: nat
  by (metis power_mod power_mult power_one)

lemma lucas_order:
  fixes a e n m :: nat
  assumes one: "a ^ e mod n = 1" and "0 < e" "1 < n"
    and least: "\<And>j. 0 < j \<Longrightarrow> j < e \<Longrightarrow> a ^ j mod n \<noteq> 1" and m: "a ^ m mod n = 1"
  shows "e dvd m"
proof -
  have "e * (m div e) + m mod e = m" by simp
  then have "a ^ m = a ^ (e * (m div e)) * a ^ (m mod e)" by (simp only: power_add [symmetric])
  moreover have "a ^ (e * (m div e)) mod n = 1" using power_mod_one_mult [OF one] assms(3) by simp
  ultimately have "a ^ (m mod e) mod n = 1"
    using m mod_mult_left_eq [of "a ^ (e * (m div e))" n "a ^ (m mod e)"] by simp
  with least [of "m mod e"] assms(2) have "m mod e = 0" by (meson gr0I mod_less_divisor)
  then show ?thesis by auto
qed

lemma lucas_powers_distinct:
  fixes a e n :: nat
  assumes one: "a ^ e mod n = 1" and "1 < n"
    and least: "\<And>j. 0 < j \<Longrightarrow> j < e \<Longrightarrow> a ^ j mod n \<noteq> 1"
  shows "inj_on (\<lambda>i. a ^ i mod n) {..<e}"
proof (rule linorder_inj_onI)
  fix i j assume ij: "i < j" "i \<in> {..<e}" "j \<in> {..<e}"
  show "a ^ i mod n \<noteq> a ^ j mod n"
  proof
    assume eq: "a ^ i mod n = a ^ j mod n"
    have "i + (e - i) = e" "j + (e - i) = e + (j - i)" using ij by auto
    then have "a ^ e = a ^ i * a ^ (e - i)" "a ^ (e + (j - i)) = a ^ j * a ^ (e - i)"
      by (simp_all only: power_add [symmetric])
    then have "a ^ (e + (j - i)) mod n = 1" using eq one by (metis mod_mult_left_eq)
    then have "a ^ (j - i) mod n = 1" using one by (metis mod_mult_left_eq mult_1 power_add)
    moreover have "0 < j - i" "j - i < e" using ij by auto
    ultimately show False using least by blast
  qed
qed auto

lemma lucas:
  assumes n: "1 < n" and one: "a ^ (n - 1) mod n = 1"
    and qs: "n - 1 = prod_list qs" "list_all prime_number qs"
    and ne: "\<And>q. q \<in> set qs \<Longrightarrow> a ^ ((n - 1) div q) mod n \<noteq> 1"
  shows "prime_number n"
proof -
  define e where "e = (LEAST e. 0 < e \<and> a ^ e mod n = 1)"
  have "0 < n - 1 \<and> a ^ (n - 1) mod n = 1" using n one by simp
  from LeastI [of "\<lambda>e. 0 < e \<and> a ^ e mod n = 1", OF this]
  have e: "0 < e" "a ^ e mod n = 1" unfolding e_def by blast+
  have least: "a ^ j mod n \<noteq> 1" if "0 < j" "j < e" for j
    using not_less_Least [of j "\<lambda>e. 0 < e \<and> a ^ e mod n = 1"] that by (auto simp: e_def)
  from lucas_order [OF e(2,1) n least one] obtain k where k: "n - 1 = e * k" by auto
  have "k = 1"
  proof (rule ccontr)
    assume "k \<noteq> 1"
    with k n have "1 < k" by (metis diff_is_0_eq' less_one linorder_neqE_nat mult_0_right not_le zero_less_diff)
    then obtain p where p: "prime_number p" "p dvd k" using prime_factor_exists by blast
    then obtain j where j: "k = p * j" by auto
    have "p dvd n - 1" using p(2) k by simp
    then have "p \<in> set qs" using p(1) qs by (intro prime_dvd_prod_list) auto
    moreover have "(n - 1) div p = e * j" using k j p(1) by (simp add: prime_number_def)
    ultimately show False using ne [of p] power_mod_one_mult [OF e(2), of j] n by simp
  qed
  with k have en: "e = n - 1" by simp
  let ?f = "\<lambda>i. a ^ i mod n"
  have nz: "?f i \<noteq> 0" if "i < e" for i
  proof
    assume "?f i = 0"
    then have "a ^ e mod n = 0" using that by (metis le_add_diff_inverse less_imp_le_nat mod_mult_left_eq mod_0 mult_0 power_add)
    with e(2) show False by simp
  qed
  have "?f ` {..<e} \<subseteq> {1..<n}" using nz n by (auto simp: Suc_le_eq)
  moreover have "card (?f ` {..<e}) = card {1..<n}"
    using card_image [OF lucas_powers_distinct [OF e(2) n least]] en by simp
  ultimately have surj: "?f ` {..<e} = {1..<n}" by (intro card_subset_eq) auto
  have "m = 1" if "m dvd n" "m \<noteq> n" for m
  proof -
    have "0 < m" "m < n" using that n dvd_imp_le [of m n] by (auto intro: Nat.gr0I)
    then have "m \<in> ?f ` {..<e}" unfolding surj by auto
    then obtain i where i: "i < e" "m = ?f i" by auto
    have "(m * a ^ (e - i)) mod n = 1"
      using i e(2) by (simp add: mod_mult_left_eq flip: power_add)
    moreover have "m dvd (m * a ^ (e - i)) mod n" using that(1) by (simp add: dvd_mod)
    ultimately show ?thesis by simp
  qed
  with n show ?thesis by (auto simp: prime_number_def)
qed
section \<open>Certificates\<close>

lemma lucas_certificate:
  assumes "1 < n" "powmod a (n - 1) n = 1" "n - 1 = prod_list qs" "list_all prime_number qs"
    and "list_all (\<lambda>q. powmod a ((n - 1) div q) n \<noteq> 1) qs"
  shows "prime_number n"
  using assms by (intro lucas [of n a qs]) (auto simp: powmod_eq list_all_iff)

lemma prime_of_small: "p \<in> set SMALL_ODD_PRIMES \<Longrightarrow> prime_number p"
  using small_odd_primes_prime by (simp add: list_all_iff)

lemma prime_below:
  assumes "59 \<le> n" "n < 3481" "odd n" "small_prime_factor SMALL_ODD_PRIMES n = None"
  shows "prime_number n"
proof -
  have lim: "n < u64_limit" using assms(2) by (simp add: u64_limit_def)
  have "isqrt_u64 n < 59"
  proof (rule ccontr)
    assume "\<not> isqrt_u64 n < 59"
    then have "59 * 59 \<le> isqrt_u64 n * isqrt_u64 n" by (intro mult_le_mono) auto
    with isqrt_u64_bounds [OF lim] assms(2) show False by linarith
  qed
  then have "trial_division n (isqrt_u64 n) 59" by (subst trial_division.simps) simp
  then have "is_prime n" using assms by (simp add: is_prime_def odd_iff_mod_2_eq_one)
  with is_prime_iff [OF lim] show ?thesis by simp
qed

lemma small_factors:
  "prime_number 2" "prime_number 3" "prime_number 5" "prime_number 7" "prime_number 11" "prime_number 13" "prime_number 37" "prime_number 307" "prime_number 349" "prime_number 443" "prime_number 503" "prime_number 757" "prime_number 1693"
  by (simp_all add: prime_number_upt [where n = 2] prime_of_small prime_below SMALL_ODD_PRIMES_def)

lemma power_7999993_2: "powmod 10 3999996 7999993 = 7999992"
  by (simp add: powmod.simps)

lemma power_7999993_3: "powmod 10 2666664 7999993 = 4542993"
  by (simp add: powmod.simps)

lemma power_7999993_7: "powmod 10 1142856 7999993 = 4322427"
  by (simp add: powmod.simps)

lemma power_7999993_11: "powmod 10 727272 7999993 = 6206968"
  by (simp add: powmod.simps)

lemma power_7999993_13: "powmod 10 615384 7999993 = 7382521"
  by (simp add: powmod.simps)

lemma power_7999993_37: "powmod 10 216216 7999993 = 4210876"
  by (simp add: powmod.simps)

lemma power_7999993: "powmod 10 7999992 7999993 = 1"
  by (simp add: powmod.simps)

lemma prime_7999993: "prime_number 7999993"
  by (rule lucas_certificate [of 7999993 10 "[2, 2, 2, 3, 3, 3, 7, 11, 13, 37]"])
    (simp_all add: power_7999993 power_7999993_2 power_7999993_3 power_7999993_7 power_7999993_11 power_7999993_13 power_7999993_37 small_factors)

lemma power_9900047_2: "powmod 5 4950023 9900047 = 9900046"
  by (simp add: powmod.simps)

lemma power_9900047_13: "powmod 5 761542 9900047 = 6038245"
  by (simp add: powmod.simps)

lemma power_9900047_503: "powmod 5 19682 9900047 = 1032508"
  by (simp add: powmod.simps)

lemma power_9900047_757: "powmod 5 13078 9900047 = 673747"
  by (simp add: powmod.simps)

lemma power_9900047: "powmod 5 9900046 9900047 = 1"
  by (simp add: powmod.simps)

lemma prime_9900047: "prime_number 9900047"
  by (rule lucas_certificate [of 9900047 5 "[2, 13, 503, 757]"])
    (simp_all add: power_9900047 power_9900047_2 power_9900047_13 power_9900047_503 power_9900047_757 small_factors)

lemma power_12000017_2: "powmod 3 6000008 12000017 = 12000016"
  by (simp add: powmod.simps)

lemma power_12000017_7: "powmod 3 1714288 12000017 = 10435006"
  by (simp add: powmod.simps)

lemma power_12000017_307: "powmod 3 39088 12000017 = 10423855"
  by (simp add: powmod.simps)

lemma power_12000017_349: "powmod 3 34384 12000017 = 8431810"
  by (simp add: powmod.simps)

lemma power_12000017: "powmod 3 12000016 12000017 = 1"
  by (simp add: powmod.simps)

lemma prime_12000017: "prime_number 12000017"
  by (rule lucas_certificate [of 12000017 3 "[2, 2, 2, 2, 7, 307, 349]"])
    (simp_all add: power_12000017 power_12000017_2 power_12000017_7 power_12000017_307 power_12000017_349 small_factors)

lemma power_14999981_2: "powmod 2 7499990 14999981 = 14999980"
  by (simp add: powmod.simps)

lemma power_14999981_5: "powmod 2 2999996 14999981 = 3495113"
  by (simp add: powmod.simps)

lemma power_14999981_443: "powmod 2 33860 14999981 = 12662567"
  by (simp add: powmod.simps)

lemma power_14999981_1693: "powmod 2 8860 14999981 = 487057"
  by (simp add: powmod.simps)

lemma power_14999981: "powmod 2 14999980 14999981 = 1"
  by (simp add: powmod.simps)

lemma prime_14999981: "prime_number 14999981"
  by (rule lucas_certificate [of 14999981 2 "[2, 2, 5, 443, 1693]"])
    (simp_all add: power_14999981 power_14999981_2 power_14999981_5 power_14999981_443 power_14999981_1693 small_factors)

end
