(* ===== verification/FuzzTargets.thy ===== *)
theory FuzzTargets
  imports StreamCorrect Kem Utf8 Lucas
begin

text \<open>
  The fuzz targets of \<open>rust/fuzz/fuzz_targets\<close> and the hooks of \<open>rust/src/lib.rs\<close> they
  call. A target is modelled as a function of the fuzzer's bytes that panics where the Rust
  code panics (a failed \<open>expect\<close> or \<open>assert_eq!\<close>, an index out of range, an arithmetic
  overflow), so that the absence of panics for every input replaces the sampled runs.
\<close>

section \<open>Hooks\<close>

definition fuzz_retag_block_v8 :: "mac \<Rightarrow> bytes \<Rightarrow> bytes \<Rightarrow> bytes \<Rightarrow> (bytes, error) res" where
  "fuzz_retag_block_v8 H payload sk aad = retag_block_v8 H payload sk aad"

definition ct_bench_eq :: "bytes \<Rightarrow> bytes \<Rightarrow> bool" where
  "ct_bench_eq a b = ct_eq_bytes a b"

definition fuzz_encrypt_stream_v8_with_nonce ::
    "mac \<Rightarrow> str \<Rightarrow> nat list \<Rightarrow> bytes \<Rightarrow> bytes \<Rightarrow> bytes \<Rightarrow> nat \<Rightarrow> (bytes, error) res" where
  "fuzz_encrypt_stream_v8_with_nonce H plaintext primes sk nonce aad frame_codepoints =
     encrypt_stream_ae_v8_with_nonce H plaintext primes sk nonce aad frame_codepoints"

text \<open>\<open>dst[a..b].copy_from_slice(src)\<close>\<close>

definition copy_slice :: "'a list \<Rightarrow> nat \<Rightarrow> nat \<Rightarrow> 'a list \<Rightarrow> ('a list, 'e) res" where
  "copy_slice dst a b src =
     (if a \<le> b \<and> b \<le> length dst \<and> length src = b - a then Ok (take a dst @ src @ drop b dst) else Panic)"

text \<open>
  The loop over the frames: \<open>frame\<close> is the constant stride, the chunk index a checked
  \<open>u32\<close> counter.
\<close>

function retag_frames ::
    "mac \<Rightarrow> bytes \<Rightarrow> nat \<Rightarrow> bytes \<Rightarrow> bytes \<Rightarrow> nat \<Rightarrow> bytes \<Rightarrow> nat \<Rightarrow> nat \<Rightarrow> (bytes \<times> nat, error) res" where
  "retag_frames H sk_fmt f nonce aad frames_end stream pos idx =
     (let body = f * 160; frame = 4 + body + TAG_SIZE in
      if pos + frame \<le> frames_end
      then res_bind (slice_res stream (pos + 4) (pos + 4 + body)) (\<lambda>masked.
           res_bind (compute_stream_v8_chunk_tag H sk_fmt f nonce idx aad masked) (\<lambda>tag.
           res_bind (copy_slice stream (pos + 4 + body) (pos + frame) tag) (\<lambda>stream'.
             if idx + 1 < 2 ^ 32
             then retag_frames H sk_fmt f nonce aad frames_end stream' (pos + frame) (idx + 1)
             else Panic)))
      else Ok (stream, idx))"
  by pat_completeness auto
termination
  by (relation "measure (\<lambda>(H, sk_fmt, f, nonce, aad, frames_end, stream, pos, idx). Suc frames_end - pos)") auto

declare retag_frames.simps [simp del]

definition fuzz_retag_stream_v8 :: "mac \<Rightarrow> bytes \<Rightarrow> bytes \<Rightarrow> bytes \<Rightarrow> (bytes, error) res" where
  "fuzz_retag_stream_v8 H stream sk aad =
     (let SENTINEL = 4 + 8 + TAG_SIZE in
      if length stream < 21 + SENTINEL then Ok stream
      else res_bind (slice_res stream 1 5) (\<lambda>fb.
        let f = be_val fb in
        if f = 0 \<or> STREAM_AE_V8_MAX_FRAME < f then Ok stream
        else res_bind (slice_res stream 5 21) (\<lambda>nonce.
          let sk_fmt = derive_format_subkey H sk FORMAT_STREAM_AE_V8 in
          res_bind (sub_usize (length stream) SENTINEL) (\<lambda>frames_end.
          res_bind (retag_frames H sk_fmt f nonce aad frames_end stream 21 0) (\<lambda>(stream', idx).
          res_bind (sub_usize (length stream') SENTINEL) (\<lambda>s.
          res_bind (slice_res stream' (s + 4) (s + 12)) (\<lambda>count.
            let n = u64_from_be8 count XOR stream_v8_count_mask H sk_fmt f nonce idx in
            res_bind (compute_stream_v8_sentinel_tag H sk_fmt f nonce idx aad n) (\<lambda>tag.
              copy_slice stream' (s + 12) (length stream') tag)))))))) "

section \<open>Fixtures\<close>

text \<open>\<open>for (i, b) in sk.iter_mut().enumerate() { *b = selector.wrapping_add(i as u8); }\<close>\<close>

definition sk_for :: "byte \<Rightarrow> bytes" where
  "sk_for selector = map (\<lambda>i. selector + of_nat i) [0..<32]"

definition block_key_for :: "byte \<Rightarrow> nat list" where
  "block_key_for selector =
     (if unat selector mod 3 = 0 then [1000003, 1000033]
      else if unat selector mod 3 = 1 then [7999993]
      else [1000003, 1000033, 1000037, 1000039, 1000081, 1000099, 1000117, 1000121, 1000133, 1000151,
            1000159, 1000171, 1000183])"

definition stream_key_for :: "byte \<Rightarrow> nat list" where
  "stream_key_for selector =
     (if unat selector mod 3 = 0 then [1000003, 1000033]
      else if unat selector mod 3 = 1 then [7999993]
      else [1000003, 1000033, 1000037, 1000039, 1000081, 1000099, 1000117, 1000121, 1000133, 1000151,
            9900047, 12000017, 14999981])"

definition unauth_key_for :: "byte \<Rightarrow> nat list" where
  "unauth_key_for selector =
     (if unat selector mod 3 = 0 then [1000003, 1000033, 1000037, 1000039]
      else if unat selector mod 3 = 1 then [7999993]
      else [1000003, 1000033, 1000037, 1000039, 1000081, 1000099, 1000117, 1000121, 1000133, 1000151])"

definition aad_for :: "byte \<Rightarrow> bytes" where
  "aad_for selector =
     (if unat selector mod 4 = 0 then []
      else if unat selector mod 4 = 1 then ascii ''aad-context''
      else if unat selector mod 4 = 2 then [0x00, 0xFF, 0x80, 0x01]
      else ascii ''sender=alice;recipient=bob'')"

definition profile_for :: "byte \<Rightarrow> byte \<Rightarrow> PadProfile" where
  "profile_for selector param =
     (if unat selector mod 3 = 0 then Bucket
      else if unat selector mod 3 = 1 then Coarse (unat param mod 5)
      else Frame (2 ^ (unat param mod 11)))"

text \<open>\<open>let _ = call\<close>: a returned error is dropped, a panic is not.\<close>

fun ignore :: "('a, error) res \<Rightarrow> (unit, error) res" where
  "ignore Panic = Panic"
| "ignore _ = Ok ()"

section \<open>Target \<open>decode_bytes\<close>\<close>

definition TOKEN_GROUP :: nat where
  "TOKEN_GROUP = 8 * (MAX_NOISE_RUN + 1)"

text \<open>The mutation of the authenticated part: truncation, a flipped blob byte, a flipped nonce byte.\<close>

definition flip_blob_byte :: "bool \<Rightarrow> nat \<Rightarrow> byte \<Rightarrow> bytes \<Rightarrow> (bytes, error) res" where
  "flip_blob_byte flip idx x payload =
     (if flip \<and> NONCE_SIZE < length payload
      then modify_res payload (NONCE_SIZE + idx mod (length payload - NONCE_SIZE)) (\<lambda>b. b XOR x)
      else Ok payload)"

definition flip_nonce_byte :: "bool \<Rightarrow> nat \<Rightarrow> byte \<Rightarrow> bytes \<Rightarrow> (bytes, error) res" where
  "flip_nonce_byte flip idx x payload =
     (if flip then modify_res payload (idx mod NONCE_SIZE) (\<lambda>b. b XOR (x OR 1)) else Ok payload)"

definition mutate_block :: "bytes \<Rightarrow> bytes \<Rightarrow> (bytes, error) res" where
  "mutate_block data ct =
     (let flip = (data ! 3 AND 1 = 1);
          drop_groups = unat (drop_bit 1 (data ! 3) AND 0x07);
          mut_lo = unat (data ! 4);
          mut_hi = unat (data ! 5);
          mut_xor = data ! 6;
          flip_nonce = (data ! 3 AND 0x10 \<noteq> 0)
      in res_bind (sub_usize (length ct) TAG_SIZE) (\<lambda>n.
         res_bind (slice_res ct 0 n) (\<lambda>payload.
         res_bind (sub_usize (length payload) NONCE_SIZE) (\<lambda>masked_len.
           let dropped = min (drop_groups * TOKEN_GROUP) masked_len
           in res_bind (flip_blob_byte flip (push_bit 8 mut_hi OR mut_lo) mut_xor
                          (take (length payload - dropped) payload))
                (flip_nonce_byte flip_nonce mut_lo mut_xor)))))"

definition decode_bytes_target :: "mac \<Rightarrow> module_state \<Rightarrow> bytes \<Rightarrow> (unit, error) res" where
  "decode_bytes_target H m data =
     (if length data < 10 then Ok ()
      else let key = block_key_for (data ! 0) in
        if list_ex (\<lambda>k. k < MIN_KEY_PRIME) key then Ok ()
        else let aad = aad_for (data ! 1);
                 sk = sk_for (data ! 2);
                 flip = (data ! 3 AND 1 = 1);
                 drop_groups = unat (drop_bit 1 (data ! 3) AND 0x07);
                 flip_nonce = (data ! 3 AND 0x10 \<noteq> 0);
                 profile = profile_for (data ! 8) (data ! 9);
                 msg_len = min (unat (data ! 7)) (length data - 10);
                 message = (case from_utf8 (take msg_len (drop 10 data)) of Some s \<Rightarrow> s | None \<Rightarrow> [65])
             in case encrypt_bytes_v8_with_profile H m message key sk aad profile of
                  Panic \<Rightarrow> Panic
                | Err e \<Rightarrow> Ok ()
                | Ok ct \<Rightarrow>
                    (case decrypt_bytes_v8 H m ct key sk aad of
                       Ok rt \<Rightarrow>
                         if rt \<noteq> message then Panic
                         else if \<not> flip \<and> \<not> flip_nonce \<and> drop_groups = 0 then Ok ()
                         else res_bind (mutate_block data ct) (\<lambda>payload.
                              res_bind (fuzz_retag_block_v8 H payload sk aad) (\<lambda>tag.
                                ignore (decrypt_bytes_v8 H m (payload @ tag) key sk aad)))
                     | _ \<Rightarrow> Panic))"

section \<open>Target \<open>stream_decode\<close>\<close>

text \<open>Strings that are not UTF-8 or longer than 64 characters are replaced by a fixed text.\<close>

definition stream_text :: "bytes \<Rightarrow> str" where
  "stream_text msg_bytes =
     (case from_utf8 msg_bytes of
        Some s \<Rightarrow> if length s \<le> 64 then s else map unat (ascii ''stream'')
      | None \<Rightarrow> map unat (ascii ''stream''))"

text \<open>
  The mutations of the stream: header, nonce, a chunk byte, the masked count, the first frame
  dropped or duplicated, an arbitrary truncation.
\<close>

definition mutate_stream :: "nat \<Rightarrow> nat \<Rightarrow> byte \<Rightarrow> nat \<Rightarrow> bytes \<Rightarrow> (bytes, error) res" where
  "mutate_stream op pos x frame ct =
     (if op mod 7 = 0 then modify_res ct (1 + pos mod 4) (\<lambda>b. b XOR x)
      else if op mod 7 = 1 then modify_res ct (5 + pos mod 16) (\<lambda>b. b XOR x)
      else if op mod 7 = 2 then
        res_bind (sub_usize (length ct) 21) (\<lambda>r.
        res_bind (sub_usize r 44) (\<lambda>body.
          if 0 < body then modify_res ct (21 + pos mod body) (\<lambda>b. b XOR x) else Ok ct))
      else if op mod 7 = 3 then
        res_bind (sub_usize (length ct) 40) (\<lambda>s. modify_res ct (s + pos mod 8) (\<lambda>b. b XOR x))
      else if op mod 7 = 4 then
        (if 21 + frame + 44 \<le> length ct then Ok (take 21 ct @ drop (21 + frame) ct) else Ok ct)
      else if op mod 7 = 5 then
        (if 21 + frame + 44 \<le> length ct
         then res_bind (slice_res ct 21 (21 + frame)) (\<lambda>first. Ok (take 21 ct @ first @ drop 21 ct))
         else Ok ct)
      else res_bind (sub_usize (length ct) 21) (\<lambda>r.
             if r = 0 then Panic else Ok (take (21 + pos mod r) ct)))"

definition stream_decode_target :: "mac \<Rightarrow> module_state \<Rightarrow> bytes \<Rightarrow> (unit, error) res" where
  "stream_decode_target H m data =
     (if length data < 23 then Ok ()
      else let primes = stream_key_for (data ! 0);
               sk = sk_for (data ! 1);
               f = unat (data ! 2) mod 16 + 1;
               op = unat (data ! 3);
               pos = unat (data ! 4) OR push_bit 8 (unat (data ! 5));
               x = data ! 6 OR 1;
               nonce = take 16 (drop 7 data);
               rest = drop 23 data;
               aad_len = min (case rest of [] \<Rightarrow> 0 | b # _ \<Rightarrow> unat b mod 8) (length rest - 1);
               aad = (if rest = [] then [] else take aad_len (drop 1 rest));
               msg_bytes = (if rest = [] then [] else drop (1 + aad_len) rest);
               msg = stream_text msg_bytes
           in case NapqesKey_new primes sk of
                Ok key \<Rightarrow>
                  (case fuzz_encrypt_stream_v8_with_nonce H msg primes sk nonce aad f of
                     Panic \<Rightarrow> Panic
                   | Err e \<Rightarrow> Ok ()
                   | Ok ct \<Rightarrow>
                       if decrypt_stream_ae_v8_key H m ct key aad \<noteq> Ok msg then Panic
                       else res_bind (mutate_stream op pos x (4 + f * 160 + 32) ct) (\<lambda>ct1.
                            res_bind (fuzz_retag_stream_v8 H ct1 sk aad) (\<lambda>ct2.
                              ignore (decrypt_stream_ae_v8_key H m ct2 key aad))))
              | _ \<Rightarrow> Panic)"

section \<open>Target \<open>unauth_decode\<close>\<close>

text \<open>One mutation of a token stream; the token arithmetic wraps at 64 bits.\<close>

definition mutate_tokens :: "nat \<Rightarrow> nat \<Rightarrow> nat \<Rightarrow> nat list \<Rightarrow> nat list \<Rightarrow> (nat list, error) res" where
  "mutate_tokens op idx delta key tokens =
     (if tokens = [] then Ok tokens
      else let i = idx mod length tokens; t = tokens ! i in
        if op mod 6 = 0 then Ok (tokens[i := (t + (delta mod 1000000 + 1)) mod u64_limit])
        else if op mod 6 = 1 then Ok (tokens[i := (t + u64_limit - (delta mod 1000000 + 1)) mod u64_limit])
        else if op mod 6 = 2 then Ok (tokens[i := t XOR push_bit (delta mod 64) 1])
        else if op mod 6 = 3 then Ok (take i tokens)
        else if op mod 6 = 4 then Ok (take i tokens @ t # drop i tokens)
        else res_bind (nth_res key 0) (\<lambda>k.
               Ok (tokens[i := (t + k * 0x110000 mod u64_limit) mod u64_limit])))"

text \<open>Each input byte is a codepoint; every fourth one is widened.\<close>

definition unauth_message :: "bytes \<Rightarrow> str" where
  "unauth_message bs =
     map (\<lambda>(i, b). if i mod 4 = 3 then 0x100 + unat b * 7 else unat b) (enumerate 0 (take 512 bs))"

definition unauth_decode_target ::
    "(str \<Rightarrow> bytes option) \<Rightarrow> mac \<Rightarrow> module_state \<Rightarrow> bytes \<Rightarrow> (unit, error) res" where
  "unauth_decode_target b64_dec H m data =
     (if length data < 28 then Ok ()
      else let key = unauth_key_for (data ! 0);
               nonce = take 16 (drop 1 data);
               op = unat (data ! 17);
               idx = unat (data ! 18) OR push_bit 8 (unat (data ! 19));
               delta = be_val (take 8 (drop 20 data));
               msg = unauth_message (drop 28 data)
           in res_bind
                (case fuzz_v7_tokens H msg key nonce of
                   Ok tokens \<Rightarrow>
                     if decrypt H m nonce tokens key \<noteq> Ok msg then Panic
                     else res_bind (mutate_tokens op idx delta key tokens) (\<lambda>tokens'.
                            ignore (decrypt H m nonce tokens' key))
                 | Err e \<Rightarrow> Ok ()
                 | Panic \<Rightarrow> Panic) (\<lambda>_.
              res_bind (ignore (decrypt_raw H m data key [])) (\<lambda>_.
                case from_utf8 data of
                  Some s \<Rightarrow> ignore (decrypt_str b64_dec H m s key [])
                | None \<Rightarrow> Ok ())))"

section \<open>Target \<open>validate_key\<close>\<close>

text \<open>\<open>data.chunks_exact(8)\<close>, each chunk read little-endian.\<close>

definition candidate_key :: "bytes \<Rightarrow> nat list" where
  "candidate_key data = map (\<lambda>i. be_val (rev (take 8 (drop (8 * i) data)))) [0..<length data div 8]"

definition validate_key_target :: "mac \<Rightarrow> bytes \<Rightarrow> module_state \<Rightarrow> bytes \<Rightarrow> (unit, error) res" where
  "validate_key_target H draw m data =
     (let key = candidate_key data; msg = [65]; aad = []; sk = replicate 32 0x11 in
      case encrypt_bytes H draw m msg key aad of
        (r, m') \<Rightarrow>
          res_bind (ignore r) (\<lambda>_.
          res_bind (ignore (decrypt_bytes H m' (replicate 100 0) key aad)) (\<lambda>_.
          res_bind (ignore (encrypt_bytes_v8 H m' msg key sk aad)) (\<lambda>_.
            ignore (decrypt_bytes_v8 H m' (replicate 100 0) key sk aad)))))"

section \<open>The fixtures are valid keys\<close>

lemma ignore_eq_Panic [simp]: "ignore r = Panic \<longleftrightarrow> r = Panic"
  by (cases r) simp_all

lemma ignore_eq_Ok [simp]: "ignore r = Ok () \<longleftrightarrow> r \<noteq> Panic"
  by (cases r) simp_all

lemma fixture_primes:
  "is_prime 7999993" "is_prime 9900047" "is_prime 12000017" "is_prime 14999981"
  using is_prime_iff prime_7999993 prime_9900047 prime_12000017 prime_14999981 by (simp_all add: u64_limit_def)

lemma fixture_tuple_primes:
  "is_prime 1000037" "is_prime 1000039" "is_prime 1000081" "is_prime 1000099" "is_prime 1000117"
  "is_prime 1000121" "is_prime 1000133" "is_prime 1000151" "is_prime 1000159" "is_prime 1000171" "is_prime 1000183"
  using sample_tuple_prime by (simp_all add: sample_tuple_def)

lemmas fixture_keys =
  fixture_primes fixture_tuple_primes sample_primes validate_key_def key_consts

lemma fixture_keys_validate:
  "validate_key (block_key_for s) = Ok ()"
  "validate_key (stream_key_for s) = Ok ()"
  "validate_key (unauth_key_for s) = Ok ()"
  by (simp_all add: block_key_for_def stream_key_for_def unauth_key_for_def fixture_keys)


section \<open>The block target\<close>

lemma flip_blob_byte_Ok:
  obtains p where "flip_blob_byte flip idx x payload = Ok p" "length p = length payload"
proof (cases "flip \<and> 16 < length payload")
  case True
  then have "idx mod (length payload - 16) < length payload - 16" by (intro mod_less_divisor) simp
  then have "16 + idx mod (length payload - 16) < length payload" by linarith
  with True that show thesis by (simp add: flip_blob_byte_def)
qed (use that in \<open>auto simp: flip_blob_byte_def\<close>)

lemma flip_nonce_byte_Ok:
  assumes "16 \<le> length payload"
  obtains p where "flip_nonce_byte flip idx x payload = Ok p" "length p = length payload"
proof -
  have "idx mod 16 < length payload" using assms mod_less_divisor [of 16 idx] by linarith
  with that show thesis by (cases flip) (simp_all add: flip_nonce_byte_def)
qed

lemma mutate_block_Ok:
  assumes "length ct = 48 + 160 * n"
  obtains payload k where "mutate_block data ct = Ok payload" "length payload = 16 + 160 * k" "k \<le> n"
proof -
  define g where "g = unat (drop_bit 1 (data ! 3) AND 0x07)"
  define payload1 where "payload1 = take (16 + 160 * n - min (g * TOKEN_GROUP) (160 * n)) (take (16 + 160 * n) ct)"
  have "min (g * TOKEN_GROUP) (160 * n) = 160 * min g n" by (simp add: TOKEN_GROUP_def min_def)
  then have len: "length payload1 = 16 + 160 * (n - min g n)" using assms by (simp add: payload1_def diff_mult_distrib2)
  obtain payload2 where p2: "flip_blob_byte (data ! 3 AND 1 = 1) (push_bit 8 (unat (data ! 5)) OR unat (data ! 4))
      (data ! 6) payload1 = Ok payload2" "length payload2 = length payload1"
    by (rule flip_blob_byte_Ok)
  have "16 \<le> length payload2" using p2(2) len by simp
  then obtain payload where p: "flip_nonce_byte (data ! 3 AND 0x10 \<noteq> 0) (unat (data ! 4)) (data ! 6) payload2
      = Ok payload" "length payload = length payload2"
    by (rule flip_nonce_byte_Ok)
  have "sub_usize (length ct) TAG_SIZE = (Ok (16 + 160 * n) :: (nat, error) res)"
    "slice_res ct 0 (16 + 160 * n) = (Ok (take (16 + 160 * n) ct) :: (bytes, error) res)"
    "length (take (16 + 160 * n) ct) = 16 + 160 * n"
    "sub_usize (16 + 160 * n) NONCE_SIZE = (Ok (160 * n) :: (nat, error) res)"
    using assms by simp_all
  then have "mutate_block data ct = Ok payload"
    using p2(1) p(1) unfolding payload1_def g_def mutate_block_def Let_def res_bind.simps by (simp only: res_bind.simps)
  with that p(2) p2(2) len show thesis by simp
qed

lemma retag_block_authenticates:
  assumes "length payload = 16 + 160 * k" "k \<le> 2 ^ 20" "validate_key key = Ok ()"
  obtains tag where "fuzz_retag_block_v8 H payload sk aad = Ok tag" "length tag = 32"
    "decrypt_bytes_v8 H m (payload @ tag) key sk aad \<noteq> Err AuthenticationFailed"
proof -
  define kb where "kb = derive_format_subkey H sk FORMAT_BLOCK_V8"
  define tag where "tag = hmac_digest H kb (block_tag_input aad payload)"
  have tag: "compute_auth_tag H kb aad payload 8 = Ok tag"
    unfolding tag_def using assms(1) by (intro compute_block_tag) simp
  obtain ks where ks: "varint_keystream H kb (take 16 payload) (length (drop 16 payload)) = Ok ks"
    using assms varint_keystream_Ok [of "length (drop 16 payload)" H kb "take 16 payload"] by simp
  have "fixed_decode_tokens d \<noteq> Err AuthenticationFailed" for d by (simp add: fixed_decode_tokens_def)
  then have "decrypt_bytes_v8_core_inner H kb (payload @ tag) key aad \<noteq> Err AuthenticationFailed"
    using tag ks decrypt_core_v8_no_auth_error to_text_no_auth_error
    by (auto simp: decrypt_bytes_v8_core_inner_def Let_def tag_def)
  then have "decrypt_bytes_v8_core H (payload @ tag) key sk aad \<noteq> Err AuthenticationFailed"
    using assms by (simp add: decrypt_bytes_v8_core_def Let_def tag_def flip: kb_def)
  then have "decrypt_bytes_v8 H m (payload @ tag) key sk aad \<noteq> Err AuthenticationFailed"
    using fips_check_cases [of m] assms(3) by (auto simp: decrypt_bytes_v8_def)
  with that [of tag] tag show thesis by (simp add: fuzz_retag_block_v8_def retag_block_v8_def tag_def flip: kb_def)
qed


lemma fuzz_message_scalar: "list_all is_scalar (case from_utf8 bs of Some s \<Rightarrow> s | None \<Rightarrow> [65])"
  using from_utf8_sound [of bs] by (auto simp: is_scalar_def split: option.split)

lemma decode_bytes_target_Ok: "decode_bytes_target H m data = Ok ()"
proof (cases "length data < 10")
  case True
  then show ?thesis by (simp add: decode_bytes_target_def)
next
  case False
  define key where "key = block_key_for (data ! 0)"
  define msg where "msg = (case from_utf8 (take (min (unat (data ! 7)) (length data - 10)) (drop 10 data)) of
      Some s \<Rightarrow> s | None \<Rightarrow> [65])"
  have msg: "list_all is_scalar msg" unfolding msg_def by (rule fuzz_message_scalar)
  have key: "validate_key key = Ok ()" unfolding key_def by (rule fixture_keys_validate)
  then have big: "\<not> list_ex (\<lambda>k. k < MIN_KEY_PRIME) key"
    by (auto simp: validate_key_Ok_iff key_consts list_ex_iff dest: valid_keyD(4))
  note enc = encrypt_outcome [OF msg, of H m key "sk_for (data ! 2)" "aad_for (data ! 1)"
      "profile_for (data ! 8) (data ! 9)", THEN conjunct1]
  show ?thesis
  proof (cases "encrypt_bytes_v8_with_profile H m msg key (sk_for (data ! 2)) (aad_for (data ! 1))
      (profile_for (data ! 8) (data ! 9))")
    case (Ok ct)
    then obtain B where B: "reachable_block B" "length ct = 48 + 160 * (B + 2)"
        "decrypt_bytes_v8 H m ct key (sk_for (data ! 2)) (aad_for (data ! 1)) = Ok msg"
      by (rule encrypted_block [OF _ msg])
    obtain payload k where p: "mutate_block data ct = Ok payload" "length payload = 16 + 160 * k" "k \<le> B + 2"
      using mutate_block_Ok [OF B(2)] by blast
    have k: "k \<le> 2 ^ 20" using p(3) reachable_block_cases [OF B(1)] by simp
    obtain tag where tag: "fuzz_retag_block_v8 H payload (sk_for (data ! 2)) (aad_for (data ! 1)) = Ok tag"
        "length tag = 32"
      using retag_block_authenticates [OF p(2) k key] by metis
    have "length (payload @ tag) \<le> 32 * (2 ^ 32 - 1)" using p(2) k tag(2) by simp
    then have "decrypt_bytes_v8 H m (payload @ tag) key (sk_for (data ! 2)) (aad_for (data ! 1)) \<noteq> Panic"
      by (rule decrypt_v8_not_Panic)
    with False big Ok B(3) p(1) tag(1) show ?thesis
      by (simp add: decode_bytes_target_def Let_def flip: key_def msg_def)
  qed (use False big enc in \<open>simp_all add: decode_bytes_target_def Let_def flip: key_def msg_def\<close>)
qed

section \<open>The stream target\<close>

text \<open>Re-tagging ends for every stream below four gigabytes and keeps the length.\<close>

lemma retag_frames_Ok:
  "frames_end \<le> length stream \<Longrightarrow> frames_end < 2 ^ 32 \<Longrightarrow> idx \<le> pos \<Longrightarrow>
   \<exists>stream' idx'. retag_frames H kb f nonce aad frames_end stream pos idx = Ok (stream', idx')
     \<and> length stream' = length stream"
proof (induction "Suc frames_end - pos" arbitrary: stream pos idx rule: less_induct)
  case less
  show ?case
  proof (cases "pos + (4 + f * 160 + 32) \<le> frames_end")
    case True
    define a where "a = pos + 4 + f * 160"
    define tag where "tag = hmac_digest H kb (chunk_tag_input f nonce idx aad (take (f * 160) (drop (pos + 4) stream)))"
    define stream1 where "stream1 = take a stream @ tag @ drop (a + 32) stream"
    have len: "length stream1 = length stream" using True less.prems(1) by (simp add: stream1_def a_def tag_def)
    have "retag_frames H kb f nonce aad frames_end stream pos idx
        = retag_frames H kb f nonce aad frames_end stream1 (pos + (4 + f * 160 + 32)) (idx + 1)"
      using True less.prems
      by (subst retag_frames.simps)
        (simp add: Let_def compute_chunk_tag copy_slice_def stream1_def a_def tag_def add.assoc)
    moreover have "\<exists>stream' idx'. retag_frames H kb f nonce aad frames_end stream1 (pos + (4 + f * 160 + 32)) (idx + 1)
        = Ok (stream', idx') \<and> length stream' = length stream1"
      using True less.prems len by (intro less.hyps) simp_all
    ultimately show ?thesis using len by simp
  next
    case False
    then show ?thesis by (subst retag_frames.simps) (simp add: Let_def)
  qed
qed

lemma retag_stream_eq:
  assumes "65 \<le> length stream" "f = be_val (take 4 (drop 1 stream))" "1 \<le> f" "f \<le> 16384"
    and "nonce = take 16 (drop 5 stream)" "kb = derive_format_subkey H sk FORMAT_STREAM_AE_V8"
    and "retag_frames H kb f nonce aad (length stream - 44) stream 21 0 = Ok (stream', idx)"
    and "length stream' = length stream"
  shows "fuzz_retag_stream_v8 H stream sk aad =
     Ok (take (length stream - 32) stream' @ hmac_digest H kb (sentinel_tag_input f nonce idx aad
       (u64_from_be8 (take 8 (drop (length stream - 40) stream')) XOR stream_v8_count_mask H kb f nonce idx)))"
proof -
  have arith: "length stream - 44 + 4 = length stream - 40" "length stream - 44 + 12 = length stream - 32"
    "length stream - 32 - (length stream - 40) = 8" "length stream - (length stream - 32) = 32"
    using assms(1) by simp_all
  have slices: "slice_res stream 1 5 = (Ok (take 4 (drop 1 stream)) :: (bytes, error) res)"
    "slice_res stream 5 21 = (Ok nonce :: (bytes, error) res)"
    "sub_usize (length stream) 44 = (Ok (length stream - 44) :: (nat, error) res)"
    "slice_res stream' (length stream - 40) (length stream - 32)
       = (Ok (take 8 (drop (length stream - 40) stream')) :: (bytes, error) res)"
    "copy_slice stream' (length stream - 32) (length stream) (hmac_digest H kb d)
       = (Ok (take (length stream - 32) stream' @ hmac_digest H kb d) :: (bytes, error) res)" for d
    using assms(1,5,8) by (simp_all add: copy_slice_def)
  have f: "\<not> (be_val (take 4 (drop 1 stream)) = 0 \<or> STREAM_AE_V8_MAX_FRAME < be_val (take 4 (drop 1 stream)))"
    using assms(2-4) by simp
  have "4 + 8 + TAG_SIZE = 44" "\<not> length stream < 21 + 44" using assms(1) by simp_all
  then show ?thesis
    unfolding fuzz_retag_stream_v8_def Let_def
    using f assms(7)
    by (simp only: assms(2,6) [symmetric] assms(8) slices res_bind.simps if_False arith prod.case compute_sentinel_tag)
qed

lemma retag_stream_Ok:
  assumes "length stream < 2 ^ 32"
  obtains stream' where "fuzz_retag_stream_v8 H stream sk aad = Ok stream'"
proof -
  define f where "f = be_val (take 4 (drop 1 stream))"
  consider "length stream < 65" | "65 \<le> length stream" "f = 0 \<or> 16384 < f" | "65 \<le> length stream" "1 \<le> f" "f \<le> 16384"
    by linarith
  then show thesis
  proof cases
    case 1
    with that show thesis by (simp add: fuzz_retag_stream_v8_def)
  next
    case 2
    then have "fuzz_retag_stream_v8 H stream sk aad = Ok stream"
      by (simp add: fuzz_retag_stream_v8_def Let_def f_def)
    with that show thesis by blast
  next
    case 3
    obtain stream' idx where "retag_frames H (derive_format_subkey H sk FORMAT_STREAM_AE_V8) f
        (take 16 (drop 5 stream)) aad (length stream - 44) stream 21 0 = Ok (stream', idx)"
        "length stream' = length stream"
      using retag_frames_Ok [of "length stream - 44" stream 0 21] assms by fastforce
    from that [OF retag_stream_eq [OF 3(1) f_def 3(2,3) refl refl this]] show thesis .
  qed
qed

lemma mutate_stream_Ok:
  assumes "65 \<le> length ct"
  obtains ct' where "mutate_stream op pos x frame ct = Ok ct'" "length ct' \<le> 2 * length ct"
proof -
  have m: "1 + pos mod 4 < length ct" "5 + pos mod 16 < length ct" "length ct - 40 + pos mod 8 < length ct"
    using assms mod_less_divisor [of 4 pos] mod_less_divisor [of 16 pos] mod_less_divisor [of 8 pos] by linarith+
  have body: "21 + pos mod (length ct - 65) < length ct" if "65 < length ct"
    using that mod_less_divisor [of "length ct - 65" pos] by linarith
  define c where "c = op mod 7"
  consider "c = 0" | "c = 1" | "c = 2" | "c = 3" | "c = 4" | "c = 5" | "6 \<le> c" by linarith
  then have "\<exists>ct'. mutate_stream op pos x frame ct = Ok ct' \<and> length ct' \<le> 2 * length ct"
    by cases (use assms m body in \<open>auto simp: mutate_stream_def simp flip: c_def\<close>)
  with that show thesis by blast
qed


lemma stream_text_scalar: "list_all is_scalar (stream_text bs) \<and> length (stream_text bs) \<le> 64"
proof -
  have "list_all is_scalar (map unat (ascii ''stream''))" "length (map unat (ascii ''stream'')) \<le> 64"
    by (simp_all add: ascii_def is_scalar_def)
  then show ?thesis using from_utf8_sound [of bs] by (auto simp: stream_text_def split: option.split)
qed

lemma stream_decode_target_Ok:
  assumes m: "fips_check m = Ok ()"
  shows "stream_decode_target H m data = Ok ()"
proof (cases "length data < 23")
  case True
  then show ?thesis by (simp add: stream_decode_target_def)
next
  case False
  define primes sk f nonce rest where "primes = stream_key_for (data ! 0)" and "sk = sk_for (data ! 1)"
    and "f = unat (data ! 2) mod 16 + 1" and "nonce = take 16 (drop 7 data)" and "rest = drop 23 data"
  define aad_len where "aad_len = min (case rest of [] \<Rightarrow> 0 | b # _ \<Rightarrow> unat b mod 8) (length rest - 1)"
  define aad msg where "aad = (if rest = [] then [] else take aad_len (drop 1 rest))"
    and "msg = stream_text (if rest = [] then [] else drop (1 + aad_len) rest)"
  define kb where "kb = derive_format_subkey H sk FORMAT_STREAM_AE_V8"
  define key where "key = \<lparr>key_primes = primes, key_sk = sk\<rparr>"
  have valid: "validate_key primes = Ok ()" unfolding primes_def by (rule fixture_keys_validate)
  then have safe: "safe_key primes" by (simp add: validate_key_Ok_iff valid_key_safe)
  have f: "0 < f" "f \<le> 16" using mod_less_divisor [of 16 "unat (data ! 2)"] by (simp_all add: f_def)
  have nonce: "length nonce = 16" using False by (simp add: nonce_def)
  have msg: "\<forall>c \<in> set msg. is_scalar c" "length msg \<le> 64"
    using stream_text_scalar by (simp_all add: msg_def list_all_iff)
  have "length msg \<le> 1 * (2 ^ 32 - 1)" using msg(2) by simp
  also have "\<dots> \<le> f * (2 ^ 32 - 1)" using f(1) by (intro mult_le_mono1) simp
  finally obtain ct where ct: "encrypt_stream_ae_v8_inner H msg primes kb nonce aad f = Ok ct"
      "decrypt_stream_ae_v8_inner H ct primes kb aad = Ok msg"
    using stream_round_trip_inner [OF safe f(1) _ nonce msg(1)] f(2) by fastforce
  have len: "65 \<le> length ct" "length ct \<le> 65 + (length msg + 1) * (36 + 160 * f)"
    using stream_length [OF safe f(1) _ nonce msg(1) ct(1)] f(2) by simp_all
  have "(length msg + 1) * (36 + 160 * f) \<le> 65 * 2596" using msg(2) f(2) by (intro mult_le_mono) simp_all
  then have short: "length ct \<le> 200000" using len(2) by simp
  obtain ct1 where ct1: "mutate_stream (unat (data ! 3)) (unat (data ! 4) OR push_bit 8 (unat (data ! 5)))
      (data ! 6 OR 1) (4 + f * 160 + 32) ct = Ok ct1" "length ct1 \<le> 2 * length ct"
    using mutate_stream_Ok [OF len(1)] by metis
  have "length ct1 < 2 ^ 32" using ct1(2) short by simp
  then obtain ct2 where ct2: "fuzz_retag_stream_v8 H ct1 sk aad = Ok ct2" by (rule retag_stream_Ok)
  have "ignore (decrypt_stream_ae_v8_inner H ct2 primes kb aad) = Ok ()"
    using decrypt_stream_inner_not_Panic [OF safe] by simp
  then have dec: "decrypt_stream_ae_v8_key H m ct key aad = Ok msg" "ignore (decrypt_stream_ae_v8_key H m ct2 key aad) = Ok ()"
    using ct(2) m by (simp_all add: decrypt_stream_ae_v8_key_def key_def flip: kb_def)
  have "NapqesKey_new primes sk = Ok key" using valid by (simp add: NapqesKey_new_def key_def)
  moreover have "fuzz_encrypt_stream_v8_with_nonce H msg primes sk nonce aad f = Ok ct"
    using valid f ct(1) by (simp add: fuzz_encrypt_stream_v8_with_nonce_def encrypt_stream_ae_v8_with_nonce_def
        validate_stream_v8_frame_def flip: kb_def)
  ultimately show ?thesis
    using False ct1(1) ct2 dec
    unfolding stream_decode_target_def Let_def primes_def [symmetric] sk_def [symmetric] f_def [symmetric]
      nonce_def [symmetric] rest_def [symmetric] aad_len_def [symmetric] aad_def [symmetric] msg_def [symmetric]
    by simp
qed

section \<open>The target of the unauthenticated surface\<close>

lemma unauth_message_scalar: "list_all is_scalar (unauth_message bs) \<and> length (unauth_message bs) \<le> 512"
proof -
  have "is_scalar (0x100 + unat b * 7)" "is_scalar (unat b)" for b :: byte
    unfolding is_scalar_def using unat_byte_less [of b] by linarith+
  then show ?thesis by (auto simp: unauth_message_def list_all_iff)
qed

lemma mutate_tokens_Ok:
  assumes "key \<noteq> []"
  obtains tokens' where "mutate_tokens op idx delta key tokens = Ok tokens'"
proof -
  have "\<exists>tokens'. mutate_tokens op idx delta key tokens = Ok tokens'"
    using assms by (simp add: mutate_tokens_def Let_def)
  with that show thesis by blast
qed

lemma unauth_decode_target_Ok:
  assumes m: "fips_check m = Ok ()" and data: "length data \<le> 32 * (2 ^ 32 - 1)"
    and b64: "\<And>s bs. b64_dec s = Some bs \<Longrightarrow> length bs \<le> length s"
  shows "unauth_decode_target b64_dec H m data = Ok ()"
proof (cases "length data < 28")
  case True
  then show ?thesis by (simp add: unauth_decode_target_def)
next
  case False
  define key nonce msg where "key = unauth_key_for (data ! 0)" and "nonce = take 16 (drop 1 data)"
    and "msg = unauth_message (drop 28 data)"
  have valid: "validate_key key = Ok ()" unfolding key_def by (rule fixture_keys_validate)
  then have "key \<noteq> []" by (auto simp: validate_key_def)
  have msg: "list_all is_scalar msg" "length msg < 2 ^ 16"
    using unauth_message_scalar [of "drop 28 data"] by (simp_all add: msg_def)
  have "ignore (decrypt H m nonce ts key) = Ok ()" for ts by (simp add: decrypt_v7_not_Panic)
  then have first: "(case fuzz_v7_tokens H msg key nonce of
        Ok tokens \<Rightarrow> if decrypt H m nonce tokens key \<noteq> Ok msg then Panic
          else res_bind (mutate_tokens op idx delta key tokens) (\<lambda>tokens'. ignore (decrypt H m nonce tokens' key))
      | Err e \<Rightarrow> Ok () | Panic \<Rightarrow> Panic) = Ok ()" for op idx delta
    by (cases rule: fuzz_v7_tokens_cases [OF m valid msg, of H nonce])
      (auto intro: mutate_tokens_Ok [OF \<open>key \<noteq> []\<close>, of op idx delta])
  have second: "ignore (decrypt_raw H m data key []) = Ok ()"
    using decrypt_raw_not_Panic [OF data] by simp
  have third: "ignore (decrypt_str b64_dec H m s key []) = Ok ()" if "from_utf8 data = Some s" for s
  proof -
    have "length bs \<le> 32 * (2 ^ 32 - 1)" if "b64_dec s = Some bs" for bs
      using b64 [OF that] from_utf8_length [OF \<open>from_utf8 data = Some s\<close>] data by linarith
    then show ?thesis
      using decrypt_bytes_not_Panic m by (auto simp: decrypt_str_def split: option.split)
  qed
  show ?thesis
    using False second third
    unfolding unauth_decode_target_def Let_def key_def [symmetric] nonce_def [symmetric] msg_def [symmetric] first
    by (simp split: option.split)
qed

section \<open>The target of the key validation\<close>

lemma validate_key_target_Ok:
  assumes "length draw = 16"
  shows "validate_key_target H draw m data = Ok ()"
proof -
  let ?key = "candidate_key data"
  obtain r m' where enc: "encrypt_bytes H draw m [65] ?key [] = (r, m')" by fastforce
  have A: "list_all is_scalar [65]" by (simp add: is_scalar_def)
  have "r \<noteq> Panic"
    using seal_drawn_not_Panic [OF assms _ A, of "[]" H m ?key] enc by (simp add: encrypt_bytes_def)
  moreover have "decrypt_bytes H m' (replicate 100 0) ?key [] \<noteq> Panic" by (rule decrypt_bytes_not_Panic) simp
  moreover have "encrypt_bytes_v8 H m' [65] ?key (replicate 32 0x11) [] \<noteq> Panic"
    using encrypt_outcome [OF A] by (simp add: encrypt_bytes_v8_def)
  moreover have "decrypt_bytes_v8 H m' (replicate 100 0) ?key (replicate 32 0x11) [] \<noteq> Panic"
    by (rule decrypt_v8_not_Panic) simp
  ultimately show ?thesis using enc unfolding validate_key_target_def Let_def by simp
qed


section \<open>What re-tagging a stream does\<close>

text \<open>Frames as the mutations leave them: a length prefix, the masked chunk and some tag.\<close>

definition raw_frames :: "(bytes \<times> bytes \<times> bytes) list \<Rightarrow> bytes" where
  "raw_frames fs = concat (map (\<lambda>(pfx, masked, tag). pfx @ masked @ tag) fs)"

fun retagged_frames :: "mac \<Rightarrow> bytes \<Rightarrow> bytes \<Rightarrow> bytes \<Rightarrow> nat \<Rightarrow> nat \<Rightarrow> (bytes \<times> bytes \<times> bytes) list \<Rightarrow> bytes" where
  "retagged_frames H kb nonce aad f idx [] = []"
| "retagged_frames H kb nonce aad f idx ((pfx, masked, tag) # fs) =
     pfx @ masked @ hmac_digest H kb (chunk_tag_input f nonce idx aad masked)
       @ retagged_frames H kb nonce aad f (idx + 1) fs"

definition frame_shape :: "nat \<Rightarrow> bytes \<times> bytes \<times> bytes \<Rightarrow> bool" where
  "frame_shape f = (\<lambda>(pfx, masked, tag). length pfx = 4 \<and> length masked = 160 * f \<and> length tag = 32)"

lemma length_raw_frames: "list_all (frame_shape f) fs \<Longrightarrow> length (raw_frames fs) = length fs * (36 + 160 * f)"
  by (induction fs) (auto simp: raw_frames_def frame_shape_def)

lemma length_retagged_frames:
  "list_all (frame_shape f) fs \<Longrightarrow> length (retagged_frames H kb nonce aad f idx fs) = length fs * (36 + 160 * f)"
  by (induction H kb nonce aad f idx fs rule: retagged_frames.induct) (auto simp: frame_shape_def)

lemma retag_frames_raw:
  assumes "list_all (frame_shape f) fs" "0 < f" "idx + length fs < 2 ^ 32"
    and "pos = length pre" "frames_end = pos + length fs * (36 + 160 * f)"
  shows "retag_frames H kb f nonce aad frames_end (pre @ raw_frames fs @ suf) pos idx
       = Ok (pre @ retagged_frames H kb nonce aad f idx fs @ suf, idx + length fs)"
  using assms
proof (induction fs arbitrary: pre pos idx)
  case Nil
  then show ?case by (subst retag_frames.simps) (simp add: raw_frames_def Let_def)
next
  case (Cons fr fs)
  obtain pfx masked tag where fr: "fr = (pfx, masked, tag)" by (cases fr)
  then have len: "length pfx = 4" "length masked = 160 * f" "length tag = 32"
    using Cons.prems(1) by (simp_all add: frame_shape_def)
  let ?s = "pre @ raw_frames (fr # fs) @ suf"
  define new where "new = hmac_digest H kb (chunk_tag_input f nonce idx aad masked)"
  have s: "?s = pre @ pfx @ masked @ tag @ raw_frames fs @ suf" by (simp add: raw_frames_def fr)
  have masked: "slice_res ?s (pos + 4) (pos + 4 + f * 160) = (Ok masked :: (bytes, error) res)"
    unfolding s using len Cons.prems(4) by (simp add: mult.commute)
  have copied: "copy_slice ?s (pos + 4 + f * 160) (pos + (4 + f * 160 + 32)) new
      = (Ok ((pre @ pfx @ masked @ new) @ raw_frames fs @ suf) :: (bytes, error) res)"
    unfolding s using len Cons.prems(4) by (simp add: copy_slice_def new_def mult.commute)
  have "retag_frames H kb f nonce aad frames_end ?s pos idx
      = retag_frames H kb f nonce aad frames_end ((pre @ pfx @ masked @ new) @ raw_frames fs @ suf)
          (pos + (4 + f * 160 + 32)) (idx + 1)"
    using Cons.prems masked copied
    by (subst retag_frames.simps) (simp add: Let_def compute_chunk_tag flip: new_def)
  also have "\<dots> = Ok ((pre @ pfx @ masked @ new) @ retagged_frames H kb nonce aad f (idx + 1) fs @ suf,
      (idx + 1) + length fs)"
    using Cons.prems len by (intro Cons.IH) (simp_all add: new_def)
  finally show ?case using fr by (simp add: new_def)
qed

lemma retag_stream_raw:
  assumes "list_all (frame_shape f) fs" "1 \<le> f" "f \<le> 16384" "length nonce = 16" "length fs < 2 ^ 32"
    and "length zeros = 4" "length count = 8" "length old = 32"
    and kb: "kb = derive_format_subkey H sk FORMAT_STREAM_AE_V8"
  shows "fuzz_retag_stream_v8 H (stream_v8_header f nonce @ raw_frames fs @ zeros @ count @ old) sk aad =
     Ok (stream_v8_header f nonce @ retagged_frames H kb nonce aad f 0 fs @ zeros @ count
       @ hmac_digest H kb (sentinel_tag_input f nonce (length fs) aad
           (be_val count XOR stream_v8_count_mask H kb f nonce (length fs))))"
proof -
  define hd where "hd = stream_v8_header f nonce"
  define stream stream' where "stream = hd @ raw_frames fs @ zeros @ count @ old"
    and "stream' = hd @ retagged_frames H kb nonce aad f 0 fs @ zeros @ count @ old"
  have hd: "length hd = 21" "take 4 (drop 1 stream) = be_bytes 4 f" "take 16 (drop 5 stream) = nonce"
    using assms(4) by (simp_all add: hd_def stream_def stream_v8_header_def)
  have len: "length stream = 65 + length fs * (36 + 160 * f)" "length stream' = length stream"
    using hd(1) assms(6-8) by (simp_all add: stream_def stream'_def length_raw_frames [OF assms(1)]
        length_retagged_frames [OF assms(1)])
  have "retag_frames H kb f nonce aad (length stream - 44) stream 21 0 = Ok (stream', 0 + length fs)"
    unfolding stream_def stream'_def using assms hd(1) len(1)
    by (intro retag_frames_raw) (simp_all add: stream_def)
  then have "fuzz_retag_stream_v8 H stream sk aad =
     Ok (take (length stream - 32) stream' @ hmac_digest H kb (sentinel_tag_input f nonce (length fs) aad
       (u64_from_be8 (take 8 (drop (length stream - 40) stream')) XOR stream_v8_count_mask H kb f nonce (length fs))))"
    using assms(2,3) hd len by (intro retag_stream_eq [OF _ _ _ _ _ kb]) simp_all
  moreover have "take (length stream - 32) stream' = hd @ retagged_frames H kb nonce aad f 0 fs @ zeros @ count"
    "take 8 (drop (length stream - 40) stream') = count"
    using len hd(1) assms(6-8) by (simp_all add: stream'_def length_retagged_frames [OF assms(1)])
  ultimately show ?thesis using assms(7) by (simp add: stream_def hd_def u64_from_be8_def)
qed


section \<open>Properties\<close>

text \<open>
  C28: no fuzz target ever panics. Whatever bytes the fuzzer supplies, the block, stream,
  token-slice and key-validation targets end normally: their keys validate, every round-trip
  assertion holds, and the decryptions of the mutated and re-tagged inputs return. The base64
  decoder of the third target is a parameter that returns at most as many bytes as it reads.
\<close>

theorem fuzz_targets_never_panic:
  assumes "fips_check m = Ok ()" and "length draw = 16" and "length data \<le> 32 * (2 ^ 32 - 1)"
    and "\<forall>s bs. b64_dec s = Some bs \<longrightarrow> length bs \<le> length s"
  shows "decode_bytes_target H m data = Ok () \<and> stream_decode_target H m data = Ok () \<and>
    unauth_decode_target b64_dec H m data = Ok () \<and> validate_key_target H draw m data = Ok ()"
  using decode_bytes_target_Ok stream_decode_target_Ok [OF assms(1)] validate_key_target_Ok [OF assms(2)]
    unauth_decode_target_Ok [OF assms(1,3)] assms(4) by blast

theorem fuzz_targets_never_panic_witness:
  "decode_bytes_target (\<lambda>_ _. 0) open_module (replicate 40 7) = Ok () \<and>
   stream_decode_target (\<lambda>_ _. 0) open_module (replicate 40 7) = Ok () \<and>
   unauth_decode_target (\<lambda>s. Some (map of_nat s)) (\<lambda>_ _. 0) open_module (replicate 40 7) = Ok () \<and>
   validate_key_target (\<lambda>_ _. 0) (replicate 16 1) open_module (replicate 40 7) = Ok ()"
  by (rule fuzz_targets_never_panic) auto

text \<open>
  Re-tagging a block reaches the decoder. For every payload of a nonce and whole token
  groups, mutated in any way, the hook returns a tag under which decryption never answers with
  an authentication failure.
\<close>

lemma retagged_block_passes_authentication:
  assumes "length payload = 16 + 160 * k" "k \<le> 2 ^ 20" "validate_key key = Ok ()"
  shows "\<exists>tag. fuzz_retag_block_v8 H payload sk aad = Ok tag \<and> length tag = 32 \<and>
    decrypt_bytes_v8 H m (payload @ tag) key sk aad \<noteq> Err AuthenticationFailed"
  using retag_block_authenticates [OF assms] by metis

text \<open>
  Re-tagging a stream. On a stream of a legal header, frames of the header's size with any
  prefixes, chunks and tags, and a sentinel with any count and tag, the hook replaces every chunk
  tag by the HMAC of header, index and chunk and the sentinel tag by the HMAC of the count it
  carries, and changes no other byte.
\<close>

lemma retag_stream_replaces_the_tags:
  assumes "list_all (frame_shape f) fs" "1 \<le> f" "f \<le> 16384" "length nonce = 16" "length fs < 2 ^ 32"
    and "length zeros = 4" "length count = 8" "length old = 32"
  shows "fuzz_retag_stream_v8 H (stream_v8_header f nonce @ raw_frames fs @ zeros @ count @ old) sk aad =
    (let kb = derive_format_subkey H sk FORMAT_STREAM_AE_V8;
         n = be_val count XOR stream_v8_count_mask H kb f nonce (length fs)
     in Ok (stream_v8_header f nonce @ retagged_frames H kb nonce aad f 0 fs @ zeros @ count
              @ hmac_digest H kb (sentinel_tag_input f nonce (length fs) aad n)))"
  using retag_stream_raw [OF assms refl] by (simp add: Let_def)

end
