(* ===== verification/BerlekampMassey.thy ===== *)
theory BerlekampMassey
  imports Prelude
begin

text \<open>
  The Berlekamp--Massey routine of \<open>rust/src/bin/sts.rs\<close> (\<open>berlekamp_massey\<close>), the
  core of the linear-complexity test: the loop with its two coefficient vectors, and the proof
  that it returns the length of the shortest linear feedback shift register that generates
  the sequence. The arithmetic of the proof is that of the field with two elements,
  represented by \<open>1 word\<close>.
\<close>

section \<open>The routine\<close>

record bm_state =
  bm_c :: bytes
  bm_b :: bytes
  bm_l :: nat
  bm_m :: nat

text \<open>\<open>let mut d = s[nn]; for i in 1..=l { d ^= c[i] & s[nn - i]; }\<close>\<close>

definition bm_discrepancy :: "bytes \<Rightarrow> bytes \<Rightarrow> nat \<Rightarrow> nat \<Rightarrow> (byte, error) res" where
  "bm_discrepancy s c l nn =
     res_bind (nth_res s nn) (fold_res (\<lambda>i d.
       res_bind (nth_res c i) (\<lambda>ci.
       res_bind (sub_usize nn i) (\<lambda>k.
       res_bind (nth_res s k) (\<lambda>sk. Ok (d XOR (ci AND sk)))))) [1..<l + 1])"

text \<open>\<open>let end = nn + 1 - m; for j in 0..=end { c[j + m] ^= b[j]; }\<close>\<close>

definition bm_add_shifted :: "bytes \<Rightarrow> bytes \<Rightarrow> nat \<Rightarrow> nat \<Rightarrow> (bytes, error) res" where
  "bm_add_shifted c b m nn =
     res_bind (sub_usize (nn + 1) m) (\<lambda>stop.
       fold_res (\<lambda>j c. res_bind (nth_res b j) (\<lambda>bj. modify_res c (j + m) (\<lambda>x. x XOR bj)))
         [0..<stop + 1] c)"

definition bm_step :: "bytes \<Rightarrow> nat \<Rightarrow> bm_state \<Rightarrow> (bm_state, error) res" where
  "bm_step s nn st =
     res_bind (bm_discrepancy s (bm_c st) (bm_l st) nn) (\<lambda>d.
       if d = 0 then Ok (st\<lparr>bm_m := bm_m st + 1\<rparr>)
       else if 2 * bm_l st \<le> nn
       then res_bind (bm_add_shifted (bm_c st) (bm_b st) (bm_m st) nn) (\<lambda>c.
            res_bind (sub_usize (nn + 1) (bm_l st)) (\<lambda>l.
              Ok \<lparr>bm_c = c, bm_b = bm_c st, bm_l = l, bm_m = 1\<rparr>))
       else res_bind (bm_add_shifted (bm_c st) (bm_b st) (bm_m st) nn) (\<lambda>c.
              Ok (st\<lparr>bm_c := c, bm_m := bm_m st + 1\<rparr>)))"

definition bm_init :: "nat \<Rightarrow> bm_state" where
  "bm_init n = \<lparr>bm_c = 1 # replicate n 0, bm_b = 1 # replicate n 0, bm_l = 0, bm_m = 1\<rparr>"

definition berlekamp_massey :: "bytes \<Rightarrow> (nat, error) res" where
  "berlekamp_massey s =
     res_bind (fold_res (bm_step s) [0..<length s] (bm_init (length s))) (\<lambda>st. Ok (bm_l st))"

section \<open>Shift registers\<close>

text \<open>
  A register with the taps \<open>cs\<close> generates \<open>s\<close> when every bit after the first
  \<open>length cs\<close> ones is the exclusive or of the tapped preceding bits.
\<close>

definition lfsr_feedback :: "bytes \<Rightarrow> bytes \<Rightarrow> nat \<Rightarrow> byte" where
  "lfsr_feedback cs s k = fold (\<lambda>i d. d XOR (cs ! i AND s ! (k - Suc i))) [0..<length cs] 0"

definition lfsr_generates :: "bytes \<Rightarrow> bytes \<Rightarrow> bool" where
  "lfsr_generates cs s = (\<forall>k \<in> {length cs..<length s}. s ! k = lfsr_feedback cs s k)"

definition is_bit :: "byte \<Rightarrow> bool" where
  "is_bit b = (b = 0 \<or> b = 1)"

section \<open>The field with two elements\<close>

type_synonym gf2 = "1 word"

definition gf :: "byte \<Rightarrow> gf2" where
  "gf b = ucast b"

lemma gf2_cases: "(x :: gf2) = 0 \<or> x = 1"
proof -
  have "unat x < 2" using unsigned_less [of x, where 'a = nat] by simp
  then have "unat x = 0 \<or> unat x = 1" by linarith
  then show ?thesis by (metis unat_0 unat_1 word_unat_eq_iff)
qed

lemma gf2_xor: "(x :: gf2) XOR y = x + y"
  using gf2_cases [of x] gf2_cases [of y] by auto

lemma gf2_and: "(x :: gf2) AND y = x * y"
  using gf2_cases [of x] gf2_cases [of y] by auto

lemma gf2_add_self [simp]: "(x :: gf2) + x = 0"
  using gf2_cases [of x] by auto

lemma gf2_add_eq_0: "(x :: gf2) + y = 0 \<longleftrightarrow> x = y"
  using gf2_cases [of x] gf2_cases [of y] by auto

lemma gf_0 [simp]: "gf 0 = 0"
  by (simp add: gf_def)

lemma gf_1 [simp]: "gf 1 = 1"
  by (simp add: gf_def)

lemma gf_xor [simp]: "gf (x XOR y) = gf x + gf y"
  unfolding gf_def gf2_xor [symmetric] by (rule unsigned_xor_eq)

lemma gf_and [simp]: "gf (x AND y) = gf x * gf y"
  unfolding gf_def gf2_and [symmetric] by (rule unsigned_and_eq)

lemma is_bit_xor: "is_bit x \<Longrightarrow> is_bit y \<Longrightarrow> is_bit (x XOR y)"
  by (auto simp: is_bit_def)

lemma is_bit_and: "is_bit y \<Longrightarrow> is_bit (x AND y)"
  by (auto simp: is_bit_def and_one_eq)

lemma gf_inj: "is_bit x \<Longrightarrow> is_bit y \<Longrightarrow> gf x = gf y \<longleftrightarrow> x = y"
  by (auto simp: is_bit_def)

section \<open>Massey's bound\<close>

text \<open>
  A connection polynomial \<open>C\<close> of length \<open>L\<close> applied to the sequence \<open>S\<close> at
  \<open>k\<close>; it vanishes where the register predicts the bit.
\<close>

definition disc :: "(nat \<Rightarrow> gf2) \<Rightarrow> nat \<Rightarrow> (nat \<Rightarrow> gf2) \<Rightarrow> nat \<Rightarrow> gf2" where
  "disc C L S k = (\<Sum>i\<le>L. C i * S (k - i))"

definition gen_upto :: "(nat \<Rightarrow> gf2) \<Rightarrow> nat \<Rightarrow> (nat \<Rightarrow> gf2) \<Rightarrow> nat \<Rightarrow> bool" where
  "gen_upto C L S n = (C 0 = 1 \<and> (\<forall>k. L \<le> k \<and> k < n \<longrightarrow> disc C L S k = 0))"

lemma gen_uptoD: "gen_upto C L S n \<Longrightarrow> L \<le> k \<Longrightarrow> k < n \<Longrightarrow> disc C L S k = 0"
  by (simp add: gen_upto_def)

lemma gen_upto_mono: "gen_upto C L S n \<Longrightarrow> n' \<le> n \<Longrightarrow> gen_upto C L S n'"
  by (auto simp: gen_upto_def)

lemma gen_upto_Suc:
  "gen_upto C L S (Suc n) \<longleftrightarrow> gen_upto C L S n \<and> (L \<le> n \<longrightarrow> disc C L S n = 0)"
  by (auto simp: gen_upto_def less_Suc_eq)

lemma massey_bound:
  assumes C: "gen_upto C L S n" "disc C L S n \<noteq> 0" and D: "gen_upto D M S (Suc n)"
  shows "Suc n \<le> L + M"
proof (rule ccontr)
  assume "\<not> Suc n \<le> L + M"
  then have le: "L + M \<le> n" by simp
  let ?T = "\<Sum>i\<le>L. \<Sum>j\<le>M. C i * (D j * S (n - i - j))"
  have "disc D M S (n - i) = 0" if "i \<le> L" for i
    using that le by (intro gen_uptoD [OF D]) auto
  then have "?T = 0" by (simp add: disc_def flip: sum_distrib_left)
  moreover have "?T = disc C L S n"
  proof -
    have "disc C L S (n - j) = 0" if "j \<le> M" "j \<noteq> 0" for j
      using that le by (intro gen_uptoD [OF C(1)]) auto
    then have zero: "\<forall>j \<in> {..M} - {0}. D j * disc C L S (n - j) = 0" by simp
    have "?T = (\<Sum>j\<le>M. \<Sum>i\<le>L. D j * (C i * S (n - j - i)))"
      by (subst sum.swap) (simp add: mult.left_commute add.commute)
    also have "\<dots> = (\<Sum>j\<le>M. D j * disc C L S (n - j))"
      by (simp add: disc_def sum_distrib_left)
    also have "\<dots> = (\<Sum>j\<in>{0}. D j * disc C L S (n - j))"
      using zero by (intro sum.mono_neutral_right) auto
    also have "\<dots> = disc C L S n" using D by (simp add: gen_upto_def)
    finally show ?thesis .
  qed
  ultimately show False using C(2) by simp
qed

lemma disc_longer:
  assumes "L \<le> L'" and "\<And>i. L < i \<Longrightarrow> C i = 0"
  shows "disc C L' S k = disc C L S k"
  unfolding disc_def using assms by (intro sum.mono_neutral_right) auto

text \<open>Adding a second polynomial shifted by \<open>m\<close>.\<close>

definition add_shift :: "(nat \<Rightarrow> gf2) \<Rightarrow> (nat \<Rightarrow> gf2) \<Rightarrow> nat \<Rightarrow> nat \<Rightarrow> gf2" where
  "add_shift C B m i = C i + (if m \<le> i then B (i - m) else 0)"

lemma disc_add_shift:
  assumes C: "\<And>i. L < i \<Longrightarrow> C i = 0" and B: "\<And>i. K < i \<Longrightarrow> B i = 0"
    and "L \<le> M" "K + m \<le> M"
  shows "disc (add_shift C B m) M S k = disc C L S k + disc B K S (k - m)"
proof -
  have "(\<Sum>i\<le>M. (if m \<le> i then B (i - m) else 0) * S (k - i)) =
        (\<Sum>i\<in>{m..K + m}. B (i - m) * S (k - i))"
    using assms by (intro sum.mono_neutral_cong_right) auto
  also have "\<dots> = (\<Sum>j\<le>K. B j * S (k - m - j))"
    by (rule sum.reindex_bij_witness [of _ "\<lambda>j. j + m" "\<lambda>i. i - m"]) (auto simp: add.commute)
  finally have "disc (add_shift C B m) M S k = disc C M S k + disc B K S (k - m)"
    by (simp add: disc_def add_shift_def distrib_right sum.distrib)
  with disc_longer [of L M C] assms show ?thesis by simp
qed

section \<open>The loop invariant\<close>

text \<open>
  After \<open>n\<close> bits, \<open>C\<close> is a shortest register for them. \<open>B\<close> is the register before
  the last change of length, \<open>m\<close> bits ago, and fails on the bit that caused the change; while
  only zeros have been read there is no such register, and \<open>B\<close> is the constant one.
\<close>

definition bm_history :: "(nat \<Rightarrow> gf2) \<Rightarrow> nat \<Rightarrow> (nat \<Rightarrow> gf2) \<Rightarrow> nat \<Rightarrow> nat \<Rightarrow> bool" where
  "bm_history S n B L m =
     (if m = Suc n then L = 0 \<and> (\<forall>i. B i = (if i = 0 then 1 else 0))
      else m \<le> n \<and> (\<exists>K. (\<forall>i > K. B i = 0) \<and> gen_upto B K S (n - m) \<and> disc B K S (n - m) \<noteq> 0 \<and>
                       L + K = Suc (n - m)))"

definition bm_shortest :: "(nat \<Rightarrow> gf2) \<Rightarrow> nat \<Rightarrow> (nat \<Rightarrow> gf2) \<Rightarrow> nat \<Rightarrow> bool" where
  "bm_shortest S n C L =
     ((\<forall>i > L. C i = 0) \<and> L \<le> n \<and> gen_upto C L S n \<and> (\<forall>D M. gen_upto D M S n \<longrightarrow> L \<le> M))"

lemma bm_shortest_same:
  "bm_shortest S n C L \<Longrightarrow> disc C L S n = 0 \<Longrightarrow> bm_shortest S (Suc n) C L"
  by (auto simp: bm_shortest_def gen_upto_Suc)

lemma bm_history_same:
  "bm_history S n B L m \<Longrightarrow> bm_history S (Suc n) B L (Suc m)"
  by (auto simp: bm_history_def)

lemma bm_history_new:
  assumes "bm_shortest S n C L" and "disc C L S n \<noteq> 0" and "2 * L \<le> n"
  shows "bm_history S (Suc n) C (Suc n - L) 1"
  using assms by (auto simp: bm_history_def bm_shortest_def intro!: exI [of _ L])

text \<open>The corrected register generates one bit more, and no register does with less.\<close>

lemma bm_correction_degree:
  assumes "bm_shortest S n C L" and "bm_history S n B L m" and "max L (Suc n - L) < i"
  shows "add_shift C B m i = 0"
  using assms by (auto simp: bm_shortest_def bm_history_def add_shift_def split: if_splits)

lemma bm_correction_generates:
  assumes C: "bm_shortest S n C L" and B: "bm_history S n B L m" and d: "disc C L S n \<noteq> 0"
    and m: "1 \<le> m" and M: "M = max L (Suc n - L)"
  shows "gen_upto (add_shift C B m) M S (Suc n)"
proof (cases "m = Suc n")
  case True
  with B M have "M = Suc n" by (simp add: bm_history_def)
  with C m show ?thesis by (auto simp: gen_upto_def bm_shortest_def add_shift_def)
next
  case False
  with B obtain K where K: "\<forall>i > K. B i = 0" "gen_upto B K S (n - m)" "disc B K S (n - m) \<noteq> 0"
      "L + K = Suc (n - m)" "m \<le> n"
    by (auto simp: bm_history_def)
  have le: "L \<le> M" "K + m \<le> M" using M K(4,5) by auto
  have split: "disc (add_shift C B m) M S k = disc C L S k + disc B K S (k - m)" for k
    using C K(1) le by (intro disc_add_shift) (auto simp: bm_shortest_def)
  have "disc (add_shift C B m) M S k = 0" if "M \<le> k" "k < Suc n" for k
  proof (cases "k = n")
    case True
    have "disc C L S n = 1" "disc B K S (n - m) = 1" using d K(3) gf2_cases by blast+
    with True split show ?thesis by simp
  next
    case False
    with that le have "L \<le> k" "k < n" "K \<le> k - m" "k - m < n - m" by auto
    with C K(2) split show ?thesis by (simp add: gen_upto_def bm_shortest_def)
  qed
  with C m show ?thesis by (simp add: gen_upto_def bm_shortest_def add_shift_def)
qed

lemma bm_shortest_corrected:
  assumes C: "bm_shortest S n C L" and B: "bm_history S n B L m" and d: "disc C L S n \<noteq> 0"
    and m: "1 \<le> m" and M: "M = max L (Suc n - L)"
  shows "bm_shortest S (Suc n) (add_shift C B m) M"
proof -
  have "M \<le> M'" if "gen_upto D M' S (Suc n)" for D M'
  proof -
    have "Suc n \<le> L + M'" using massey_bound [OF _ d that] C by (simp add: bm_shortest_def)
    moreover have "L \<le> M'" using C that gen_upto_mono [OF that, of n] by (auto simp: bm_shortest_def)
    ultimately show ?thesis using M by simp
  qed
  with bm_correction_degree [OF C B] bm_correction_generates [OF C B d m M] C M show ?thesis
    by (auto simp: bm_shortest_def)
qed

section \<open>The vectors of the code as polynomials\<close>

definition poly :: "bytes \<Rightarrow> nat \<Rightarrow> gf2" where
  "poly c i = (if i < length c then gf (c ! i) else 0)"

lemma sum_from_zero: "(\<Sum>i\<le>l. f i) = f 0 + (\<Sum>i\<in>{1..<Suc l}. f i)" for f :: "nat \<Rightarrow> gf2"
proof -
  have "{..l} = insert 0 {1..<Suc l}" by auto
  then show ?thesis by simp
qed

lemma bm_discrepancy_Ok:
  assumes "list_all is_bit s" and len: "length c = Suc (length s)" and le: "l \<le> nn" "nn < length s"
    and one: "poly c 0 = 1"
  shows "\<exists>d. bm_discrepancy s c l nn = Ok d \<and> is_bit d \<and> gf d = disc (poly c) l (poly s) nn"
proof -
  have bit: "is_bit (s ! k)" if "k < length s" for k using assms(1) that by (simp add: list_all_length)
  let ?body = "\<lambda>i d. res_bind (nth_res c i) (\<lambda>ci. res_bind (sub_usize nn i) (\<lambda>k.
       res_bind (nth_res s k) (\<lambda>sk. Ok (d XOR (ci AND sk)))))"
  let ?I = "\<lambda>i d. is_bit d \<and>
      gf d = poly s nn + (\<Sum>j\<in>{1..<i}. poly c j * poly s (nn - j))"
  have "\<exists>d. fold_res ?body [1..<l + 1] (s ! nn) = Ok d \<and> ?I (l + 1) d"
  proof (rule fold_res_range)
    show "?I 1 (s ! nn)" using bit [OF le(2)] le by (simp add: poly_def)
  next
    fix i d
    assume i: "1 \<le> i" "i < l + 1" and d: "?I i d"
    have "?body i d = Ok (d XOR (c ! i AND s ! (nn - i)))" using i le len by simp
    moreover have "poly c i = gf (c ! i)" "poly s (nn - i) = gf (s ! (nn - i))"
      using i le len by (auto simp: poly_def)
    then have "?I (Suc i) (d XOR (c ! i AND s ! (nn - i)))"
      using i d le bit [of "nn - i"]
      by (simp add: is_bit_xor is_bit_and sum.atLeastLessThan_Suc add.assoc)
    ultimately show "\<exists>d'. ?body i d = Ok d' \<and> ?I (Suc i) d'" by blast
  qed simp
  then show ?thesis
    using le one by (simp add: bm_discrepancy_def disc_def sum_from_zero del: upt_Suc)
qed

lemma bm_add_shifted_Ok:
  assumes len: "length b = length c" "Suc nn < length c" and m: "m \<le> Suc nn"
  shows "\<exists>c'. bm_add_shifted c b m nn = Ok c' \<and> length c' = length c \<and>
    (\<forall>i < length c. c' ! i = (if m \<le> i \<and> i \<le> Suc nn then c ! i XOR b ! (i - m) else c ! i))"
proof -
  let ?body = "\<lambda>j c. res_bind (nth_res b j) (\<lambda>bj. modify_res c (j + m) (\<lambda>x. x XOR bj))"
  let ?I = "\<lambda>j c'. length c' = length c \<and>
    (\<forall>i < length c. c' ! i = (if m \<le> i \<and> i < j + m then c ! i XOR b ! (i - m) else c ! i))"
  let ?n = "nn + 1 - m + 1"
  have "\<exists>c'. fold_res ?body [0..<?n] c = Ok c' \<and> ?I ?n c'"
  proof (rule fold_res_range)
    fix j c'
    assume j: "j < ?n" and I: "?I j c'"
    have "?body j c' = Ok (c'[j + m := c' ! (j + m) XOR b ! j])" using j I len m by simp
    moreover have "?I (Suc j) (c'[j + m := c' ! (j + m) XOR b ! j])"
      using j I len m by (auto simp: nth_list_update)
    ultimately show "\<exists>c''. ?body j c' = Ok c'' \<and> ?I (Suc j) c''" by blast
  qed auto
  then show ?thesis using m by (auto simp: bm_add_shifted_def less_Suc_eq_le simp del: upt_Suc)
qed

lemma bm_history_degree:
  "bm_history S n B L m \<Longrightarrow> Suc n - m < i \<Longrightarrow> B i = 0"
  by (auto simp: bm_history_def split: if_splits)

lemma bm_history_m_le: "bm_history S n B L m \<Longrightarrow> m \<le> Suc n"
  by (auto simp: bm_history_def split: if_splits)

lemma bm_add_shifted_poly:
  assumes len: "length b = length c" "Suc nn < length c" and B: "bm_history S nn (poly b) L m"
  shows "\<exists>c'. bm_add_shifted c b m nn = Ok c' \<and> length c' = length c \<and>
    poly c' = add_shift (poly c) (poly b) m"
proof -
  from bm_add_shifted_Ok [OF len bm_history_m_le [OF B]] obtain c' where
    c': "bm_add_shifted c b m nn = Ok c'" "length c' = length c"
      "\<forall>i < length c. c' ! i = (if m \<le> i \<and> i \<le> Suc nn then c ! i XOR b ! (i - m) else c ! i)"
    by blast
  have "poly c' i = add_shift (poly c) (poly b) m i" for i
  proof (cases "m \<le> i \<and> \<not> i \<le> Suc nn")
    case True
    then have "poly b (i - m) = 0" using bm_history_m_le [OF B] by (intro bm_history_degree [OF B]) auto
    with True c' show ?thesis by (simp add: poly_def add_shift_def)
  next
    case False
    with c' len show ?thesis by (auto simp: poly_def add_shift_def)
  qed
  with c' show ?thesis by blast
qed

section \<open>The routine returns the linear complexity\<close>

definition bm_invariant :: "bytes \<Rightarrow> nat \<Rightarrow> bm_state \<Rightarrow> bool" where
  "bm_invariant s nn st =
     (length (bm_c st) = Suc (length s) \<and> length (bm_b st) = Suc (length s) \<and> 1 \<le> bm_m st \<and>
      bm_shortest (poly s) nn (poly (bm_c st)) (bm_l st) \<and>
      bm_history (poly s) nn (poly (bm_b st)) (bm_l st) (bm_m st))"

lemma poly_one: "poly (1 # replicate n 0) i = (if i = 0 then 1 else 0)"
  by (auto simp: poly_def nth_Cons split: nat.split)

lemma bm_invariant_init: "bm_invariant s 0 (bm_init (length s))"
  by (auto simp: bm_invariant_def bm_init_def bm_shortest_def bm_history_def gen_upto_def poly_one)

lemma bm_invariant_step:
  assumes bits: "list_all is_bit s" and nn: "nn < length s" and inv: "bm_invariant s nn st"
  shows "\<exists>st'. bm_step s nn st = Ok st' \<and> bm_invariant s (Suc nn) st'"
proof -
  let ?l = "bm_l st"
  have C: "bm_shortest (poly s) nn (poly (bm_c st)) ?l"
    and B: "bm_history (poly s) nn (poly (bm_b st)) ?l (bm_m st)"
    and len: "length (bm_b st) = length (bm_c st)" "length (bm_c st) = Suc (length s)"
    and m: "1 \<le> bm_m st"
    using inv by (auto simp: bm_invariant_def)
  have l: "?l \<le> nn" "poly (bm_c st) 0 = 1" using C by (auto simp: bm_shortest_def gen_upto_def)
  from bm_discrepancy_Ok [OF bits len(2) l(1) nn l(2)] obtain d where
    d: "bm_discrepancy s (bm_c st) ?l nn = Ok d" "is_bit d"
       "gf d = disc (poly (bm_c st)) ?l (poly s) nn" by blast
  show ?thesis
  proof (cases "d = 0")
    case True
    with d C B inv show ?thesis
      by (auto simp: bm_step_def bm_invariant_def bm_shortest_same bm_history_same)
  next
    case False
    with d have ne: "disc (poly (bm_c st)) ?l (poly s) nn \<noteq> 0" by (auto simp: is_bit_def)
    from len nn have "Suc nn < length (bm_c st)" by simp
    from bm_add_shifted_poly [OF len(1) this B] obtain c' where
      c': "bm_add_shifted (bm_c st) (bm_b st) (bm_m st) nn = Ok c'" "length c' = length (bm_c st)"
        "poly c' = add_shift (poly (bm_c st)) (poly (bm_b st)) (bm_m st)" by blast
    note shortest = bm_shortest_corrected [OF C B ne m refl]
    show ?thesis
    proof (cases "2 * ?l \<le> nn")
      case True
      then have "max ?l (Suc nn - ?l) = Suc nn - ?l" by simp
      with True c' d False len l shortest bm_history_new [OF C ne True] show ?thesis
        by (simp add: bm_step_def bm_invariant_def)
    next
      case False
      then have "max ?l (Suc nn - ?l) = ?l" by simp
      with False \<open>d \<noteq> 0\<close> c' d len m shortest bm_history_same [OF B] show ?thesis
        by (simp add: bm_step_def bm_invariant_def)
    qed
  qed
qed

lemma lfsr_feedback_gf:
  assumes "list_all is_bit s" and "length cs \<le> k" "k < length s"
  shows "is_bit (lfsr_feedback cs s k) \<and>
    gf (lfsr_feedback cs s k) = (\<Sum>i<length cs. gf (cs ! i) * gf (s ! (k - Suc i)))"
proof -
  have bit: "is_bit (s ! (k - Suc i))" for i using assms by (simp add: list_all_length)
  have "is_bit (fold (\<lambda>i d. d XOR (cs ! i AND s ! (k - Suc i))) [0..<n] 0) \<and>
    gf (fold (\<lambda>i d. d XOR (cs ! i AND s ! (k - Suc i))) [0..<n] 0) =
      (\<Sum>i<n. gf (cs ! i) * gf (s ! (k - Suc i)))" for n
    by (induction n) (simp_all add: bit is_bit_xor is_bit_and, simp add: is_bit_def)
  then show ?thesis by (simp add: lfsr_feedback_def)
qed

lemma lfsr_generates_iff:
  assumes "list_all is_bit s"
  shows "lfsr_generates cs s \<longleftrightarrow> gen_upto (poly (1 # cs)) (length cs) (poly s) (length s)"
proof -
  have "s ! k = lfsr_feedback cs s k \<longleftrightarrow> disc (poly (1 # cs)) (length cs) (poly s) k = 0"
    if k: "length cs \<le> k" "k < length s" for k
  proof -
    have "disc (poly (1 # cs)) (length cs) (poly s) k =
      gf (s ! k) + (\<Sum>i<length cs. gf (cs ! i) * gf (s ! (k - Suc i)))"
    proof -
      have "poly (1 # cs) (Suc i) * poly s (k - Suc i) = gf (cs ! i) * gf (s ! (k - Suc i))"
        if "i < length cs" for i
      proof -
        have "k - Suc i < length s" using k by linarith
        with that show ?thesis by (simp add: poly_def)
      qed
      then have "(\<Sum>i<length cs. poly (1 # cs) (Suc i) * poly s (k - Suc i)) =
          (\<Sum>i<length cs. gf (cs ! i) * gf (s ! (k - Suc i)))" by (intro sum.cong) auto
      moreover have "poly (1 # cs) 0 * poly s (k - 0) = gf (s ! k)" using k by (simp add: poly_def)
      ultimately show ?thesis unfolding disc_def sum.atMost_shift by simp
    qed
    moreover have "is_bit (s ! k)" using assms k by (simp add: list_all_length)
    ultimately show ?thesis
      using lfsr_feedback_gf [OF assms k] gf_inj [of "s ! k" "lfsr_feedback cs s k"]
      by (simp add: gf2_add_eq_0)
  qed
  then show ?thesis by (auto simp: lfsr_generates_def gen_upto_def poly_def)
qed

lemma berlekamp_massey_spec:
  assumes "list_all is_bit s"
  shows "\<exists>l. berlekamp_massey s = Ok l \<and> (\<exists>cs. length cs = l \<and> lfsr_generates cs s) \<and>
    (\<forall>cs. lfsr_generates cs s \<longrightarrow> l \<le> length cs)"
proof -
  have "\<exists>st. fold_res (bm_step s) [0..<length s] (bm_init (length s)) = Ok st \<and>
      bm_invariant s (length s) st"
    by (rule fold_res_range [where I = "bm_invariant s"])
       (auto intro: bm_invariant_init bm_invariant_step [OF assms])
  then obtain st where st: "fold_res (bm_step s) [0..<length s] (bm_init (length s)) = Ok st"
      "bm_invariant s (length s) st" by blast
  let ?l = "bm_l st" and ?cs = "take (bm_l st) (tl (bm_c st))"
  have C: "bm_shortest (poly s) (length s) (poly (bm_c st)) ?l"
    and len: "length (bm_c st) = Suc (length s)"
    using st(2) by (auto simp: bm_invariant_def)
  then have l: "?l \<le> length s" and gen: "gen_upto (poly (bm_c st)) ?l (poly s) (length s)"
    by (auto simp: bm_shortest_def)
  have lcs: "length ?cs = ?l" using l len by simp
  have "poly (1 # ?cs) i = poly (bm_c st) i" if "i \<le> ?l" for i
    using that gen l len by (cases i) (auto simp: gen_upto_def poly_def nth_tl)
  then have "disc (poly (1 # ?cs)) ?l (poly s) k = disc (poly (bm_c st)) ?l (poly s) k" for k
    by (simp add: disc_def)
  with gen have "lfsr_generates ?cs s"
    unfolding lfsr_generates_iff [OF assms] lcs by (simp add: gen_upto_def poly_def)
  moreover have "?l \<le> length cs" if "lfsr_generates cs s" for cs
    using C that lfsr_generates_iff [OF assms] by (auto simp: bm_shortest_def)
  moreover have "berlekamp_massey s = Ok ?l" using st(1) by (simp add: berlekamp_massey_def)
  ultimately show ?thesis using lcs by blast
qed

text \<open>
  C22: on every bit sequence the routine terminates without an out-of-range access, and the number
  it returns is the linear complexity: a register of that length generates the sequence, and no
  shorter register does.
\<close>

theorem berlekamp_massey_linear_complexity:
  assumes "list_all is_bit s"
  shows "\<exists>l. berlekamp_massey s = Ok l \<and> (\<exists>cs. length cs = l \<and> lfsr_generates cs s) \<and>
    (\<forall>cs. lfsr_generates cs s \<longrightarrow> l \<le> length cs)"
  by (rule berlekamp_massey_spec [OF assms])

theorem berlekamp_massey_linear_complexity_witness:
  "berlekamp_massey [1, 1, 0, 1, 0, 1, 1, 1, 1, 0, 0, 0, 1] = Ok 4 \<and>
   (\<exists>cs. length cs = 4 \<and> lfsr_generates cs [1, 1, 0, 1, 0, 1, 1, 1, 1, 0, 0, 0, 1]) \<and>
   \<not> (\<exists>cs. length cs < 4 \<and> lfsr_generates cs [1, 1, 0, 1, 0, 1, 1, 1, 1, 0, 0, 0, 1])"
proof -
  let ?s = "[1, 1, 0, 1, 0, 1, 1, 1, 1, 0, 0, 0, 1]"
  have *: "berlekamp_massey ?s = Ok 4" by code_simp
  moreover have "list_all is_bit ?s" by (simp add: is_bit_def)
  from berlekamp_massey_linear_complexity [OF this] obtain l where
    l: "berlekamp_massey ?s = Ok l" "\<exists>cs. length cs = l \<and> lfsr_generates cs ?s"
      "\<forall>cs. lfsr_generates cs ?s \<longrightarrow> l \<le> length cs" by blast
  moreover from * l(1) have "l = 4" by simp
  ultimately show ?thesis by (auto simp: not_less)
qed

end
