(* ===== verification/StsStream.thy ===== *)
theory StsStream
  imports Kem BerlekampMassey
begin

text \<open>
  The bit stream of the statistical test suite, \<open>rust/src/bin/sts.rs\<close>: \<open>generate_bits\<close>
  encrypts successive windows of a printable corpus with the v8 block cipher until enough bytes
  are there, and unpacks them into bits. The theory rests on the block cipher and on the
  validation of the pinned key.
\<close>

section \<open>The generator\<close>

definition STS_SK :: bytes where
  "STS_SK = [0x9c, 0x6c, 0x0b, 0x92, 0x1a, 0x83, 0x84, 0x9c, 0xdb, 0xf2, 0xfe, 0x7e, 0xfb, 0x74, 0x3f, 0xe9,
     0x11, 0x22, 0x33, 0x44, 0x55, 0x66, 0x77, 0x88, 0x99, 0xaa, 0xbb, 0xcc, 0xdd, 0xee, 0xff, 0x00]"

definition STS_KEY :: "nat list" where
  "STS_KEY = [1000003, 1000033, 1000037, 1000039, 1000081, 1000099, 1000117, 1000121, 1000133, 1000151]"

text \<open>The printable ASCII characters, from the space to the tilde.\<close>

definition CORPUS :: str where
  "CORPUS = [0x20..<0x7F]"

text \<open>\<open>CORPUS.iter().cycle().skip(off).take(chunk_size)\<close>; ASCII bytes are their own scalar values.\<close>

definition corpus_window :: "nat \<Rightarrow> str" where
  "corpus_window off = map (\<lambda>j. CORPUS ! ((off + j) mod length CORPUS)) [0..<480]"

definition sts_chunk :: "mac \<Rightarrow> module_state \<Rightarrow> nat \<Rightarrow> (bytes, error) res" where
  "sts_chunk H m chunk_num =
     res_bind (mul_u64 chunk_num 480) (\<lambda>p.
       encrypt_bytes_v8 H m (corpus_window (p mod length CORPUS)) STS_KEY STS_SK (be_bytes 8 chunk_num))"

lemma sts_chunk_nonempty: "sts_chunk H m k = Ok ct \<Longrightarrow> ct \<noteq> []"
  by (auto simp: sts_chunk_def encrypt_bytes_v8_def encrypt_bytes_v8_with_profile_def
      encrypt_bytes_v8_core_def encrypt_bytes_v8_core_inner_def Let_def compute_auth_tag_def hmac_digest_def
      split: if_splits)

text \<open>The loop ends because no ciphertext is empty. A failed encryption is a panic (\<open>expect\<close>).\<close>

function sts_fill :: "mac \<Rightarrow> module_state \<Rightarrow> nat \<Rightarrow> nat \<Rightarrow> bytes \<Rightarrow> (bytes, error) res" where
  "sts_fill H m target chunk_num raw =
     (if length raw < target
      then case sts_chunk H m chunk_num of
             Ok ct \<Rightarrow> sts_fill H m target (chunk_num + 1) (raw @ ct)
           | Err e \<Rightarrow> Panic
           | Panic \<Rightarrow> Panic
      else Ok raw)"
  by auto
termination
  by (relation "measure (\<lambda>(H, m, target, chunk_num, raw). target - length raw)")
     (auto dest!: sts_chunk_nonempty intro!: diff_less_mono2)

declare sts_fill.simps [simp del]

text \<open>\<open>for shift in (0..8).rev() { bits.push((byte >> shift) & 1); }\<close>\<close>

definition byte_bits :: "byte \<Rightarrow> bytes" where
  "byte_bits b = map (\<lambda>shift. drop_bit shift b AND 1) (rev [0..<8])"

definition generate_bits :: "mac \<Rightarrow> module_state \<Rightarrow> nat \<Rightarrow> (bytes, error) res" where
  "generate_bits H m n =
     res_bind (add_u64 n 7) (\<lambda>s.
       let target_bytes = s div 8
       in res_bind (sts_fill H m target_bytes 0 []) (\<lambda>raw.
            Ok (take n (concat (map byte_bits (take target_bytes raw))))))"

section \<open>The pinned key\<close>

lemma STS_KEY_primes: "list_all is_prime STS_KEY"
  using sample_tuple_prime by (simp add: sample_tuple_def STS_KEY_def)

lemma validate_STS_KEY: "validate_key STS_KEY = Ok ()"
  using STS_KEY_primes by (simp add: validate_key_def STS_KEY_def key_consts)

lemma corpus_window_scalar: "list_all is_scalar (corpus_window off)"
proof -
  have "is_scalar c" if "c \<in> set CORPUS" for c
    using that by (auto simp: CORPUS_def is_scalar_def simp del: upt_rec_numeral)
  moreover have "CORPUS ! ((off + j) mod length CORPUS) \<in> set CORPUS" for j
    by (intro nth_mem) (simp add: CORPUS_def del: upt_rec_numeral)
  ultimately show ?thesis by (simp add: corpus_window_def list_all_iff del: upt_rec_numeral)
qed

lemma sts_chunk_Ok:
  assumes "fips_check m = Ok ()" and "k * 480 < u64_limit"
  obtains ct where "sts_chunk H m k = Ok ct" "length ct = 82288"
proof -
  let ?w = "corpus_window (k * 480 mod length CORPUS)"
  have len: "length ?w = 480" by (simp add: corpus_window_def)
  have blk: "block_size Bucket (length ?w) = Ok 512" unfolding len
    by (simp add: block_size.simps bucket_block_size_def bit_length_def bit_len_unique [of 8 480])
  have key: "safe_key STS_KEY" using validate_STS_KEY by (simp add: validate_key_Ok_iff valid_key_safe)
  have msg: "\<forall>c \<in> set ?w. is_scalar c" using corpus_window_scalar by (simp add: list_all_iff)
  have short: "length ?w < 2 ^ 16" unfolding len by simp
  obtain ct where "encrypt_bytes_v8_core H ?w STS_KEY STS_SK (be_bytes 8 k) Bucket = Ok ct"
      "length ct = 48 + 160 * (512 + 2)"
    by (rule block_round_trip_core [OF key msg short blk])
  then show thesis
    using that [of ct] assms validate_STS_KEY
    by (simp add: sts_chunk_def mul_u64_Ok encrypt_bytes_v8_def encrypt_bytes_v8_with_profile_def)
qed

section \<open>The stream\<close>

lemma sts_fill_Ok:
  assumes "fips_check m = Ok ()" and "target \<le> 2 ^ 60" and "length raw = 82288 * k"
  shows "\<exists>cts. sts_fill H m target k raw = Ok (raw @ concat cts) \<and>
    target \<le> length (raw @ concat cts) \<and> map (sts_chunk H m) [k..<k + length cts] = map Ok cts"
  using assms(3)
proof (induction "target - length raw" arbitrary: k raw rule: less_induct)
  case less
  show ?case
  proof (cases "length raw < target")
    case True
    with less.prems assms(2) have "k * 480 < u64_limit" by (simp add: u64_limit_def)
    from sts_chunk_Ok [OF assms(1) this] obtain ct where ct: "sts_chunk H m k = Ok ct" "length ct = 82288" .
    then have "\<exists>cts. sts_fill H m target (k + 1) (raw @ ct) = Ok ((raw @ ct) @ concat cts) \<and>
        target \<le> length ((raw @ ct) @ concat cts) \<and>
        map (sts_chunk H m) [k + 1..<k + 1 + length cts] = map Ok cts"
      using True less.prems by (intro less.hyps) auto
    then obtain cts where cts: "sts_fill H m target (k + 1) (raw @ ct) = Ok ((raw @ ct) @ concat cts)"
        "target \<le> length ((raw @ ct) @ concat cts)"
        "map (sts_chunk H m) [k + 1..<k + 1 + length cts] = map Ok cts" by blast
    have "[k..<k + length (ct # cts)] = k # [k + 1..<k + 1 + length cts]" by (simp add: upt_rec)
    with cts ct True show ?thesis
      by (intro exI [of _ "ct # cts"]) (simp add: sts_fill.simps [of H m target k raw])
  next
    case False
    then show ?thesis by (intro exI [of _ "[]"]) (simp add: sts_fill.simps)
  qed
qed

lemma length_byte_bits [simp]: "length (byte_bits b) = 8"
  by (simp add: byte_bits_def)

lemma byte_bits_are_bits: "list_all is_bit (byte_bits b)"
  by (auto simp: byte_bits_def list_all_iff is_bit_def and_one_eq mod2_eq_if)

lemma length_concat_byte_bits [simp]: "length (concat (map byte_bits bs)) = 8 * length bs"
  by (simp add: length_concat_const [of bs byte_bits 8])

lemma take_concat_byte_bits:
  "n \<le> 8 * t \<Longrightarrow> take n (concat (map byte_bits (take t bs))) = take n (concat (map byte_bits bs))"
proof (cases "t \<le> length bs")
  case True
  assume "n \<le> 8 * t"
  moreover have "concat (map byte_bits bs) = concat (map byte_bits (take t bs)) @ concat (map byte_bits (drop t bs))"
    by (simp flip: concat_append map_append)
  ultimately show ?thesis using True by simp
qed simp

lemma generate_bits_Ok:
  assumes "fips_check m = Ok ()" and "n < 2 ^ 63"
  shows "\<exists>bits cts. generate_bits H m n = Ok bits \<and> length bits = n \<and> list_all is_bit bits \<and>
    map (sts_chunk H m) [0..<length cts] = map Ok cts \<and>
    bits = take n (concat (map byte_bits (concat cts)))"
proof -
  let ?t = "(n + 7) div 8"
  have t: "?t \<le> 2 ^ 60" "n \<le> 8 * ?t" using assms(2) by auto
  from sts_fill_Ok [OF assms(1) t(1), of "[]" 0 H] obtain cts where
    cts: "sts_fill H m ?t 0 [] = Ok (concat cts)" "?t \<le> length (concat cts)"
      "map (sts_chunk H m) [0..<length cts] = map Ok cts" by auto
  let ?bits = "take n (concat (map byte_bits (concat cts)))"
  have "generate_bits H m n = Ok ?bits"
    using cts(1) assms(2) t(2)
    by (simp add: generate_bits_def add_u64_Ok u64_limit_def take_concat_byte_bits)
  moreover have "length ?bits = n" using cts(2) t(2) by (simp del: map_concat)
  moreover have "list_all is_bit ?bits"
    using byte_bits_are_bits by (auto simp: list_all_iff dest!: in_set_takeD)
  ultimately show ?thesis using cts(3) by blast
qed

text \<open>
  With the module operational, the generator of the test suite ends for every requested length
  and returns exactly that many bits, each zero or one: the leading bits of the concatenated
  ciphertexts of the numbered corpus windows. No encryption under the pinned key fails and no
  product overflows.
\<close>

lemma generate_bits_total:
  assumes "fips_check m = Ok ()" and "n < 2 ^ 63"
  shows "\<exists>bits cts. generate_bits H m n = Ok bits \<and> length bits = n \<and> list_all is_bit bits \<and>
    map (sts_chunk H m) [0..<length cts] = map Ok cts \<and>
    bits = take n (concat (map byte_bits (concat cts)))"
  by (rule generate_bits_Ok [OF assms])

end
