(* ===== verification/StsPatterns.thy ===== *)
theory StsPatterns
  imports BerlekampMassey
begin

text \<open>
  Pattern counting in the statistical test suite, \<open>rust/src/bin/sts.rs\<close>: the circular
  overlapping patterns of the serial and approximate-entropy tests (\<open>psi_sq\<close>), the
  aperiodic templates and the non-overlapping search for them (\<open>is_aperiodic\<close>,
  \<open>aperiodic_templates\<close>, \<open>count_notm\<close>), and the distance table of Maurer's test.
  The statistics are the integers the tests compute; \<open>StsTests\<close> derives the p-values from them.
\<close>

section \<open>Bits as a number\<close>

definition bits_to_usize :: "bytes \<Rightarrow> u64" where
  "bits_to_usize b = foldl (\<lambda>acc x. push_bit 1 acc OR ucast x) 0 b"

text \<open>The value of a bit list, most significant bit first.\<close>

definition bval :: "bytes \<Rightarrow> nat" where
  "bval bs = foldl (\<lambda>a b. 2 * a + unat b) 0 bs"

lemma bval_Nil [simp]: "bval [] = 0"
  by (simp add: bval_def)

lemma bval_snoc [simp]: "bval (bs @ [b]) = 2 * bval bs + unat b"
  by (simp add: bval_def)

lemma is_bit_unat: "is_bit b \<Longrightarrow> unat b \<le> 1"
  by (auto simp: is_bit_def)

lemma bval_less: "list_all is_bit bs \<Longrightarrow> bval bs < 2 ^ length bs"
proof (induction bs rule: rev_induct)
  case (snoc b bs)
  then show ?case using is_bit_unat [of b] by simp
qed simp

lemma bval_Cons: "bval (b # bs) = unat b * 2 ^ length bs + bval bs"
proof (induction bs rule: rev_induct)
  case (snoc x bs)
  have "bval (b # bs @ [x]) = 2 * bval (b # bs) + unat x" using bval_snoc [of "b # bs" x] by simp
  with snoc show ?case by simp
qed (simp add: bval_def)

lemma shift_in_bit: "is_bit b \<Longrightarrow> push_bit 1 w OR ucast b = 2 * w + (ucast b :: u64)"
  by (auto simp: is_bit_def or_one_eq push_bit_eq_mult)

lemma unat_shift_in:
  assumes "is_bit b"
  shows "unat (push_bit 1 w OR (ucast b :: u64)) = (2 * unat w + unat b) mod 2 ^ 64"
proof -
  have "unat (ucast b :: u64) = unat b" using assms by (auto simp: is_bit_def)
  then show ?thesis
    unfolding shift_in_bit [OF assms] by (simp add: unat_word_ariths mod_simps)
qed

lemma unat_bits_to_usize:
  "list_all is_bit bs \<Longrightarrow> length bs \<le> 64 \<Longrightarrow> unat (bits_to_usize bs) = bval bs"
proof (induction bs rule: rev_induct)
  case (snoc b bs)
  then have "bval (bs @ [b]) < 2 ^ length (bs @ [b])" by (intro bval_less)
  also have "\<dots> \<le> 2 ^ 64" using snoc.prems by (intro power_increasing) auto
  finally have small: "2 * bval bs + unat b < 2 ^ 64" by simp
  have "unat (bits_to_usize (bs @ [b])) = (2 * bval bs + unat b) mod 2 ^ 64"
    using snoc unat_shift_in [of b "bits_to_usize bs"] by (simp add: bits_to_usize_def)
  with small show ?case by simp
qed (simp add: bits_to_usize_def)

section \<open>Circular patterns\<close>

definition pattern_step :: "bytes \<Rightarrow> nat \<Rightarrow> nat \<Rightarrow> u64 \<times> nat list \<Rightarrow> (u64 \<times> nat list, error) res" where
  "pattern_step bits m i st =
     (case st of (pat, counts) \<Rightarrow>
        res_bind (nth_res bits ((i + m - 1) mod length bits)) (\<lambda>b.
          let pat = (push_bit 1 pat OR ucast b) AND (push_bit m 1 - 1)
          in res_bind (modify_res counts (unat pat) Suc) (\<lambda>counts. Ok (pat, counts))))"

definition pattern_counts :: "bytes \<Rightarrow> nat \<Rightarrow> (nat list, error) res" where
  "pattern_counts bits m =
     res_bind (sub_usize m 1) (\<lambda>k.
     res_bind (slice_res bits 0 k) (\<lambda>seed.
     res_bind (fold_res (pattern_step bits m) [0..<length bits] (bits_to_usize seed, replicate (2 ^ m) 0))
       (\<lambda>st. Ok (snd st))))"

text \<open>\<open>counts.iter().map(|&c| c * c).sum()\<close> over \<open>u64\<close>\<close>

definition sum_sq :: "nat list \<Rightarrow> (nat, error) res" where
  "sum_sq counts = fold_res (\<lambda>c acc. res_bind (mul_u64 c c) (\<lambda>q. add_u64 acc q)) counts 0"

text \<open>The \<open>m\<close> bits from position \<open>i\<close>, wrapping around the end.\<close>

definition gram :: "bytes \<Rightarrow> nat \<Rightarrow> nat \<Rightarrow> bytes" where
  "gram bits m i = map (\<lambda>j. bits ! ((i + j) mod length bits)) [0..<m]"

lemma length_gram [simp]: "length (gram bits m i) = m"
  by (simp add: gram_def)

lemma gram_bits: "list_all is_bit bits \<Longrightarrow> 0 < length bits \<Longrightarrow> list_all is_bit (gram bits m i)"
  by (simp add: gram_def list_all_length)

lemma gram_snoc: "gram bits (Suc k) i = gram bits k i @ [bits ! ((i + k) mod length bits)]"
  by (simp add: gram_def)

lemma gram_Cons: "gram bits (Suc k) i = bits ! (i mod length bits) # gram bits k (Suc i)"
  by (simp add: gram_def upt_conv_Cons map_Suc_upt [symmetric] del: upt_Suc)

lemma gram_start: "k \<le> length bits \<Longrightarrow> gram bits k 0 = take k bits"
  by (auto intro!: nth_equalityI simp: gram_def)

lemma unat_and_mask: "unat (x AND (push_bit n 1 - 1)) = unat x mod 2 ^ n" for x :: u64
proof -
  have "(push_bit n 1 - 1 :: u64) = mask n" by (simp add: mask_eq_decr_exp push_bit_of_1)
  then have "x AND (push_bit n 1 - 1) = take_bit n x" by (simp only: take_bit_eq_mask)
  then show ?thesis by (simp only: unsigned_take_bit_eq take_bit_eq_mod [where 'a = nat])
qed

lemma double_mod: "0 < q \<Longrightarrow> b \<le> 1 \<Longrightarrow> (2 * a + b) mod (2 * q) = 2 * (a mod q) + b" for a b q :: nat
proof -
  assume q: "0 < q" "b \<le> 1"
  have "2 * (x * q + y) + b = (2 * y + b) + x * (2 * q)" for x y by (simp add: algebra_simps)
  from this [of "a div q" "a mod q"] have "2 * a + b = (2 * (a mod q) + b) + a div q * (2 * q)"
    by (simp only: div_mult_mod_eq)
  then have "(2 * a + b) mod (2 * q) = (2 * (a mod q) + b) mod (2 * q)" by (simp only: mod_mult_self1)
  moreover have "2 * (a mod q) + b < 2 * q" using q mod_less_divisor [of q a] by linarith
  ultimately show ?thesis by simp
qed

lemma unat_masked:
  assumes "is_bit b" and "k < 64"
  shows "unat ((push_bit 1 w OR (ucast b :: u64)) AND (push_bit (Suc k) 1 - 1)) =
    2 * (unat w mod 2 ^ k) + unat b"
proof -
  have "unat ((push_bit 1 w OR (ucast b :: u64)) AND (push_bit (Suc k) 1 - 1)) =
      (2 * unat w + unat b) mod 2 ^ 64 mod 2 ^ Suc k"
    by (simp only: unat_and_mask unat_shift_in [OF assms(1)])
  also have "\<dots> = (2 * unat w + unat b) mod 2 ^ Suc k"
    using assms(2) by (intro mod_mod_cancel le_imp_power_dvd) simp
  also have "\<dots> = 2 * (unat w mod 2 ^ k) + unat b"
    unfolding power_Suc using is_bit_unat [OF assms(1)] by (intro double_mod) simp_all
  finally show ?thesis .
qed

lemma pattern_step_Ok:
  assumes bits: "list_all is_bit bits" and i: "i < length bits" and k: "k < 64"
    and pat: "unat pat mod 2 ^ k = bval (gram bits k i)" and len: "length counts = 2 ^ Suc k"
  shows "\<exists>pat'. pattern_step bits (Suc k) i (pat, counts) =
      Ok (pat', counts[bval (gram bits (Suc k) i) := Suc (counts ! bval (gram bits (Suc k) i))]) \<and>
    unat pat' mod 2 ^ k = bval (gram bits k (Suc i))"
proof -
  let ?b = "bits ! ((i + k) mod length bits)"
  have lt: "(i + k) mod length bits < length bits" using i by (intro mod_less_divisor) auto
  with bits have b: "is_bit ?b" by (simp add: list_all_length)
  let ?pat = "(push_bit 1 pat OR ucast ?b) AND (push_bit (Suc k) 1 - 1)"
  have new: "unat ?pat = bval (gram bits (Suc k) i)"
    unfolding unat_masked [OF b k] pat by (simp add: gram_snoc)
  have gb: "list_all is_bit (gram bits j l)" for j l using bits i by (intro gram_bits) auto
  have "unat ?pat < 2 ^ Suc k" unfolding new using bval_less [OF gb, of "Suc k" i] by simp
  moreover have "unat ?pat mod 2 ^ k = bval (gram bits k (Suc i))"
    unfolding new using bval_less [OF gb, of k "Suc i"] by (simp add: gram_Cons bval_Cons)
  ultimately show ?thesis
    using lt len new by (simp add: pattern_step_def Let_def del: power_Suc)
qed

lemma pattern_counts_Ok:
  assumes bits: "list_all is_bit bits" and k: "k < 64" "k \<le> length bits"
  shows "\<exists>counts. pattern_counts bits (Suc k) = Ok counts \<and> length counts = 2 ^ Suc k \<and>
    (\<forall>v < 2 ^ Suc k. counts ! v = card {i. i < length bits \<and> bval (gram bits (Suc k) i) = v})"
proof -
  let ?I = "\<lambda>i (st :: u64 \<times> nat list). unat (fst st) mod 2 ^ k = bval (gram bits k i) \<and> length (snd st) = 2 ^ Suc k \<and>
    (\<forall>v < 2 ^ Suc k. snd st ! v = card {j. j < i \<and> bval (gram bits (Suc k) j) = v})"
  let ?init = "(bits_to_usize (take k bits), replicate (2 ^ Suc k) 0)"
  have "\<exists>st. fold_res (pattern_step bits (Suc k)) [0..<length bits] ?init = Ok st \<and> ?I (length bits) st"
  proof (rule fold_res_range)
    have tb: "list_all is_bit (take k bits)" using bits by (auto simp: list_all_iff dest: in_set_takeD)
    then have "bval (take k bits) < 2 ^ k" using bval_less [OF tb] k by simp
    then show "?I 0 ?init"
      using tb k by (simp add: unat_bits_to_usize gram_start del: power_Suc)
  next
    fix i st
    assume i: "i < length bits" and I: "?I i st"
    let ?g = "bval (gram bits (Suc k) i)"
    obtain pat' where step: "pattern_step bits (Suc k) i st = Ok (pat', (snd st)[?g := Suc (snd st ! ?g)])"
        "unat pat' mod 2 ^ k = bval (gram bits k (Suc i))"
      using pattern_step_Ok [OF bits i k(1), of "fst st" "snd st"] I by auto
    have "card {j. j < Suc i \<and> bval (gram bits (Suc k) j) = v} =
        (if v = ?g then Suc else id) (card {j. j < i \<and> bval (gram bits (Suc k) j) = v})" for v
    proof -
      have "{j. j < Suc i \<and> bval (gram bits (Suc k) j) = v} =
          (if v = ?g then insert i else id) {j. j < i \<and> bval (gram bits (Suc k) j) = v}"
        by (auto simp: less_Suc_eq)
      then show ?thesis by simp
    qed
    with I step show "\<exists>st'. pattern_step bits (Suc k) i st = Ok st' \<and> ?I (Suc i) st'"
      by (simp add: nth_list_update del: power_Suc)
  qed simp
  then show ?thesis using k by (auto simp: pattern_counts_def simp del: power_Suc)
qed

lemma sum_sq_Ok:
  assumes "(\<Sum>c\<leftarrow>counts. c * c) < u64_limit"
  shows "sum_sq counts = Ok (\<Sum>c\<leftarrow>counts. c * c)"
proof -
  have "fold_res (\<lambda>c acc. res_bind (mul_u64 c c) (\<lambda>q. add_u64 acc q)) counts acc =
      (Ok (acc + (\<Sum>c\<leftarrow>counts. c * c)) :: (nat, error) res)" if "acc + (\<Sum>c\<leftarrow>counts. c * c) < u64_limit" for acc
    using that by (induction counts arbitrary: acc) (simp_all add: mul_u64_Ok add_u64_Ok add.assoc)
  with assms show ?thesis by (simp add: sum_sq_def)
qed

lemma sum_squares_le: "(\<Sum>c\<leftarrow>cs. c * c) \<le> sum_list cs * sum_list cs" for cs :: "nat list"
  by (induction cs) (auto simp: algebra_simps intro: add_mono)

lemma sum_list_counts:
  assumes "\<And>i. i < n \<Longrightarrow> f i < N"
    and "length counts = N" "\<forall>v < N. counts ! v = card {i. i < n \<and> f i = v}"
  shows "sum_list counts = n"
proof -
  have "sum_list counts = (\<Sum>v<N. card {i. i < n \<and> f i = v})"
    using assms(2,3) by (simp add: sum_list_sum_nth atLeast0LessThan)
  also have "\<dots> = card (\<Union>v\<in>{..<N}. {i. i < n \<and> f i = v})"
    by (rule card_UN_disjoint [symmetric]) auto
  also have "(\<Union>v\<in>{..<N}. {i. i < n \<and> f i = v}) = {..<n}" using assms(1) by auto
  finally show ?thesis by simp
qed

lemma pattern_counts_spec:
  assumes "list_all is_bit bits" and "0 < m" "m < 64" "m \<le> length bits + 1"
  shows "\<exists>counts. pattern_counts bits m = Ok counts \<and>
    counts = map (\<lambda>v. card {i. i < length bits \<and> bval (gram bits m i) = v}) [0..<2 ^ m] \<and>
    sum_list counts = length bits"
proof -
  obtain k where m: "m = Suc k" using assms(2) by (cases m) auto
  with assms obtain counts where c: "pattern_counts bits m = Ok counts" "length counts = 2 ^ m"
      "\<forall>v < 2 ^ m. counts ! v = card {i. i < length bits \<and> bval (gram bits m i) = v}"
    using pattern_counts_Ok [OF assms(1), of k] by auto
  have "bval (gram bits m i) < 2 ^ m" if "i < length bits" for i
    using bval_less [OF gram_bits [OF assms(1) le_less_trans [OF le0 that]], of m i] by simp
  from sum_list_counts [OF this c(2,3)] have "sum_list counts = length bits" by simp
  moreover have "counts = map (\<lambda>v. card {i. i < length bits \<and> bval (gram bits m i) = v}) [0..<2 ^ m]"
    using c(2,3) by (intro nth_equalityI) auto
  ultimately show ?thesis using c(1) by blast
qed

lemma pattern_counts_short: "length bits + 1 < m \<Longrightarrow> pattern_counts bits m = Panic"
  by (simp add: pattern_counts_def slice_res_def)

lemma sum_sq_small:
  assumes "sum_list counts < 2 ^ 32"
  shows "sum_sq counts = Ok (\<Sum>c\<leftarrow>counts. c * c)"
proof -
  have "(\<Sum>c\<leftarrow>counts. c * c) \<le> sum_list counts * sum_list counts" by (rule sum_squares_le)
  also have "\<dots> < 2 ^ 32 * 2 ^ 32" using assms by (intro mult_strict_mono) auto
  finally show ?thesis by (intro sum_sq_Ok) (simp add: u64_limit_def)
qed

section \<open>Templates\<close>

definition is_aperiodic :: "bytes \<Rightarrow> bool" where
  "is_aperiodic t =
     (\<not> list_ex (\<lambda>p. list_all (\<lambda>i. t ! i = t ! (i + p)) [0..<length t - p]) [1..<length t])"

definition template_bits :: "nat \<Rightarrow> nat \<Rightarrow> bytes" where
  "template_bits m v = map (\<lambda>i. of_nat (v div 2 ^ i mod 2)) (rev [0..<m])"

definition aperiodic_templates :: "nat \<Rightarrow> bytes list" where
  "aperiodic_templates m = filter is_aperiodic (map (template_bits m) [0..<2 ^ m])"

text \<open>
  The search loop. With an empty template the position would never move; that run is the value
  \<open>None\<close>.
\<close>

partial_function (option) count_notm_loop :: "bytes \<Rightarrow> bytes \<Rightarrow> nat \<Rightarrow> nat \<Rightarrow> nat option" where
  "count_notm_loop block tmpl i count =
     (if i + length tmpl \<le> length block
      then if take (length tmpl) (drop i block) = tmpl
           then count_notm_loop block tmpl (i + length tmpl) (count + 1)
           else count_notm_loop block tmpl (i + 1) count
      else Some count)"

definition count_notm :: "bytes \<Rightarrow> bytes \<Rightarrow> nat option" where
  "count_notm block tmpl = count_notm_loop block tmpl 0 0"

text \<open>An occurrence of the template, overlapping or not.\<close>

definition occurs_at :: "bytes \<Rightarrow> bytes \<Rightarrow> nat \<Rightarrow> bool" where
  "occurs_at block tmpl i = (i + length tmpl \<le> length block \<and> take (length tmpl) (drop i block) = tmpl)"

lemma occurs_at_nth: "occurs_at block t i \<Longrightarrow> k < length t \<Longrightarrow> t ! k = block ! (i + k)"
  unfolding occurs_at_def by (metis add_leD1 nth_drop nth_take)

lemma is_aperiodic_iff:
  "is_aperiodic t \<longleftrightarrow> \<not> (\<exists>p. 1 \<le> p \<and> p < length t \<and> (\<forall>i < length t - p. t ! i = t ! (i + p)))"
  by (auto simp: is_aperiodic_def list_ex_iff list_all_iff Ball_def Bex_def)

text \<open>Two occurrences of an aperiodic template do not overlap.\<close>

lemma aperiodic_disjoint:
  assumes "is_aperiodic t" "occurs_at block t i" "occurs_at block t j" "i < j"
  shows "i + length t \<le> j"
proof (rule ccontr)
  assume "\<not> i + length t \<le> j"
  then have p: "1 \<le> j - i" "j - i < length t" using assms(4) by auto
  have "t ! k = t ! (k + (j - i))" if "k < length t - (j - i)" for k
    using occurs_at_nth [OF assms(2), of "k + (j - i)"] occurs_at_nth [OF assms(3), of k] that assms(4)
    by (simp add: add.commute)
  with p assms(1) show False by (auto simp: is_aperiodic_iff)
qed

lemma finite_occurrences [simp]: "finite {j. i \<le> j \<and> occurs_at block t j}"
  by (rule finite_subset [of _ "{..length block}"]) (auto simp: occurs_at_def)

lemma count_notm_loop_aperiodic:
  assumes "is_aperiodic t" "t \<noteq> []"
  shows "count_notm_loop block t i count = Some (count + card {j. i \<le> j \<and> occurs_at block t j})"
proof (induction "length block - i" arbitrary: i count rule: less_induct)
  case less
  show ?case
  proof (cases "i + length t \<le> length block")
    case True
    then have i: "i < length block" using assms(2) by (cases t) auto
    show ?thesis
    proof (cases "occurs_at block t i")
      case here: True
      have "{j. i \<le> j \<and> occurs_at block t j} = insert i {j. i + length t \<le> j \<and> occurs_at block t j}"
        using here aperiodic_disjoint [OF assms(1) here] by (auto simp: le_less)
      then have "card {j. i \<le> j \<and> occurs_at block t j} =
          Suc (card {j. i + length t \<le> j \<and> occurs_at block t j})"
        using assms(2) by (simp add: card_insert_disjoint)
      moreover have "count_notm_loop block t (i + length t) (count + 1) =
          Some (count + 1 + card {j. i + length t \<le> j \<and> occurs_at block t j})"
        using i assms(2) by (intro less) (cases t; auto)
      ultimately show ?thesis
        using here by (simp add: count_notm_loop.simps [of block t i] occurs_at_def [of block t i])
    next
      case False
      then have "{j. i \<le> j \<and> occurs_at block t j} = {j. i + 1 \<le> j \<and> occurs_at block t j}"
        by (auto simp: Suc_le_eq le_less)
      moreover have "count_notm_loop block t (i + 1) count =
          Some (count + card {j. i + 1 \<le> j \<and> occurs_at block t j})"
        using i by (intro less) auto
      ultimately show ?thesis
        using False True by (simp add: count_notm_loop.simps [of block t i] occurs_at_def [of block t i])
    qed
  next
    case False
    then have "{j. i \<le> j \<and> occurs_at block t j} = {}" by (auto simp: occurs_at_def)
    with False show ?thesis by (simp add: count_notm_loop.simps)
  qed
qed

section \<open>Maurer's table of last positions\<close>

definition maurer_block :: "bytes \<Rightarrow> nat \<Rightarrow> (nat, error) res" where
  "maurer_block bits i = res_bind (slice_res bits (i * 7) ((i + 1) * 7)) (\<lambda>b. Ok (unat (bits_to_usize b)))"

definition maurer_init_step :: "bytes \<Rightarrow> nat \<Rightarrow> nat list \<Rightarrow> (nat list, error) res" where
  "maurer_init_step bits i t = res_bind (maurer_block bits i) (\<lambda>pat. modify_res t pat (\<lambda>_. i + 1))"

text \<open>The second loop adds the logarithms of the distances; here they are collected.\<close>

definition maurer_step :: "bytes \<Rightarrow> nat \<Rightarrow> nat list \<times> nat list \<Rightarrow> (nat list \<times> nat list, error) res" where
  "maurer_step bits i st =
     (case st of (t, ds) \<Rightarrow>
        res_bind (maurer_block bits i) (\<lambda>pat.
        res_bind (nth_res t pat) (\<lambda>last_pos.
        res_bind (sub_usize (i + 1) last_pos) (\<lambda>d.
        res_bind (modify_res t pat (\<lambda>_. i + 1)) (\<lambda>t. Ok (t, ds @ [d]))))))"

text \<open>With at most \<open>Q = 1280\<close> blocks the test answers the p-value zero without a table.\<close>

definition maurer_distances :: "bytes \<Rightarrow> (nat list option, error) res" where
  "maurer_distances bits =
     (let k = length bits div 7
      in if k \<le> 1280 then Ok None
         else res_bind (fold_res (maurer_init_step bits) [0..<1280] (replicate 128 0)) (\<lambda>t.
              res_bind (fold_res (maurer_step bits) [1280..<k] (t, [])) (\<lambda>st. Ok (Some (snd st)))))"

text \<open>The value of the \<open>i\<close>-th block, and the table after \<open>i\<close> blocks.\<close>

definition block_val :: "bytes \<Rightarrow> nat \<Rightarrow> nat" where
  "block_val bits i = bval (take 7 (drop (i * 7) bits))"

definition maurer_seen :: "bytes \<Rightarrow> nat \<Rightarrow> nat list \<Rightarrow> bool" where
  "maurer_seen bits i t =
     (length t = 128 \<and>
      (\<forall>v < 128. t ! v \<le> i \<and> (0 < t ! v \<longrightarrow> block_val bits (t ! v - 1) = v) \<and>
         (\<forall>j. t ! v \<le> j \<and> j < i \<longrightarrow> block_val bits j \<noteq> v)))"

lemma maurer_block_Ok:
  assumes "list_all is_bit bits" "i < length bits div 7"
  shows "maurer_block bits i = Ok (block_val bits i)" "block_val bits i < 128"
proof -
  let ?b = "take 7 (drop (i * 7) bits)"
  have "list_all is_bit ?b" using assms(1) by (auto simp: list_all_iff dest: in_set_takeD in_set_dropD)
  moreover have "length ?b = 7" "(i + 1) * 7 \<le> length bits" using assms(2) by auto
  ultimately show "maurer_block bits i = Ok (block_val bits i)" "block_val bits i < 128"
    using bval_less [of ?b]
    by (simp_all add: maurer_block_def block_val_def unat_bits_to_usize algebra_simps)
qed

lemma maurer_seen_update:
  assumes "maurer_seen bits i t" and "block_val bits i < 128"
  shows "maurer_seen bits (Suc i) (t[block_val bits i := i + 1])"
  using assms by (auto simp: maurer_seen_def nth_list_update less_Suc_eq le_Suc_eq)

text \<open>Every collected distance leads back to the last block with the same value.\<close>

definition good_distance :: "bytes \<Rightarrow> nat \<Rightarrow> nat \<Rightarrow> bool" where
  "good_distance bits i d =
     (1 \<le> d \<and> d \<le> i + 1 \<and> (d \<le> i \<longrightarrow> block_val bits (i - d) = block_val bits i) \<and>
      (\<forall>j. i < j + d \<and> j < i \<longrightarrow> block_val bits j \<noteq> block_val bits i))"

lemma good_distance_maurer_seen:
  "maurer_seen bits i t \<Longrightarrow> block_val bits i < 128 \<Longrightarrow> good_distance bits i (i + 1 - t ! block_val bits i)"
  by (auto simp: maurer_seen_def good_distance_def)

lemma maurer_init_Ok:
  assumes "list_all is_bit bits" and "n \<le> length bits div 7"
  shows "\<exists>t. fold_res (maurer_init_step bits) [0..<n] (replicate 128 0) = Ok t \<and> maurer_seen bits n t"
proof (rule fold_res_range)
  show "maurer_seen bits 0 (replicate 128 0)" by (simp add: maurer_seen_def)
next
  fix i t
  assume "i < n" and t: "maurer_seen bits i t"
  then have b: "maurer_block bits i = Ok (block_val bits i)" "block_val bits i < 128"
    using maurer_block_Ok [OF assms(1), of i] assms(2) by auto
  with t maurer_seen_update [OF t b(2)]
  show "\<exists>t'. maurer_init_step bits i t = Ok t' \<and> maurer_seen bits (Suc i) t'"
    by (auto simp: maurer_init_step_def maurer_seen_def)
qed simp

lemma maurer_distances_Ok:
  assumes "list_all is_bit bits" and k: "1280 < length bits div 7"
  shows "\<exists>ds. maurer_distances bits = Ok (Some ds) \<and> length ds = length bits div 7 - 1280 \<and>
    (\<forall>r < length ds. good_distance bits (1280 + r) (ds ! r))"
proof -
  let ?k = "length bits div 7"
  let ?I = "\<lambda>i (st :: nat list \<times> nat list). maurer_seen bits i (fst st) \<and> length (snd st) = i - 1280 \<and>
    (\<forall>r < i - 1280. good_distance bits (1280 + r) (snd st ! r))"
  from k obtain t where t: "fold_res (maurer_init_step bits) [0..<1280] (replicate 128 0) = Ok t"
      "maurer_seen bits 1280 t"
    using maurer_init_Ok [OF assms(1), of 1280] by auto
  have "\<exists>st. fold_res (maurer_step bits) [1280..<?k] (t, []) = Ok st \<and> ?I ?k st"
  proof (rule fold_res_range)
    show "?I 1280 (t, [])" using t by simp
  next
    fix i st
    assume i: "1280 \<le> i" "i < ?k" and I: "?I i st"
    obtain t ds where st: "st = (t, ds)" by fastforce
    with I have t: "maurer_seen bits i t" by simp
    note b = maurer_block_Ok [OF assms(1) i(2)]
    from t b(2) have "length t = 128" "t ! block_val bits i \<le> i" by (auto simp: maurer_seen_def)
    then have "maurer_step bits i st =
        Ok (t[block_val bits i := i + 1], ds @ [i + 1 - t ! block_val bits i])"
      using b by (simp add: maurer_step_def st)
    moreover have "good_distance bits (1280 + r) ((ds @ [i + 1 - t ! block_val bits i]) ! r)"
      if "r < Suc i - 1280" for r
      using that i I good_distance_maurer_seen [OF t b(2)]
      by (cases "r = i - 1280") (auto simp: st nth_append)
    ultimately show "\<exists>st'. maurer_step bits i st = Ok st' \<and> ?I (Suc i) st'"
      using I i maurer_seen_update [OF t b(2)] by (auto simp: st)
  qed (use k in simp)
  then obtain st where st: "fold_res (maurer_step bits) [1280..<?k] (t, []) = Ok st" "?I ?k st" by blast
  then have "maurer_distances bits = Ok (Some (snd st))"
    using t(1) k by (simp add: maurer_distances_def Let_def del: upt_rec_numeral)
  with st(2) show ?thesis by auto
qed

section \<open>Properties\<close>

text \<open>
  C26: the serial and approximate-entropy tests count exactly the circular patterns: for patterns of
  \<open>m\<close> bits over a sequence of at least \<open>m - 1\<close> bits the loop stays in range, entry
  \<open>v\<close> is the number of positions whose \<open>m\<close> wrapped-around bits have the value
  \<open>v\<close>, the entries add up to the number of positions, and for fewer than \<open>2^32\<close> bits
  the sum of squares does not overflow.
\<close>

theorem pattern_counts_exact:
  assumes "list_all is_bit bits" and "0 < m" "m < 64" "m \<le> length bits + 1"
    and "length bits < 2 ^ 32"
  shows "\<exists>counts. pattern_counts bits m = Ok counts \<and>
    counts = map (\<lambda>v. card {i. i < length bits \<and> bval (gram bits m i) = v}) [0..<2 ^ m] \<and>
    sum_list counts = length bits \<and> sum_sq counts = Ok (\<Sum>c\<leftarrow>counts. c * c)"
proof -
  from pattern_counts_spec [OF assms(1-4)] obtain counts where c: "pattern_counts bits m = Ok counts"
      "counts = map (\<lambda>v. card {i. i < length bits \<and> bval (gram bits m i) = v}) [0..<2 ^ m]"
      "sum_list counts = length bits" by blast
  moreover have "sum_sq counts = Ok (\<Sum>c\<leftarrow>counts. c * c)"
    using c(3) assms(5) by (intro sum_sq_small) simp
  ultimately show ?thesis by blast
qed

theorem pattern_counts_exact_witness:
  "\<exists>counts. pattern_counts [0, 1, 1, 0, 1] 2 = Ok counts \<and> sum_list counts = 5 \<and> counts = [0, 2, 2, 1]"
proof -
  have "pattern_counts [0, 1, 1, 0, 1] 2 = Ok [0, 2, 2, 1]" by code_simp
  with pattern_counts_exact [of "[0, 1, 1, 0, 1]" 2] show ?thesis by (auto simp: is_bit_def)
qed

text \<open>
  For an aperiodic template the non-overlapping search misses nothing: it ends and returns the
  number of all positions at which the template occurs.
\<close>

lemma count_notm_counts_all:
  assumes "is_aperiodic tmpl" "tmpl \<noteq> []"
  shows "count_notm block tmpl = Some (card {i. occurs_at block tmpl i})"
  using count_notm_loop_aperiodic [OF assms, of block 0 0] by (simp add: count_notm_def)

text \<open>
  A template may be rejected although none of its periods divides its length: the function tests
  every shift, not only the divisors.
\<close>

lemma is_aperiodic_rejects_border:
  "\<not> is_aperiodic [1, 0, 1] \<and>
   \<not> list_ex (\<lambda>p. 3 mod p = 0 \<and> list_all (\<lambda>i. [1, 0, 1 :: byte] ! i = [1, 0, 1] ! (i + p)) [0..<3 - p]) [1..<3]"
  by code_simp

end
