(* ===== verification/Floats.thy ===== *)
theory Floats
  imports Complex_Main F64
begin

text \<open>
  The \<open>f64\<close> arithmetic of \<open>rust/src/bin/sts.rs\<close>. The program is written once over a record
  of operations; \<open>b64_arith\<close> is IEEE 754 binary64 with infinities, NaN, signed zeros and
  subnormals, every operation rounding its exact result to nearest with ties to even.
  The transcendental functions of the standard library, whose precision Rust leaves
  unspecified, stay a parameter. \<open>exact_arith\<close> is arithmetic on real numbers, for the statements
  about an algorithm without its rounding errors.
\<close>

section \<open>Operations\<close>

text \<open>The field operations, and what the Fourier transform and the excursion probabilities use.\<close>

record 'f fring =
  f_add :: "'f \<Rightarrow> 'f \<Rightarrow> 'f"
  f_sub :: "'f \<Rightarrow> 'f \<Rightarrow> 'f"
  f_mul :: "'f \<Rightarrow> 'f \<Rightarrow> 'f"
  f_div :: "'f \<Rightarrow> 'f \<Rightarrow> 'f"
  f_neg :: "'f \<Rightarrow> 'f"
  f_sin :: "'f \<Rightarrow> 'f"
  f_cos :: "'f \<Rightarrow> 'f"
  f_pi :: 'f
  f_int :: "int \<Rightarrow> 'f"
  f_powi :: "'f \<Rightarrow> int \<Rightarrow> 'f"
  f_dec :: "int \<Rightarrow> nat \<Rightarrow> 'f"

text \<open>
  The rest: \<open>f_dec A m k\<close> is the literal \<open>m / 10^k\<close>, \<open>f_fmt A k x\<close> the text of \<open>x\<close> with
  \<open>k\<close> decimals, \<open>f_to_i64\<close> the saturating cast.
\<close>

record 'f farith = "'f fring" +
  f_abs :: "'f \<Rightarrow> 'f"
  f_sqrt :: "'f \<Rightarrow> 'f"
  f_exp :: "'f \<Rightarrow> 'f"
  f_ln :: "'f \<Rightarrow> 'f"
  f_log2 :: "'f \<Rightarrow> 'f"
  f_powf :: "'f \<Rightarrow> 'f \<Rightarrow> 'f"
  f_floor :: "'f \<Rightarrow> 'f"
  f_to_i64 :: "'f \<Rightarrow> int"
  f_min :: "'f \<Rightarrow> 'f \<Rightarrow> 'f"
  f_lt :: "'f \<Rightarrow> 'f \<Rightarrow> bool"
  f_le :: "'f \<Rightarrow> 'f \<Rightarrow> bool"
  f_inf :: 'f
  f_nan :: 'f
  f_is_nan :: "'f \<Rightarrow> bool"
  f_fmt :: "nat \<Rightarrow> 'f \<Rightarrow> string"

text \<open>What the special functions and the reports rely on.\<close>

locale float_laws =
  fixes A :: "'f farith"
  assumes reflect_half: "f_lt A x (f_dec A 5 1) \<Longrightarrow> \<not> f_lt A (f_sub A (f_dec A 1 0) x) (f_dec A 5 1)"
    and negate_zero: "f_lt A x (f_dec A 0 0) \<Longrightarrow> \<not> f_lt A (f_neg A x) (f_dec A 0 0)"
    and nan_is_nan: "f_is_nan A (f_nan A)"
    and nan_unordered: "f_is_nan A x \<Longrightarrow> \<not> f_le A y x"

section \<open>Binary64\<close>

text \<open>\<open>B_fin s m e\<close> is \<open>m * 2^e\<close>, negative when \<open>s\<close>.\<close>

datatype b64 = B_fin bool nat int | B_inf bool | B_nan

definition round_b64 :: "bool \<Rightarrow> nat \<Rightarrow> int \<Rightarrow> b64" where
  "round_b64 s m e =
     (let k = nat (max (int (bit_len m) - 53) (- 1074 - e));
          q = m div 2 ^ k;
          r = m mod 2 ^ k;
          u = (if k \<noteq> 0 \<and> (2 ^ (k - 1) < r \<or> r = 2 ^ (k - 1) \<and> odd q) then q + 1 else q)
      in if u \<noteq> 0 \<and> 1024 < int (bit_len u) + e + int k then B_inf s else B_fin s u (e + int k))"

text \<open>A fraction \<open>m / n * 2^e\<close>: at least 55 bits of the quotient and a sticky bit below them.\<close>

definition ratio_b64 :: "bool \<Rightarrow> nat \<Rightarrow> nat \<Rightarrow> int \<Rightarrow> b64" where
  "ratio_b64 s m n e =
     (let k = bit_len n + 55;
          q = m * 2 ^ k div n;
          sticky = (if m * 2 ^ k mod n = 0 then 0 else 1)
      in round_b64 s (2 * q + sticky) (e - int k - 1))"

definition signed_int :: "bool \<Rightarrow> nat \<Rightarrow> int" where
  "signed_int s m = (if s then - int m else int m)"

definition b64_int :: "int \<Rightarrow> b64" where
  "b64_int i = round_b64 (i < 0) (nat \<bar>i\<bar>) 0"

definition b64_dec :: "int \<Rightarrow> nat \<Rightarrow> b64" where
  "b64_dec m k = ratio_b64 (m < 0) (nat \<bar>m\<bar>) (10 ^ k) 0"

fun b64_neg :: "b64 \<Rightarrow> b64" where
  "b64_neg (B_fin s m e) = B_fin (\<not> s) m e"
| "b64_neg (B_inf s) = B_inf (\<not> s)"
| "b64_neg B_nan = B_nan"

fun b64_abs :: "b64 \<Rightarrow> b64" where
  "b64_abs (B_fin s m e) = B_fin False m e"
| "b64_abs (B_inf s) = B_inf False"
| "b64_abs B_nan = B_nan"

text \<open>Both operands over the smaller exponent; an exact zero is negative only for two negative zeros.\<close>

fun b64_add :: "b64 \<Rightarrow> b64 \<Rightarrow> b64" where
  "b64_add (B_fin s m e) (B_fin t n f) =
     (let g = min e f;
          c = signed_int s m * 2 ^ nat (e - g) + signed_int t n * 2 ^ nat (f - g)
      in round_b64 (c < 0 \<or> c = 0 \<and> s \<and> t) (nat \<bar>c\<bar>) g)"
| "b64_add (B_fin s m e) (B_inf t) = B_inf t"
| "b64_add (B_inf s) (B_fin t n f) = B_inf s"
| "b64_add (B_inf s) (B_inf t) = (if s = t then B_inf s else B_nan)"
| "b64_add B_nan y = B_nan"
| "b64_add x B_nan = B_nan"

definition b64_sub :: "b64 \<Rightarrow> b64 \<Rightarrow> b64" where
  "b64_sub x y = b64_add x (b64_neg y)"

fun b64_mul :: "b64 \<Rightarrow> b64 \<Rightarrow> b64" where
  "b64_mul (B_fin s m e) (B_fin t n f) = round_b64 (s \<noteq> t) (m * n) (e + f)"
| "b64_mul (B_fin s m e) (B_inf t) = (if m = 0 then B_nan else B_inf (s \<noteq> t))"
| "b64_mul (B_inf s) (B_fin t n f) = (if n = 0 then B_nan else B_inf (s \<noteq> t))"
| "b64_mul (B_inf s) (B_inf t) = B_inf (s \<noteq> t)"
| "b64_mul B_nan y = B_nan"
| "b64_mul x B_nan = B_nan"

fun b64_div :: "b64 \<Rightarrow> b64 \<Rightarrow> b64" where
  "b64_div (B_fin s m e) (B_fin t n f) =
     (if n = 0 then (if m = 0 then B_nan else B_inf (s \<noteq> t)) else ratio_b64 (s \<noteq> t) m n (e - f))"
| "b64_div (B_fin s m e) (B_inf t) = B_fin (s \<noteq> t) 0 0"
| "b64_div (B_inf s) (B_fin t n f) = B_inf (s \<noteq> t)"
| "b64_div (B_inf s) (B_inf t) = B_nan"
| "b64_div B_nan y = B_nan"
| "b64_div x B_nan = B_nan"

fun b64_sqrt :: "b64 \<Rightarrow> b64" where
  "b64_sqrt (B_fin s m e) =
     (if m = 0 then B_fin s 0 e
      else if s then B_nan
      else let (a, f) = (if even e then (m, e) else (2 * m, e - 1));
               r = nat_sqrt (a * 4 ^ 64);
               sticky = (if r * r = a * 4 ^ 64 then 0 else 1)
           in round_b64 False (2 * r + sticky) (f div 2 - 65))"
| "b64_sqrt (B_inf s) = (if s then B_nan else B_inf False)"
| "b64_sqrt B_nan = B_nan"

fun b64_lt :: "b64 \<Rightarrow> b64 \<Rightarrow> bool" where
  "b64_lt (B_fin s m e) (B_fin t n f) =
     (let g = min e f in signed_int s m * 2 ^ nat (e - g) < signed_int t n * 2 ^ nat (f - g))"
| "b64_lt (B_fin s m e) (B_inf t) = (\<not> t)"
| "b64_lt (B_inf s) (B_fin t n f) = s"
| "b64_lt (B_inf s) (B_inf t) = (s \<and> \<not> t)"
| "b64_lt B_nan y = False"
| "b64_lt x B_nan = False"

definition b64_le :: "b64 \<Rightarrow> b64 \<Rightarrow> bool" where
  "b64_le x y = (x \<noteq> B_nan \<and> y \<noteq> B_nan \<and> \<not> b64_lt y x)"

definition b64_min :: "b64 \<Rightarrow> b64 \<Rightarrow> b64" where
  "b64_min x y = (if x = B_nan then y else if y = B_nan then x else if b64_lt y x then y else x)"

fun b64_floor :: "b64 \<Rightarrow> b64" where
  "b64_floor (B_fin s m e) =
     (if 0 \<le> e then B_fin s m e
      else let c = signed_int s m div 2 ^ nat (- e) in B_fin s (nat \<bar>c\<bar>) 0)"
| "b64_floor x = x"

definition i64_clamp :: "int \<Rightarrow> int" where
  "i64_clamp i = max (- (2 ^ 63)) (min (2 ^ 63 - 1) i)"

fun b64_to_i64 :: "b64 \<Rightarrow> int" where
  "b64_to_i64 (B_fin s m e) =
     i64_clamp (signed_int s (if 0 \<le> e then m * 2 ^ nat e else m div 2 ^ nat (- e)))"
| "b64_to_i64 (B_inf s) = (if s then - (2 ^ 63) else 2 ^ 63 - 1)"
| "b64_to_i64 B_nan = 0"

text \<open>The digits of a fraction to \<open>k\<close> places, ties to even.\<close>

fun pad_digits :: "nat \<Rightarrow> nat \<Rightarrow> string" where
  "pad_digits 0 n = []"
| "pad_digits (Suc k) n = pad_digits k (n div 10) @ [char_of (48 + n mod 10)]"

definition div_even :: "nat \<Rightarrow> nat \<Rightarrow> nat" where
  "div_even a b =
     (let q = a div b; r = a mod b in if b < 2 * r \<or> 2 * r = b \<and> odd q then q + 1 else q)"

fun b64_fmt :: "nat \<Rightarrow> b64 \<Rightarrow> string" where
  "b64_fmt k (B_fin s m e) =
     (let v = (if 0 \<le> e then m * 2 ^ nat e * 10 ^ k else div_even (m * 10 ^ k) (2 ^ nat (- e)))
      in (if s then ''-'' else []) @ dec_string (v div 10 ^ k) @
         (if k = 0 then [] else CHR ''.'' # pad_digits k (v mod 10 ^ k)))"
| "b64_fmt k (B_inf s) = (if s then ''-inf'' else ''inf'')"
| "b64_fmt k B_nan = ''NaN''"

text \<open>The functions whose precision the standard library leaves open.\<close>

record libm =
  lm_sin :: "b64 \<Rightarrow> b64"
  lm_cos :: "b64 \<Rightarrow> b64"
  lm_exp :: "b64 \<Rightarrow> b64"
  lm_ln :: "b64 \<Rightarrow> b64"
  lm_log2 :: "b64 \<Rightarrow> b64"
  lm_powi :: "b64 \<Rightarrow> int \<Rightarrow> b64"
  lm_powf :: "b64 \<Rightarrow> b64 \<Rightarrow> b64"

definition b64_arith :: "libm \<Rightarrow> b64 farith" where
  "b64_arith lm =
     \<lparr>f_add = b64_add, f_sub = b64_sub, f_mul = b64_mul, f_div = b64_div, f_neg = b64_neg,
      f_sin = lm_sin lm, f_cos = lm_cos lm,
      f_pi = b64_dec 314159265358979323846264338327950288 35, f_int = b64_int,
      f_powi = lm_powi lm, f_dec = b64_dec,
      f_abs = b64_abs, f_sqrt = b64_sqrt, f_exp = lm_exp lm, f_ln = lm_ln lm, f_log2 = lm_log2 lm,
      f_powf = lm_powf lm, f_floor = b64_floor, f_to_i64 = b64_to_i64,
      f_min = b64_min, f_lt = b64_lt, f_le = b64_le,
      f_inf = B_inf False, f_nan = B_nan, f_is_nan = (\<lambda>x. x = B_nan), f_fmt = b64_fmt\<rparr>"

text \<open>Real numbers.\<close>

definition exact_arith :: "real fring" where
  "exact_arith =
     \<lparr>f_add = (+), f_sub = (-), f_mul = (*), f_div = (/), f_neg = uminus, f_sin = sin, f_cos = cos,
      f_pi = pi, f_int = of_int, f_powi = power_int, f_dec = (\<lambda>m k. of_int m / 10 ^ k)\<rparr>"

section \<open>Values and rounding\<close>

fun b64_val :: "b64 \<Rightarrow> real" where
  "b64_val (B_fin s m e) = of_int (signed_int s m) * 2 powi e"
| "b64_val _ = 0"

lemma bit_len_half: "2 \<le> m \<Longrightarrow> bit_len m = Suc (bit_len (m div 2))"
  by (subst bit_len.simps) simp

lemma bit_len_numeral [simp]:
  "bit_len 0 = 0" "bit_len (Suc 0) = 1" "bit_len 1 = 1"
  "bit_len (numeral (num.Bit0 n)) = Suc (bit_len (numeral n))"
  "bit_len (numeral (num.Bit1 n)) = Suc (bit_len (numeral n))"
  by (simp_all add: bit_len.simps [of 0] bit_len.simps [of "Suc 0"] bit_len_half)

lemma bit_len_bounds: "0 < m \<Longrightarrow> 2 ^ (bit_len m - 1) \<le> m \<and> m < 2 ^ bit_len m \<and> 0 < bit_len m"
proof (induction m rule: less_induct)
  case (less m)
  show ?case
  proof (cases "m < 2")
    case True
    with less.prems have "m = 1" by simp
    then show ?thesis by (simp add: bit_len.simps)
  next
    case False
    then have "m div 2 < m" "0 < m div 2" by auto
    from less.IH [OF this] have IH: "2 ^ (bit_len (m div 2) - 1) \<le> m div 2" "m div 2 < 2 ^ bit_len (m div 2)"
      "0 < bit_len (m div 2)" by auto
    have eq: "bit_len m = Suc (bit_len (m div 2))" using False by (intro bit_len_half) simp
    obtain b where b: "bit_len (m div 2) = Suc b" using IH(3) by (cases "bit_len (m div 2)") auto
    from IH b have "2 ^ b \<le> m div 2" "m div 2 < 2 * 2 ^ b" by auto
    then have "2 * 2 ^ b \<le> m \<and> m < 2 * (2 * 2 ^ b)" by linarith
    then show ?thesis unfolding eq b by simp
  qed
qed

text \<open>The distance to the exact value is at most half a unit in the last place kept.\<close>

lemma round_half_even_error:
  fixes m k :: nat
  defines "q \<equiv> m div 2 ^ k" and "r \<equiv> m mod 2 ^ k"
  defines "u \<equiv> (if k \<noteq> 0 \<and> (2 ^ (k - 1) < r \<or> r = 2 ^ (k - 1) \<and> odd q) then q + 1 else q)"
  shows "2 * \<bar>int u * 2 ^ k - int m\<bar> \<le> 2 ^ k" and "q \<le> u"
proof -
  have "m = q * 2 ^ k + r" unfolding q_def r_def by (rule div_mult_mod_eq [symmetric])
  then have "int m = int (q * 2 ^ k + r)" by simp
  then have m: "int m = int q * 2 ^ k + int r" by simp
  have "r < 2 ^ k" by (simp add: r_def)
  then have "int r < int (2 ^ k)" by (simp only: of_nat_less_iff)
  then have r: "int r < 2 ^ k" by simp
  show "2 * \<bar>int u * 2 ^ k - int m\<bar> \<le> 2 ^ k"
  proof (cases k)
    case 0
    then show ?thesis using r by (simp add: u_def m)
  next
    case (Suc j)
    consider "u = q + 1" "2 ^ j \<le> r" | "u = q" "r \<le> 2 ^ j"
      by (cases "2 ^ j < r \<or> r = 2 ^ j \<and> odd q") (auto simp: u_def Suc)
    then consider "u = q + 1" "int (2 ^ j) \<le> int r" | "u = q" "int r \<le> int (2 ^ j)"
      unfolding of_nat_le_iff .
    then show ?thesis
    proof cases
      case 1
      then have "int u * 2 ^ k - int m = 2 * 2 ^ j - int r" by (simp add: m Suc distrib_right)
      with 1 r Suc show ?thesis by simp
    next
      case 2
      then have "int u * 2 ^ k - int m = - int r" by (simp add: m)
      with 2 Suc show ?thesis by simp
    qed
  qed
  show "q \<le> u" by (simp add: u_def)
qed

lemma signed_int_abs: "\<bar>signed_int s m\<bar> = int m"
  by (simp add: signed_int_def)

lemma round_b64_cases:
  obtains (overflow) "round_b64 s m e = B_inf s"
  | (finite) u k where "round_b64 s m e = B_fin s u (e + int k)"
    "2 * \<bar>int u * 2 ^ k - int m\<bar> \<le> 2 ^ k" "m div 2 ^ k \<le> u"
    "int k = max 0 (max (int (bit_len m) - 53) (- 1074 - e))"
proof -
  let ?k = "nat (max (int (bit_len m) - 53) (- 1074 - e))"
  let ?q = "m div 2 ^ ?k" and ?r = "m mod 2 ^ ?k"
  let ?u = "if ?k \<noteq> 0 \<and> (2 ^ (?k - 1) < ?r \<or> ?r = 2 ^ (?k - 1) \<and> odd ?q) then ?q + 1 else ?q"
  have eq: "round_b64 s m e =
      (if ?u \<noteq> 0 \<and> 1024 < int (bit_len ?u) + e + int ?k then B_inf s else B_fin s ?u (e + int ?k))"
    unfolding round_b64_def Let_def ..
  show thesis
  proof (cases "?u \<noteq> 0 \<and> 1024 < int (bit_len ?u) + e + int ?k")
    case True
    with eq show thesis by (intro overflow) (simp only: if_True simp_thms)
  next
    case False
    with eq have "round_b64 s m e = B_fin s ?u (e + int ?k)" by (simp only: if_False simp_thms)
    moreover have "int ?k = max 0 (max (int (bit_len m) - 53) (- 1074 - e))" by linarith
    ultimately show thesis using round_half_even_error(1) [of ?k m] round_half_even_error(2) [of m ?k] by (intro finite)
  qed
qed

lemma shift_powi: "g \<le> e \<Longrightarrow> 2 ^ nat (e - g) * 2 powi g = (2 powi e :: real)"
proof -
  assume "g \<le> e"
  then have "2 ^ nat (e - g) = (2 powi (e - g) :: real)" by (simp add: power_int_def)
  then show ?thesis by (simp flip: power_int_add)
qed

lemma aligned_val:
  "g \<le> e \<Longrightarrow> b64_val (B_fin s m e) = of_int (signed_int s m * 2 ^ nat (e - g)) * 2 powi g"
  by (simp add: mult.assoc shift_powi)

lemma b64_lt_fin: "b64_lt (B_fin s m e) (B_fin t n f) \<longleftrightarrow> b64_val (B_fin s m e) < b64_val (B_fin t n f)"
proof -
  let ?g = "min e f"
  have "b64_val (B_fin s m e) < b64_val (B_fin t n f) \<longleftrightarrow>
      real_of_int (signed_int s m * 2 ^ nat (e - ?g)) * 2 powi ?g < real_of_int (signed_int t n * 2 ^ nat (f - ?g)) * 2 powi ?g"
    by (simp only: aligned_val [of ?g e] aligned_val [of ?g f] min.cobounded1 min.cobounded2)
  also have "\<dots> \<longleftrightarrow> b64_lt (B_fin s m e) (B_fin t n f)"
    by (simp only: mult_less_cancel_right_pos zero_less_power_int zero_less_numeral of_int_less_iff b64_lt.simps Let_def)
  finally show ?thesis ..
qed

text \<open>Addition rounds the exact sum.\<close>

lemma b64_add_fin:
  obtains z c g where "b64_add (B_fin s m e) (B_fin t n f) = round_b64 z (nat \<bar>c\<bar>) g"
    "of_int c * 2 powi g = b64_val (B_fin s m e) + b64_val (B_fin t n f)" "z = (c < 0 \<or> c = 0 \<and> s \<and> t)"
proof -
  let ?g = "min e f"
  let ?c = "signed_int s m * 2 ^ nat (e - ?g) + signed_int t n * 2 ^ nat (f - ?g)"
  show thesis
  proof (rule that)
    show "b64_add (B_fin s m e) (B_fin t n f) = round_b64 (?c < 0 \<or> ?c = 0 \<and> s \<and> t) (nat \<bar>?c\<bar>) ?g"
      by (simp only: b64_add.simps Let_def)
    show "of_int ?c * 2 powi ?g = b64_val (B_fin s m e) + b64_val (B_fin t n f)"
      by (simp only: aligned_val [of ?g e] aligned_val [of ?g f] min.cobounded1 min.cobounded2 of_int_add distrib_right)
  qed simp
qed

text \<open>Rounding never crosses a power of two.\<close>

lemma round_b64_ge:
  assumes "2 powi j \<le> real m * 2 powi e" and "- 1074 \<le> j"
  shows "round_b64 False m e = B_inf False \<or>
    (\<exists>u f. round_b64 False m e = B_fin False u f \<and> 2 powi j \<le> b64_val (B_fin False u f))"
proof (cases rule: round_b64_cases [of False m e])
  case (finite u k)
  have "0 < (2 powi j :: real)" by simp
  with assms(1) have m0: "0 < m" by (cases m) auto
  have "2 powi j \<le> real u * 2 powi (e + int k)"
  proof (cases "e + int k \<le> j")
    case True
    have "2 powi j = 2 ^ nat (j - e) * (2 powi e :: real)" using True by (intro shift_powi [symmetric]) simp
    with assms(1) have "2 ^ nat (j - e) \<le> real m" by (simp add: mult_le_cancel_right)
    then have "2 ^ nat (j - e) \<le> m" by (metis of_nat_le_iff of_nat_numeral of_nat_power)
    moreover have "nat (j - e) = nat (j - (e + int k)) + k" using True by simp
    ultimately have "2 ^ nat (j - (e + int k)) * 2 ^ k \<le> m" by (simp add: power_add)
    then have "2 ^ nat (j - (e + int k)) \<le> m div 2 ^ k" by (simp add: less_eq_div_iff_mult_less_eq)
    with finite(3) have "2 ^ nat (j - (e + int k)) \<le> u" by linarith
    then have "2 ^ nat (j - (e + int k)) \<le> real u" by (metis of_nat_le_iff of_nat_numeral of_nat_power)
    then show ?thesis unfolding shift_powi [OF True, symmetric] by (intro mult_right_mono) auto
  next
    case False
    have "2 ^ k \<le> m"
    proof (cases "k = 0")
      case True
      with m0 show ?thesis by simp
    next
      case k: False
      then have "int k = int (bit_len m) - 53 \<or> e + int k = - 1074" using finite(4) by linarith
      with False assms(2) k have "k \<le> bit_len m - 1" by linarith
      then have "(2 :: nat) ^ k \<le> 2 ^ (bit_len m - 1)" by (intro power_increasing) auto
      also have "\<dots> \<le> m" using bit_len_bounds [OF m0] by blast
      finally show ?thesis .
    qed
    then have "1 \<le> m div 2 ^ k" by (simp add: less_eq_div_iff_mult_less_eq)
    with finite(3) have "1 \<le> real u" by linarith
    moreover have "(2 powi j :: real) \<le> 2 powi (e + int k)" using False by (intro power_int_increasing) auto
    ultimately show ?thesis by (metis dual_order.trans mult_1 mult_right_mono zero_le_numeral zero_le_power_int)
  qed
  with finite(1) show ?thesis by (simp add: signed_int_def)
qed simp

text \<open>The relative error of a result that is neither too small nor too large.\<close>

lemma round_b64_error:
  assumes "round_b64 s m e = B_fin z u f" and "2 powi (- 1022) \<le> real m * 2 powi e"
  shows "\<bar>b64_val (B_fin z u f) - b64_val (B_fin s m e)\<bar> \<le> 2 powi (- 53) * (real m * 2 powi e)"
proof (cases rule: round_b64_cases [of s m e])
  case (finite w k)
  with assms(1) have eq: "z = s" "u = w" "f = e + int k" by auto
  have "0 < (2 powi (- 1022) :: real)" by simp
  with assms(2) have m0: "0 < m" by (cases m) auto
  have pos: "0 < (2 powi e :: real)" by simp
  have k: "int k \<le> max 0 (int (bit_len m) - 53)"
  proof (rule ccontr)
    assume "\<not> int k \<le> max 0 (int (bit_len m) - 53)"
    then have "int k = - 1074 - e" "int (bit_len m) + e < - 1021" using finite(4) by linarith+
    then have "int (bit_len m) + e \<le> - 1022" by simp
    have "real m < 2 ^ bit_len m" using bit_len_bounds [OF m0] by (metis of_nat_less_iff of_nat_numeral of_nat_power)
    then have "real m * 2 powi e < 2 ^ bit_len m * 2 powi e" using pos by (rule mult_strict_right_mono)
    also have "\<dots> = 2 powi (int (bit_len m) + e)" by (simp add: power_int_add)
    also have "\<dots> \<le> 2 powi (- 1022)" using \<open>int (bit_len m) + e \<le> - 1022\<close> by (intro power_int_increasing) auto
    finally show False using assms(2) by simp
  qed
  have "real_of_int (2 * \<bar>int u * 2 ^ k - int m\<bar>) \<le> real_of_int (2 ^ k)"
    using finite(2) unfolding eq of_int_le_iff .
  then have "2 * \<bar>real u * 2 ^ k - real m\<bar> \<le> 2 ^ k" by simp
  moreover have "(2 :: real) ^ k \<le> 2 powi (- 52) * real m" if "k \<noteq> 0"
  proof -
    have "int k + 52 = int (bit_len m - 1)" using that k finite(4) by linarith
    then have "bit_len m - 1 = k + 52" by linarith
    then have "(2 :: real) ^ k = 2 powi (- 52) * 2 ^ (bit_len m - 1)"
      by (simp add: power_add power_int_minus del: One_nat_def)
    also have "\<dots> \<le> 2 powi (- 52) * real m"
      using bit_len_bounds [OF m0] by (intro mult_left_mono) (metis of_nat_le_iff of_nat_numeral of_nat_power, simp)
    finally show ?thesis .
  qed
  moreover have "int u = int m" if "k = 0"
    using finite(2) unfolding eq that power_0 mult_1_right by arith
  ultimately have "\<bar>real u * 2 ^ k - real m\<bar> \<le> 2 powi (- 53) * real m"
    by (cases "k = 0") (auto simp: power_int_minus field_simps)
  then have "\<bar>real u * 2 ^ k - real m\<bar> * 2 powi e \<le> 2 powi (- 53) * real m * 2 powi e"
    using pos by (intro mult_right_mono) auto
  moreover have "b64_val (B_fin z u f) - b64_val (B_fin s m e) =
      (if s then - 1 else 1) * (real u * 2 ^ k - real m) * 2 powi e"
    by (simp add: eq signed_int_def power_int_add algebra_simps)
  then have "\<bar>b64_val (B_fin z u f) - b64_val (B_fin s m e)\<bar> = \<bar>real u * 2 ^ k - real m\<bar> * 2 powi e"
    using pos by (simp add: abs_mult)
  ultimately show ?thesis by (simp add: mult.assoc)
qed (use assms(1) in simp)

lemma b64_int_exact:
  assumes "\<bar>i\<bar> < 2 ^ 53"
  shows "b64_int i = B_fin (i < 0) (nat \<bar>i\<bar>) 0" and "b64_val (b64_int i) = of_int i"
proof -
  have "bit_len (nat \<bar>i\<bar>) \<le> 53"
  proof (cases "nat \<bar>i\<bar> = 0")
    case False
    then have "2 ^ (bit_len (nat \<bar>i\<bar>) - 1) \<le> nat \<bar>i\<bar>" using bit_len_bounds by blast
    also have "\<dots> < 2 ^ 53" using assms by simp
    finally have "bit_len (nat \<bar>i\<bar>) - 1 < 53" by (rule power_less_imp_less_exp [rotated]) simp
    then show ?thesis by simp
  qed (simp add: bit_len.simps)
  then show *: "b64_int i = B_fin (i < 0) (nat \<bar>i\<bar>) 0" by (simp add: b64_int_def round_b64_def)
  show "b64_val (b64_int i) = of_int i" unfolding * by (simp add: signed_int_def)
qed

section \<open>The laws hold for binary64\<close>

lemma b64_half: "b64_dec 5 1 = B_fin False (2 ^ 52) (- 53)"
proof -
  have "ratio_b64 False 5 10 0 = round_b64 False (2 ^ 59) (- 60)" by (simp add: ratio_b64_def)
  also have "\<dots> = B_fin False (2 ^ 52) (- 53)" by (simp add: round_b64_def)
  finally show ?thesis by (simp add: b64_dec_def)
qed

lemma b64_one: "b64_dec 1 0 = B_fin False (2 ^ 52) (- 52)"
proof -
  have "ratio_b64 False 1 1 0 = round_b64 False (2 ^ 57) (- 57)" by (simp add: ratio_b64_def)
  also have "\<dots> = B_fin False (2 ^ 52) (- 52)" by (simp add: round_b64_def)
  finally show ?thesis by (simp add: b64_dec_def)
qed

lemma b64_zero: "b64_dec 0 0 = B_fin False 0 (- 57)"
  by (simp add: b64_dec_def ratio_b64_def round_b64_def)

lemma b64_reflect_half:
  assumes "b64_lt x (b64_dec 5 1)"
  shows "\<not> b64_lt (b64_sub (b64_dec 1 0) x) (b64_dec 5 1)"
proof (cases x)
  case (B_fin s m e)
  let ?half = "b64_dec 5 1" and ?one = "b64_dec 1 0"
  have vals: "b64_val ?half = 1 / 2" "b64_val ?one = 1"
    by (simp_all add: b64_half b64_one signed_int_def power_int_minus del: One_nat_def)
  from assms have x: "b64_val x < 1 / 2" unfolding B_fin b64_half b64_lt_fin by (simp add: signed_int_def power_int_minus)
  obtain z c g where c: "b64_sub ?one x = round_b64 z (nat \<bar>c\<bar>) g" "z = (c < 0 \<or> c = 0 \<and> False \<and> \<not> s)"
    "of_int c * 2 powi g = b64_val ?one + b64_val (B_fin (\<not> s) m e)"
    unfolding b64_sub_def B_fin b64_one b64_neg.simps by (rule b64_add_fin)
  have "b64_val (B_fin (\<not> s) m e) = - b64_val x" by (simp add: B_fin signed_int_def)
  with c(3) x vals have big: "1 / 2 \<le> of_int c * (2 powi g :: real)" by simp
  have "0 < c"
  proof (rule ccontr)
    assume "\<not> 0 < c"
    then have "of_int c * (2 powi g :: real) \<le> 0" by (intro mult_nonpos_nonneg) auto
    with big show False by simp
  qed
  with big have "2 powi (- 1) \<le> real (nat \<bar>c\<bar>) * 2 powi g" by (simp add: power_int_def)
  from round_b64_ge [OF this] c(1,2) \<open>0 < c\<close> show ?thesis
    by (auto simp: b64_half b64_lt_fin power_int_minus signed_int_def simp del: b64_lt.simps(1) One_nat_def)
qed (use assms in \<open>auto simp: b64_sub_def b64_half b64_one simp del: One_nat_def\<close>)

lemma b64_negate_zero: "b64_lt x (b64_dec 0 0) \<Longrightarrow> \<not> b64_lt (b64_neg x) (b64_dec 0 0)"
  by (cases x) (auto simp: b64_zero signed_int_def mult_less_0_iff)

interpretation b64: float_laws "b64_arith lm" for lm
proof
qed (auto simp: b64_arith_def b64_le_def b64_reflect_half b64_negate_zero simp del: One_nat_def)

end
