(* ===== verification/StsMath.thy ===== *)
theory StsMath
  imports Floats
begin

text \<open>
  The special functions of \<open>rust/src/bin/sts.rs\<close> (\<open>lgamma\<close>, \<open>igam_series\<close>,
  \<open>igam_cf\<close>, \<open>igamc\<close>, \<open>erfc\<close>, \<open>normal_cdf\<close>), operation by operation in the
  order of the code. \<open>lgamma\<close> and \<open>erfc\<close> call themselves without a bound; they are
  partial functions whose value is \<open>None\<close> when the recursion does not end.
\<close>

section \<open>Constants and sums\<close>

definition SQRT_2 :: "'f farith \<Rightarrow> 'f" where
  "SQRT_2 A = f_dec A 141421356237309504880168872420969808 35"

definition EPSILON :: "'f farith \<Rightarrow> 'f" where
  "EPSILON A = f_dec A 22204460492503131 32"

text \<open>
  The sum over an iterator, from positive zero; a library that starts at negative zero gives the
  same sums but for the sign of a zero, on which no result below depends.
\<close>

definition f_sum :: "'f farith \<Rightarrow> 'f list \<Rightarrow> 'f" where
  "f_sum A xs = foldl (f_add A) (f_dec A 0 0) xs"

section \<open>Logarithm of the gamma function\<close>

definition lgamma_C :: "'f farith \<Rightarrow> 'f list" where
  "lgamma_C A =
     [f_dec A 99999999999980993 17, f_dec A 6765203681218851 13, f_dec A (- 12591392167224028) 13,
      f_dec A 77132342877765313 14, f_dec A (- 17661502916214059) 14, f_dec A 12507343278686905 15,
      f_dec A (- 13857109526572012) 17, f_dec A 99843695780195716 22, f_dec A 15056327351493116 23]"

definition lgamma_upper :: "'f farith \<Rightarrow> 'f \<Rightarrow> 'f" where
  "lgamma_upper A x =
     (let xm1 = f_sub A x (f_dec A 1 0);
          t = f_add A (f_add A xm1 (f_dec A 7 0)) (f_dec A 5 1);
          ser = f_add A (lgamma_C A ! 0)
                  (f_sum A (map (\<lambda>i. f_div A (lgamma_C A ! i) (f_add A xm1 (f_int A (int i)))) [1..<9]))
      in f_sub A
           (f_add A
              (f_add A (f_mul A (f_dec A 5 1) (f_ln A (f_mul A (f_dec A 2 0) (f_pi A)))) (f_ln A ser))
              (f_mul A (f_add A xm1 (f_dec A 5 1)) (f_ln A t)))
           t)"

partial_function (option) lgamma :: "'f farith \<Rightarrow> 'f \<Rightarrow> 'f option" where
  "lgamma A x =
     (if f_lt A x (f_dec A 5 1)
      then Option.bind (lgamma A (f_sub A (f_dec A 1 0) x)) (\<lambda>g.
             Some (f_sub A (f_ln A (f_div A (f_pi A) (f_sin A (f_mul A (f_pi A) x)))) g))
      else Some (lgamma_upper A x))"

section \<open>Incomplete gamma function\<close>

text \<open>The series, at most 300 terms; the arguments are \<open>ap\<close>, \<open>del\<close> and \<open>sum\<close>.\<close>

fun igam_series_loop :: "'f farith \<Rightarrow> 'f \<Rightarrow> nat \<Rightarrow> 'f \<Rightarrow> 'f \<Rightarrow> 'f \<Rightarrow> 'f" where
  "igam_series_loop A x 0 ap del acc = acc"
| "igam_series_loop A x (Suc k) ap del acc =
     (let ap = f_add A ap (f_dec A 1 0);
          del = f_mul A del (f_div A x ap);
          acc = f_add A acc del
      in if f_lt A (f_abs A del) (f_mul A (f_abs A acc) (EPSILON A)) then acc
         else igam_series_loop A x k ap del acc)"

text \<open>The factor \<open>exp(-x + a ln x - lgamma a)\<close> of both expansions.\<close>

definition igam_scale :: "'f farith \<Rightarrow> 'f \<Rightarrow> 'f \<Rightarrow> 'f \<Rightarrow> 'f option" where
  "igam_scale A a x v =
     Option.bind (lgamma A a) (\<lambda>g.
       Some (f_mul A v (f_exp A (f_sub A (f_add A (f_neg A x) (f_mul A a (f_ln A x))) g))))"

definition igam_series :: "'f farith \<Rightarrow> 'f \<Rightarrow> 'f \<Rightarrow> 'f option" where
  "igam_series A a x =
     (let del = f_div A (f_dec A 1 0) a in igam_scale A a x (igam_series_loop A x 300 a del del))"

definition FPMIN :: "'f farith \<Rightarrow> 'f" where
  "FPMIN A = f_dec A 1 300"

definition at_least_FPMIN :: "'f farith \<Rightarrow> 'f \<Rightarrow> 'f" where
  "at_least_FPMIN A d = (if f_lt A (f_abs A d) (FPMIN A) then FPMIN A else d)"

fun igam_cf_loop :: "'f farith \<Rightarrow> 'f \<Rightarrow> nat list \<Rightarrow> 'f \<Rightarrow> 'f \<Rightarrow> 'f \<Rightarrow> 'f \<Rightarrow> 'f" where
  "igam_cf_loop A a [] b c d h = h"
| "igam_cf_loop A a (i # is) b c d h =
     (let an = f_mul A (f_neg A (f_int A (int i))) (f_sub A (f_int A (int i)) a);
          b = f_add A b (f_dec A 2 0);
          d = at_least_FPMIN A (f_add A (f_mul A an d) b);
          c = at_least_FPMIN A (f_add A b (f_div A an c));
          d = f_div A (f_dec A 1 0) d;
          del = f_mul A d c;
          h = f_mul A h del
      in if f_lt A (f_abs A (f_sub A del (f_dec A 1 0))) (f_mul A (f_dec A 3 0) (EPSILON A)) then h
         else igam_cf_loop A a is b c d h)"

definition igam_cf :: "'f farith \<Rightarrow> 'f \<Rightarrow> 'f \<Rightarrow> 'f option" where
  "igam_cf A a x =
     (let b = f_sub A (f_add A x (f_dec A 1 0)) a;
          c = f_div A (f_dec A 1 0) (FPMIN A);
          d = f_div A (f_dec A 1 0) b
      in igam_scale A a x (igam_cf_loop A a [1..<301] b c d d))"

definition igamc :: "'f farith \<Rightarrow> 'f \<Rightarrow> 'f \<Rightarrow> 'f option" where
  "igamc A a x =
     (if f_le A x (f_dec A 0 0) \<or> f_le A a (f_dec A 0 0) then Some (f_dec A 1 0)
      else if f_lt A x (f_add A a (f_dec A 1 0))
      then Option.bind (igam_series A a x) (\<lambda>p. Some (f_sub A (f_dec A 1 0) p))
      else igam_cf A a x)"

section \<open>Error function and normal distribution\<close>

partial_function (option) erfc :: "'f farith \<Rightarrow> 'f \<Rightarrow> 'f option" where
  "erfc A x =
     (if f_lt A x (f_dec A 0 0)
      then Option.bind (erfc A (f_neg A x)) (\<lambda>y. Some (f_sub A (f_dec A 2 0) y))
      else igamc A (f_dec A 5 1) (f_mul A x x))"

definition normal_cdf :: "'f farith \<Rightarrow> 'f \<Rightarrow> 'f option" where
  "normal_cdf A x =
     Option.bind (erfc A (f_div A (f_neg A x) (SQRT_2 A))) (\<lambda>y. Some (f_mul A (f_dec A 5 1) y))"

section \<open>They return\<close>

text \<open>In any arithmetic with the laws of floating-point comparisons, one reflection is enough.\<close>

context float_laws
begin

lemma lgamma_total: "\<exists>y. lgamma A x = Some y"
proof (cases "f_lt A x (f_dec A 5 1)")
  case True
  then have "lgamma A (f_sub A (f_dec A 1 0) x) = Some (lgamma_upper A (f_sub A (f_dec A 1 0) x))"
    using reflect_half by (subst lgamma.simps) (simp del: One_nat_def)
  with True show ?thesis by (subst lgamma.simps) (simp del: One_nat_def)
qed (subst lgamma.simps, simp del: One_nat_def)

lemma igam_scale_total: "\<exists>y. igam_scale A a x v = Some y"
  using lgamma_total [of a] by (auto simp: igam_scale_def)

lemma igamc_total: "\<exists>y. igamc A a x = Some y"
proof -
  obtain p where "igam_series A a x = Some p" unfolding igam_series_def Let_def using igam_scale_total by blast
  moreover obtain q where "igam_cf A a x = Some q" unfolding igam_cf_def Let_def using igam_scale_total by blast
  ultimately show ?thesis by (simp add: igamc_def)
qed

lemma erfc_total: "\<exists>y. erfc A x = Some y"
proof (cases "f_lt A x (f_dec A 0 0)")
  case True
  then have "erfc A (f_neg A x) = igamc A (f_dec A 5 1) (f_mul A (f_neg A x) (f_neg A x))"
    using negate_zero by (subst erfc.simps) simp
  moreover obtain y where "igamc A (f_dec A 5 1) (f_mul A (f_neg A x) (f_neg A x)) = Some y"
    using igamc_total by blast
  ultimately show ?thesis using True by (subst erfc.simps) simp
next
  case False
  then show ?thesis using igamc_total by (subst erfc.simps) simp
qed

lemma normal_cdf_total: "\<exists>y. normal_cdf A x = Some y"
  using erfc_total [of "f_div A (f_neg A x) (SQRT_2 A)"] by (auto simp: normal_cdf_def)

end

section \<open>Properties\<close>

text \<open>
  The special functions return for every binary64 argument, infinities and NaN included,
  and whatever the library's transcendental functions answer: after the reflection \<open>1 - x\<close>
  of an argument below one half, and after the negation of a negative argument, the rounded
  result no longer takes the recursive branch.
\<close>

lemma special_functions_return:
  "\<exists>g q e c. lgamma (b64_arith lm) x = Some g \<and> igamc (b64_arith lm) a x = Some q \<and>
     erfc (b64_arith lm) x = Some e \<and> normal_cdf (b64_arith lm) x = Some c"
  using b64.lgamma_total [of lm x] b64.igamc_total [of lm a x] b64.erfc_total [of lm x] b64.normal_cdf_total [of lm x]
  by blast

end
