(* ===== verification/Gf2Rank.thy ===== *)
theory Gf2Rank
  imports Prelude
begin

text \<open>
  The Gaussian elimination of \<open>rust/src/bin/sts.rs\<close> (\<open>gf2_rank32\<close>) on a matrix of 32
  rows of 32 bits, and the proof that it returns the dimension of the row space: the row space
  has \<open>2^rank\<close> elements. The array has the fixed length 32 and every index is drawn from
  \<open>0..32\<close>, so no access is out of range.
\<close>

section \<open>The routine\<close>

type_synonym row = "32 word"

text \<open>\<open>(mat[r] >> col) & 1 == 1\<close>\<close>

definition row_bit :: "row \<Rightarrow> nat \<Rightarrow> bool" where
  "row_bit w col = (drop_bit col w AND 1 = 1)"

definition find_pivot :: "row list \<Rightarrow> nat \<Rightarrow> nat \<Rightarrow> nat option" where
  "find_pivot mat rank col = find (\<lambda>r. row_bit (mat ! r) col) [rank..<32]"

definition swap_rows :: "row list \<Rightarrow> nat \<Rightarrow> nat \<Rightarrow> row list" where
  "swap_rows mat a b = mat[a := mat ! b, b := mat ! a]"

definition clear_row :: "nat \<Rightarrow> nat \<Rightarrow> nat \<Rightarrow> row list \<Rightarrow> row list" where
  "clear_row rank col r mat =
     (if r \<noteq> rank \<and> row_bit (mat ! r) col then mat[r := mat ! r XOR mat ! rank] else mat)"

definition clear_column :: "nat \<Rightarrow> nat \<Rightarrow> row list \<Rightarrow> row list" where
  "clear_column rank col mat = fold (clear_row rank col) [0..<32] mat"

definition rank_step :: "nat \<Rightarrow> row list \<times> nat \<Rightarrow> row list \<times> nat" where
  "rank_step col st =
     (case st of (mat, rank) \<Rightarrow>
        (case find_pivot mat rank col of
           None \<Rightarrow> (mat, rank)
         | Some p \<Rightarrow> (clear_column rank col (swap_rows mat rank p), rank + 1)))"

definition gf2_rank32 :: "row list \<Rightarrow> nat" where
  "gf2_rank32 mat = snd (fold rank_step [0..<32] (mat, 0))"

section \<open>The row space\<close>

text \<open>All exclusive ors of some of the rows.\<close>

fun row_space :: "row list \<Rightarrow> row set" where
  "row_space [] = {0}"
| "row_space (r # rs) = row_space rs \<union> (\<lambda>v. r XOR v) ` row_space rs"

lemma zero_in_row_space [simp]: "0 \<in> row_space rs"
  by (induction rs) auto

lemma row_in_row_space: "r \<in> set rs \<Longrightarrow> r \<in> row_space rs"
proof (induction rs)
  case (Cons a rs)
  have "a = a XOR 0" by simp
  then have "a \<in> (\<lambda>v. a XOR v) ` row_space rs" using zero_in_row_space by blast
  with Cons show ?case by auto
qed simp

lemma row_space_xor: "v \<in> row_space rs \<Longrightarrow> w \<in> row_space rs \<Longrightarrow> v XOR w \<in> row_space rs"
proof (induction rs arbitrary: v w)
  case (Cons a rs)
  have "(a XOR x) XOR (a XOR y) = x XOR y" "(a XOR x) XOR y = a XOR (x XOR y)"
    "x XOR (a XOR y) = a XOR (x XOR y)" for x y
    by (simp_all add: xor.assoc xor.left_commute)
  with Cons show ?case by auto
qed simp

lemma row_space_least:
  assumes "0 \<in> A" and "\<And>r v. r \<in> set rs \<Longrightarrow> v \<in> A \<Longrightarrow> r XOR v \<in> A"
  shows "row_space rs \<subseteq> A"
  using assms(2) by (induction rs) (use assms(1) in auto)

lemma row_space_mono: "set rs \<subseteq> row_space qs \<Longrightarrow> row_space rs \<subseteq> row_space qs"
  by (rule row_space_least) (auto intro: row_space_xor)

lemma row_space_eqI:
  "set rs \<subseteq> row_space qs \<Longrightarrow> set qs \<subseteq> row_space rs \<Longrightarrow> row_space rs = row_space qs"
  by (intro equalityI row_space_mono)

lemma row_space_cong: "set rs = set qs \<Longrightarrow> row_space rs = row_space qs"
  by (intro row_space_eqI) (auto intro: row_in_row_space)

lemma finite_row_space [simp]: "finite (row_space rs)"
  by (induction rs) auto

lemma row_space_no_bit:
  "(\<And>r. r \<in> set rs \<Longrightarrow> \<not> bit r c) \<Longrightarrow> v \<in> row_space rs \<Longrightarrow> \<not> bit v c"
  by (induction rs arbitrary: v) (auto simp: bit_xor_iff)

lemma card_row_space_Cons:
  assumes "bit r c" and "\<And>q. q \<in> set rs \<Longrightarrow> \<not> bit q c"
  shows "card (row_space (r # rs)) = 2 * card (row_space rs)"
proof -
  have "inj_on (\<lambda>v. r XOR v) (row_space rs)"
    by (rule inj_onI) (metis xor.assoc xor.left_neutral xor_self_eq)
  moreover have "row_space rs \<inter> (\<lambda>v. r XOR v) ` row_space rs = {}"
  proof -
    have no: "\<not> bit v c" if "v \<in> row_space rs" for v
      using row_space_no_bit [of rs c v] assms(2) that by blast
    then have "bit (r XOR v) c" if "v \<in> row_space rs" for v
      using that assms(1) by (simp add: bit_xor_iff)
    with no show ?thesis by blast
  qed
  ultimately show ?thesis by (simp add: card_Un_disjoint card_image)
qed

lemma row_space_zeros: "(\<And>r. r \<in> set rs \<Longrightarrow> r = 0) \<Longrightarrow> row_space rs = {0}"
  by (induction rs) auto

section \<open>Row operations\<close>

lemma row_bit_iff: "row_bit w c \<longleftrightarrow> bit w c"
  by (auto simp: row_bit_def bit_iff_odd_drop_bit and_one_eq mod2_eq_if)

lemma row_space_swap:
  "a < length mat \<Longrightarrow> b < length mat \<Longrightarrow> row_space (swap_rows mat a b) = row_space mat"
  unfolding swap_rows_def by (intro row_space_cong set_swap)

lemma row_space_add_row:
  assumes "r < length mat" "k < length mat" "r \<noteq> k"
  shows "row_space (mat[r := mat ! r XOR mat ! k]) = row_space mat"
proof (rule row_space_eqI)
  let ?new = "mat[r := mat ! r XOR mat ! k]"
  show "set ?new \<subseteq> row_space mat"
  proof
    fix x assume "x \<in> set ?new"
    then have "x \<in> insert (mat ! r XOR mat ! k) (set mat)"
      by (rule subsetD [OF set_update_subset_insert])
    moreover have "mat ! r XOR mat ! k \<in> row_space mat"
      using assms by (intro row_space_xor row_in_row_space nth_mem)
    ultimately show "x \<in> row_space mat" by (auto intro: row_in_row_space)
  qed
  have "?new ! r \<in> row_space ?new" "?new ! k \<in> row_space ?new"
    using assms by (auto intro!: row_in_row_space nth_mem simp del: nth_list_update_eq nth_list_update_neq)
  then have "?new ! r XOR ?new ! k \<in> row_space ?new" by (rule row_space_xor)
  then have "mat ! r \<in> row_space ?new" using assms by (simp add: xor.assoc)
  moreover have "mat ! i \<in> row_space ?new" if "i < length mat" "i \<noteq> r" for i
    using that row_in_row_space [of "?new ! i" ?new] nth_mem [of i ?new] by simp
  ultimately have "mat ! i \<in> row_space ?new" if "i < length mat" for i
    using that by (cases "i = r") auto
  then show "set mat \<subseteq> row_space ?new" by (auto simp: in_set_conv_nth)
qed

lemma clear_rows:
  assumes "length mat = 32" "rank < 32" "n \<le> 32"
  shows "length (fold (clear_row rank col) [0..<n] mat) = 32 \<and>
    row_space (fold (clear_row rank col) [0..<n] mat) = row_space mat \<and>
    (\<forall>r < 32. fold (clear_row rank col) [0..<n] mat ! r =
       (if r < n \<and> r \<noteq> rank \<and> bit (mat ! r) col then mat ! r XOR mat ! rank else mat ! r))"
  using assms(3)
proof (induction n)
  case 0
  with assms show ?case by simp
next
  case (Suc n)
  obtain m where m: "fold (clear_row rank col) [0..<n] mat = m" by simp
  then have next_m: "fold (clear_row rank col) [0..<Suc n] mat = clear_row rank col n m" by simp
  from Suc m have IH: "length m = 32" "row_space m = row_space mat"
      "m ! r = (if r < n \<and> r \<noteq> rank \<and> bit (mat ! r) col then mat ! r XOR mat ! rank else mat ! r)"
      if "r < 32" for r
    using that by auto
  have len: "length m = 32" and sp: "row_space m = row_space mat" using IH(1,2) [of 0] by auto
  have here: "m ! n = mat ! n" "m ! rank = mat ! rank" using IH(3) Suc.prems assms by auto
  show ?case
  proof (cases "n \<noteq> rank \<and> bit (mat ! n) col")
    case True
    with here have "clear_row rank col n m = m[n := mat ! n XOR mat ! rank]"
      by (simp add: clear_row_def row_bit_iff)
    moreover from this have "row_space (clear_row rank col n m) = row_space mat"
      using row_space_add_row [of n m rank] True here len sp Suc.prems assms by simp
    ultimately show ?thesis unfolding next_m
      using True len IH(3) Suc.prems by (auto simp: nth_list_update less_Suc_eq)
  next
    case False
    with here have "clear_row rank col n m = m" by (auto simp: clear_row_def row_bit_iff)
    then show ?thesis unfolding next_m using False len sp IH(3) by (auto simp: less_Suc_eq)
  qed
qed

section \<open>The elimination invariant\<close>

text \<open>
  After \<open>col\<close> columns, row \<open>i < rank\<close> is the only one with a bit in the pivot column
  \<open>ps ! i\<close>, and the rows from \<open>rank\<close> on have no bit in the columns done.
\<close>

definition rank_inv :: "row list \<Rightarrow> nat \<Rightarrow> row list \<times> nat \<Rightarrow> bool" where
  "rank_inv mat0 col st =
     (case st of (mat, rank) \<Rightarrow>
        length mat = 32 \<and> rank \<le> 32 \<and> row_space mat = row_space mat0 \<and>
        (\<exists>ps. length ps = rank \<and> (\<forall>i < rank. \<forall>r < 32. bit (mat ! r) (ps ! i) \<longleftrightarrow> r = i)) \<and>
        (\<forall>r c. rank \<le> r \<and> r < 32 \<and> c < col \<longrightarrow> \<not> bit (mat ! r) c))"

lemma rank_inv_no_pivot:
  assumes "rank_inv mat0 col (mat, rank)" and "find_pivot mat rank col = None"
  shows "rank_inv mat0 (Suc col) (mat, rank)"
  using assms by (auto simp: rank_inv_def find_pivot_def find_None_iff row_bit_iff less_Suc_eq)

lemma find_pivot_SomeD:
  "find_pivot mat rank col = Some p \<Longrightarrow> rank \<le> p \<and> p < 32 \<and> bit (mat ! p) col"
  by (auto simp: find_pivot_def find_Some_iff row_bit_iff)

lemma nth_swap_rows:
  "length mat = 32 \<Longrightarrow> a < 32 \<Longrightarrow> b < 32 \<Longrightarrow> r < 32 \<Longrightarrow>
   swap_rows mat a b ! r = (if r = b then mat ! a else if r = a then mat ! b else mat ! r)"
  by (simp add: swap_rows_def nth_list_update)

lemma rank_inv_pivot:
  assumes inv: "rank_inv mat0 col (mat, rank)" and "find_pivot mat rank col = Some p"
  shows "rank_inv mat0 (Suc col) (clear_column rank col (swap_rows mat rank p), rank + 1)"
proof -
  let ?m1 = "swap_rows mat rank p"
  let ?m2 = "clear_column rank col ?m1"
  from find_pivot_SomeD [OF assms(2)] have p: "rank \<le> p" "p < 32" "bit (mat ! p) col" by auto
  from inv obtain ps where len: "length mat = 32" and sp: "row_space mat = row_space mat0"
    and ps: "length ps = rank" "\<forall>i < rank. \<forall>r < 32. bit (mat ! r) (ps ! i) \<longleftrightarrow> r = i"
    and low: "\<forall>r c. rank \<le> r \<and> r < 32 \<and> c < col \<longrightarrow> \<not> bit (mat ! r) c"
    by (auto simp: rank_inv_def)
  have len1: "length ?m1 = 32" using len by (simp add: swap_rows_def)
  have sp1: "row_space ?m1 = row_space mat0" using p len sp by (simp add: row_space_swap)
  have m1: "?m1 ! r = (if r = p then mat ! rank else if r = rank then mat ! p else mat ! r)"
    if "r < 32" for r using nth_swap_rows [OF len _ p(2) that] p by auto
  have m2: "length ?m2 = 32" "row_space ?m2 = row_space mat0"
      "\<forall>r < 32. ?m2 ! r = (if r \<noteq> rank \<and> bit (?m1 ! r) col then ?m1 ! r XOR ?m1 ! rank else ?m1 ! r)"
    using clear_rows [OF len1, of rank 32 col] p sp1 by (auto simp: clear_column_def)
  have top: "bit (?m1 ! rank) col" using m1 [of rank] p by auto
  have piv: "bit (?m1 ! r) (ps ! i) \<longleftrightarrow> r = i" if "i < rank" "r < 32" for i r
    using that p ps(2) m1 [of r] by auto
  have pivots: "bit (?m2 ! r) ((ps @ [col]) ! i) \<longleftrightarrow> r = i" if "i < rank + 1" "r < 32" for i r
    using that m2(3) piv [of i] top p ps(1)
    by (auto simp: nth_append bit_xor_iff less_Suc_eq)
  have rest: "\<not> bit (?m2 ! r) c" if "rank + 1 \<le> r" "r < 32" "c < Suc col" for r c
  proof -
    have "\<not> bit (?m1 ! r) c \<and> \<not> bit (?m1 ! rank) c" if "c < col"
      using that low m1 [of r] m1 [of rank] p \<open>rank + 1 \<le> r\<close> \<open>r < 32\<close> by auto
    with that m2(3) top show ?thesis by (auto simp: bit_xor_iff less_Suc_eq)
  qed
  have "\<exists>qs. length qs = rank + 1 \<and>
      (\<forall>i < rank + 1. \<forall>r < 32. bit (?m2 ! r) (qs ! i) \<longleftrightarrow> r = i)"
    using pivots ps(1) by (intro exI [of _ "ps @ [col]"]) simp
  with rest m2(1,2) p show ?thesis unfolding rank_inv_def by simp
qed

lemma rank_inv_fold:
  "rank_inv mat0 0 (mat0, 0) \<Longrightarrow> rank_inv mat0 n (fold rank_step [0..<n] (mat0, 0))"
proof (induction n)
  case (Suc n)
  obtain mat rank where st: "fold rank_step [0..<n] (mat0, 0) = (mat, rank)" by fastforce
  with Suc have inv: "rank_inv mat0 n (mat, rank)" by simp
  have "rank_inv mat0 (Suc n) (rank_step n (mat, rank))"
    using rank_inv_no_pivot [OF inv] rank_inv_pivot [OF inv]
    by (simp add: rank_step_def split: option.split)
  with st show ?case by simp
qed simp

lemma card_reduced:
  assumes "length mat = 32" "length ps = rank" "rank \<le> 32"
    and piv: "\<forall>i < rank. \<forall>r < 32. bit (mat ! r) (ps ! i) \<longleftrightarrow> r = i"
    and zero: "\<forall>r. rank \<le> r \<and> r < 32 \<longrightarrow> mat ! r = 0" and "i \<le> rank"
  shows "card (row_space (drop i mat)) = 2 ^ (rank - i)"
  using assms(6)
proof (induction i rule: inc_induct)
  case base
  have "row_space (drop rank mat) = {0}"
    using zero assms by (intro row_space_zeros) (auto simp: in_set_conv_nth)
  then show ?case by simp
next
  case (step i)
  have "drop i mat = mat ! i # drop (Suc i) mat" using step assms by (simp add: Cons_nth_drop_Suc)
  moreover have "bit (mat ! i) (ps ! i)" using piv step assms by simp
  moreover have "\<not> bit q (ps ! i)" if "q \<in> set (drop (Suc i) mat)" for q
    using that piv step assms by (auto simp: in_set_conv_nth)
  ultimately have "card (row_space (drop i mat)) = 2 * card (row_space (drop (Suc i) mat))"
    using card_row_space_Cons [of "mat ! i" "ps ! i" "drop (Suc i) mat"] by simp
  with step show ?case by (simp add: Suc_diff_Suc flip: power_Suc)
qed

lemma gf2_rank32_spec:
  assumes "length mat = 32"
  shows "card (row_space mat) = 2 ^ gf2_rank32 mat \<and> gf2_rank32 mat \<le> 32"
proof -
  obtain mat' rank where st: "fold rank_step [0..<32] (mat, 0) = (mat', rank)" by fastforce
  have "rank_inv mat 32 (mat', rank)"
    using rank_inv_fold [of mat 32] assms by (simp add: st rank_inv_def del: upt_rec_numeral)
  then obtain ps where inv: "length mat' = 32" "rank \<le> 32" "row_space mat' = row_space mat"
      "length ps = rank" "\<forall>i < rank. \<forall>r < 32. bit (mat' ! r) (ps ! i) \<longleftrightarrow> r = i"
    and low: "\<forall>r c. rank \<le> r \<and> r < 32 \<and> c < 32 \<longrightarrow> \<not> bit (mat' ! r) c"
    by (auto simp: rank_inv_def)
  have "mat' ! r = 0" if "rank \<le> r" "r < 32" for r
    using low that by (intro bit_word_eqI) auto
  with card_reduced [OF inv(1,4,2,5), of 0] inv(2,3) show ?thesis
    by (simp add: gf2_rank32_def st del: upt_rec_numeral)
qed

text \<open>
  C25: the elimination returns the rank of the matrix over the field with two elements: the number
  of distinct exclusive ors of its rows is two to the power of the result, which is at most 32.
\<close>

theorem gf2_rank32_dimension:
  assumes "length mat = 32"
  shows "card (row_space mat) = 2 ^ gf2_rank32 mat \<and> gf2_rank32 mat \<le> 32"
  by (rule gf2_rank32_spec [OF assms])

theorem gf2_rank32_dimension_witness:
  "gf2_rank32 ([5, 6, 3, 8] @ replicate 28 0) = 3 \<and>
   card (row_space ([5, 6, 3, 8] @ replicate 28 0)) = 8"
proof -
  have *: "gf2_rank32 ([5, 6, 3, 8] @ replicate 28 0) = 3" by code_simp
  with gf2_rank32_dimension [of "[5, 6, 3, 8] @ replicate 28 0"] show ?thesis by simp
qed

end
