(* ===== verification/StsWalk.thy ===== *)
theory StsWalk
  imports BerlekampMassey Gf2Rank
begin

text \<open>
  The counting parts of the remaining statistical tests of \<open>rust/src/bin/sts.rs\<close>: sums and
  block counts (monobit, block frequency, runs), the longest run, the matrix ranks and linear
  complexities per block, the random walk with its cumulative maximum and its excursions, and
  the bit-reversal reordering of the Fourier transform.
\<close>

section \<open>Sums and runs\<close>

definition pm_one :: "byte \<Rightarrow> int" where
  "pm_one b = (if b = 1 then 1 else - 1)"

definition monobit_sum :: "bytes \<Rightarrow> int" where
  "monobit_sum bits = sum_list (map pm_one bits)"

definition ones_count :: "bytes \<Rightarrow> nat" where
  "ones_count bits = length (filter (\<lambda>b. b = 1) bits)"

text \<open>The ones in each of the \<open>n / 128\<close> blocks; without a block the test answers the p-value zero.\<close>

definition block_ones :: "bytes \<Rightarrow> (nat list option, error) res" where
  "block_ones bits =
     (let cap = length bits div 128
      in if cap < 1 then Ok None
         else res_bind (collect_res (\<lambda>j. res_bind (slice_res bits (j * 128) ((j + 1) * 128))
                (\<lambda>b. Ok (ones_count b))) [0..<cap]) (\<lambda>os. Ok (Some os)))"

text \<open>\<open>bits.windows(2).filter(|w| w[0] != w[1]).count()\<close>\<close>

definition transitions :: "bytes \<Rightarrow> nat" where
  "transitions bits = length (filter (\<lambda>w. fst w \<noteq> snd w) (zip bits (tl bits)))"

section \<open>Longest run of ones\<close>

definition run_step :: "byte \<Rightarrow> nat \<times> nat \<Rightarrow> nat \<times> nat" where
  "run_step b st = (let c = (if b = 1 then snd st + 1 else 0) in (max (fst st) c, c))"

definition longest_run :: "bytes \<Rightarrow> nat" where
  "longest_run block = fst (fold run_step block (0, 0))"

definition longest_run_params :: "nat \<Rightarrow> nat \<times> nat \<times> nat list" where
  "longest_run_params n =
     (if n < 6272 then (8, 3, [1, 2, 3, 4])
      else if n < 750000 then (128, 5, [4, 5, 6, 7, 8, 9])
      else (10000, 6, [10, 11, 12, 13, 14, 15, 16]))"

text \<open>\<open>thresholds.partition_point(|&t| t <= longest).saturating_sub(1).min(k)\<close> on a sorted slice\<close>

definition run_category :: "nat list \<Rightarrow> nat \<Rightarrow> nat \<Rightarrow> nat" where
  "run_category thresholds k longest = min (length (takeWhile (\<lambda>t. t \<le> longest) thresholds) - 1) k"

definition longest_run_counts :: "bytes \<Rightarrow> (nat list, error) res" where
  "longest_run_counts bits =
     (case longest_run_params (length bits) of (m, k, thresholds) \<Rightarrow>
        fold_res (\<lambda>j nu. res_bind (slice_res bits (j * m) ((j + 1) * m)) (\<lambda>block.
            modify_res nu (run_category thresholds k (longest_run block)) Suc))
          [0..<length bits div m] (replicate (k + 1) 0))"

section \<open>Matrix ranks and linear complexity\<close>

definition matrix_row :: "bytes \<Rightarrow> nat \<Rightarrow> nat \<Rightarrow> (row, error) res" where
  "matrix_row bits base r =
     fold_res (\<lambda>c w. res_bind (nth_res bits (base + r * 32 + c)) (\<lambda>b.
         Ok (if b = 1 then w OR push_bit c 1 else w))) [0..<32] 0"

definition rank_counts_step :: "bytes \<Rightarrow> nat \<Rightarrow> nat \<times> nat \<times> nat \<Rightarrow> (nat \<times> nat \<times> nat, error) res" where
  "rank_counts_step bits j st =
     (case st of (f32, f31, frest) \<Rightarrow>
        res_bind (collect_res (matrix_row bits (j * 32 * 32)) [0..<32]) (\<lambda>mat.
          let rank = gf2_rank32 mat
          in Ok (if rank = 32 then (f32 + 1, f31, frest)
                 else if rank = 31 then (f32, f31 + 1, frest)
                 else (f32, f31, frest + 1))))"

definition rank_counts :: "bytes \<Rightarrow> ((nat \<times> nat \<times> nat) option, error) res" where
  "rank_counts bits =
     (let big_n = length bits div (32 * 32)
      in if big_n < 1 then Ok None
         else res_bind (fold_res (rank_counts_step bits) [0..<big_n] (0, 0, 0)) (\<lambda>f. Ok (Some f)))"

definition block_complexities :: "bytes \<Rightarrow> (nat list option, error) res" where
  "block_complexities bits =
     (let big_n = length bits div 500
      in if big_n < 1 then Ok None
         else res_bind (collect_res (\<lambda>j. res_bind (slice_res bits (j * 500) ((j + 1) * 500)) berlekamp_massey)
                [0..<big_n]) (\<lambda>ls. Ok (Some ls)))"

section \<open>Random walk\<close>

fun walk_from :: "int \<Rightarrow> bytes \<Rightarrow> int list" where
  "walk_from s [] = [s]"
| "walk_from s (b # bs) = s # walk_from (s + pm_one b) bs"

definition build_walk :: "bytes \<Rightarrow> int list \<times> nat" where
  "build_walk bits =
     (let walk = walk_from 0 bits in (walk, length (filter (\<lambda>s. s = 0) (tl walk))))"

definition cusum_step :: "byte \<Rightarrow> int \<times> int \<Rightarrow> int \<times> int" where
  "cusum_step b st = (let s = fst st + pm_one b in (s, max (snd st) \<bar>s\<bar>))"

definition cusum_max :: "bytes \<Rightarrow> int" where
  "cusum_max bits = snd (fold cusum_step bits (0, 0))"

definition cumulative_sums :: "bytes \<Rightarrow> int \<times> int" where
  "cumulative_sums bits = (cusum_max bits, cusum_max (rev bits))"

text \<open>One position of the walk; the state is the tally, whether an excursion is open, and its visits.\<close>

definition excursion_step :: "int \<Rightarrow> int \<Rightarrow> nat list \<times> bool \<times> nat \<Rightarrow> nat list \<times> bool \<times> nat" where
  "excursion_step x s st =
     (case st of (nu, in_exc, visits) \<Rightarrow>
        let in_exc = in_exc \<or> s \<noteq> 0
        in if in_exc
           then let visits = (if s = x then visits + 1 else visits)
                in if s = 0 then (nu[min visits 5 := Suc (nu ! min visits 5)], False, 0)
                   else (nu, in_exc, visits)
           else (nu, in_exc, visits))"

definition excursion_counts :: "int list \<Rightarrow> int \<Rightarrow> nat list" where
  "excursion_counts walk x = fst (fold (excursion_step x) (tl walk) (replicate 6 0, False, 0))"

section \<open>Bit reversal\<close>

definition bit_rev :: "u64 \<Rightarrow> nat \<Rightarrow> u64" where
  "bit_rev x bits = fst (fold (\<lambda>_ st. (push_bit 1 (fst st) OR (snd st AND 1), drop_bit 1 (snd st))) [0..<bits] (0, x))"

definition bit_rev_index :: "nat \<Rightarrow> nat \<Rightarrow> nat" where
  "bit_rev_index k i = unat (bit_rev (of_nat i) k)"

text \<open>The reordering loop over an array of \<open>2^k\<close> elements.\<close>

definition reorder_step :: "nat \<Rightarrow> nat \<Rightarrow> 'a list \<Rightarrow> 'a list" where
  "reorder_step k i xs =
     (let j = bit_rev_index k i in if i < j then xs[i := xs ! j, j := xs ! i] else xs)"

definition bit_rev_reorder :: "nat \<Rightarrow> 'a list \<Rightarrow> 'a list" where
  "bit_rev_reorder k xs = fold (reorder_step k) [0..<length xs] xs"

section \<open>Excursions are cycles of the walk\<close>

text \<open>
  The complete cycles of a walk: the stretches between two zeros. What follows the last zero is
  not a complete cycle.
\<close>

fun cycles :: "int list \<Rightarrow> int list \<Rightarrow> int list list" where
  "cycles cur [] = []"
| "cycles cur (s # ss) = (if s = 0 then cur # cycles [] ss else cycles (cur @ [s]) ss)"

definition visited :: "int \<Rightarrow> nat \<Rightarrow> int list \<Rightarrow> bool" where
  "visited x k c \<longleftrightarrow> min (count_list c x) 5 = k"

lemma pm_one_nonzero: "s + pm_one b = 0 \<Longrightarrow> s \<noteq> 0"
  by (auto simp: pm_one_def split: if_splits)

lemma walk_from_Cons: "walk_from s bs = s # tl (walk_from s bs)"
  by (cases bs) simp_all

lemma length_cycles: "length (cycles cur ss) = length (filter (\<lambda>s. s = 0) ss)"
  by (induction cur ss rule: cycles.induct) auto

lemma excursion_fold:
  assumes "x \<noteq> 0" and "length nu = 6" and "s = 0 \<Longrightarrow> cur = []"
  shows "\<forall>k < 6. fst (fold (excursion_step x) (tl (walk_from s bits)) (nu, s \<noteq> 0, count_list cur x)) ! k
    = nu ! k + length (filter (visited x k) (cycles cur (tl (walk_from s bits))))"
  using assms(2,3)
proof (induction bits arbitrary: s nu cur)
  case (Cons b bits)
  let ?s = "s + pm_one b"
  have tl: "tl (walk_from s (b # bits)) = ?s # tl (walk_from ?s bits)"
    using walk_from_Cons [of ?s bits] by simp
  show ?case
  proof (cases "?s = 0")
    case True
    let ?v = "min (count_list cur x) 5"
    have "excursion_step x ?s (nu, s \<noteq> 0, count_list cur x) = (nu[?v := Suc (nu ! ?v)], ?s \<noteq> 0, count_list [] x)"
      using True pm_one_nonzero [OF True] assms(1) by (simp add: excursion_step_def)
    then show ?thesis
      using Cons.IH [of "nu[?v := Suc (nu ! ?v)]" ?s "[]"] Cons.prems True unfolding tl
      by (auto simp: nth_list_update visited_def)
  next
    case False
    have "excursion_step x ?s (nu, s \<noteq> 0, count_list cur x) = (nu, ?s \<noteq> 0, count_list (cur @ [?s]) x)"
      using False by (simp add: excursion_step_def)
    then show ?thesis using Cons.IH [of nu ?s "cur @ [?s]"] Cons.prems False unfolding tl by simp
  qed
qed simp

lemma length_excursion_fold:
  "length (fst (fold (excursion_step x) ss (nu, e, v))) = length nu"
  by (induction ss arbitrary: nu e v) (auto simp: excursion_step_def Let_def)

lemma excursion_counts_spec:
  assumes "x \<noteq> 0"
  shows "excursion_counts (walk_from 0 bits) x =
    map (\<lambda>k. length (filter (visited x k) (cycles [] (tl (walk_from 0 bits))))) [0..<6]"
proof (rule nth_equalityI)
  show "length (excursion_counts (walk_from 0 bits) x) =
    length (map (\<lambda>k. length (filter (visited x k) (cycles [] (tl (walk_from 0 bits))))) [0..<6])"
    by (simp add: excursion_counts_def length_excursion_fold)
  fix k
  assume "k < length (excursion_counts (walk_from 0 bits) x)"
  then have "k < 6" by (simp add: excursion_counts_def length_excursion_fold)
  with excursion_fold [OF assms, of "replicate 6 0" 0 "[]" bits]
  show "excursion_counts (walk_from 0 bits) x ! k =
    map (\<lambda>k. length (filter (visited x k) (cycles [] (tl (walk_from 0 bits))))) [0..<6] ! k"
    by (simp add: excursion_counts_def del: upt_rec_numeral)
qed

lemma sum_visited:
  "(\<Sum>k\<leftarrow>[0..<6]. length (filter (visited x k) cs)) = length cs"
proof (induction cs)
  case (Cons c cs)
  have "min (count_list c x) 5 < 6" by simp
  moreover have "length (filter (visited x k) (c # cs)) =
      (if k = min (count_list c x) 5 then 1 else 0) + length (filter (visited x k) cs)" for k
    by (auto simp: visited_def)
  then have "(\<Sum>k\<leftarrow>[0..<6]. length (filter (visited x k) (c # cs))) =
      (\<Sum>k\<leftarrow>[0..<6]. (if k = min (count_list c x) 5 then 1 else 0)) + length cs"
    using Cons.IH by (simp only: sum_list_addf)
  ultimately show ?case by (simp add: interv_sum_list_conv_sum_set_nat del: upt_rec_numeral)
qed (simp add: sum_list_triv del: upt_rec_numeral)

section \<open>Cumulative sums and longest runs\<close>

lemma cusum_fold:
  "fold cusum_step bits (s, m) = (last (walk_from s bits), Max (insert m (abs ` set (tl (walk_from s bits)))))"
proof (induction bits arbitrary: s m)
  case (Cons b bits)
  let ?s = "s + pm_one b" and ?W = "abs ` set (tl (walk_from (s + pm_one b) bits))"
  have w: "walk_from ?s bits = ?s # tl (walk_from ?s bits)" by (rule walk_from_Cons)
  have "Max (insert (max m \<bar>?s\<bar>) ?W) = Max (insert m (insert \<bar>?s\<bar> ?W))"
    by (cases "?W = {}") (simp_all add: max.assoc)
  moreover have "abs ` set (walk_from ?s bits) = insert \<bar>?s\<bar> ?W" by (subst w) simp
  moreover have "walk_from ?s bits \<noteq> []" by (subst w) simp
  ultimately show ?case using Cons.IH [of ?s "max m \<bar>?s\<bar>"] by (simp add: cusum_step_def Let_def)
qed simp

lemma cusum_max_spec: "cusum_max bits = Max (abs ` set (walk_from 0 bits))"
proof -
  have "abs ` set (walk_from 0 bits) = insert 0 (abs ` set (tl (walk_from 0 bits)))"
    by (subst walk_from_Cons) simp
  then show ?thesis by (simp add: cusum_max_def cusum_fold)
qed

definition run_at :: "bytes \<Rightarrow> nat \<Rightarrow> nat \<Rightarrow> bool" where
  "run_at block i k = (i + k \<le> length block \<and> (\<forall>j < k. block ! (i + j) = 1))"

lemma run_at_snoc:
  "run_at (block @ [b]) i k \<longleftrightarrow> run_at block i k \<or> k = 0 \<and> i = Suc (length block) \<or>
     b = 1 \<and> (\<exists>k'. k = Suc k' \<and> i + k' = length block \<and> run_at block i k')"
proof (cases "i + k \<le> length block")
  case True
  then show ?thesis by (auto simp: run_at_def nth_append)
next
  case False
  show ?thesis
  proof (cases k)
    case (Suc k')
    with False show ?thesis by (auto simp: run_at_def nth_append less_Suc_eq)
  qed (use False in \<open>auto simp: run_at_def\<close>)
qed

text \<open>The fold keeps the longest run so far and the length of the run at the end.\<close>

lemma run_fold_spec:
  "(\<exists>i. run_at block i (fst (fold run_step block (0, 0)))) \<and>
   (\<forall>i k. run_at block i k \<longrightarrow> k \<le> fst (fold run_step block (0, 0))) \<and>
   (let c = snd (fold run_step block (0, 0))
    in c \<le> length block \<and> run_at block (length block - c) c \<and>
       (\<forall>i k. run_at block i k \<and> i + k = length block \<longrightarrow> k \<le> c))"
proof (induction block rule: rev_induct)
  case Nil
  then show ?case by (simp add: run_at_def)
next
  case (snoc b block)
  obtain mx c where st: "fold run_step block (0, 0) = (mx, c)" by fastforce
  then have new: "fold run_step (block @ [b]) (0, 0) = run_step b (mx, c)" by simp
  from st snoc have mx: "\<exists>i. run_at block i mx" "\<forall>i k. run_at block i k \<longrightarrow> k \<le> mx"
    and c: "c \<le> length block" "run_at block (length block - c) c"
      "\<forall>i k. run_at block i k \<and> i + k = length block \<longrightarrow> k \<le> c" by (auto simp: Let_def)
  show ?case
  proof (cases "b = 1")
    case True
    have "run_at (block @ [b]) (length block - c) (Suc c)"
      using c(1,2) True by (auto simp: run_at_snoc)
    moreover have "\<exists>i. run_at (block @ [b]) i mx" using mx(1) by (auto simp: run_at_snoc)
    moreover have "k \<le> max mx (Suc c)" if "run_at (block @ [b]) i k" for i k
      using that mx(2) c(3) by (auto simp: run_at_snoc le_max_iff_disj)
    moreover have "k \<le> Suc c" if "run_at (block @ [b]) i k" "i + k = Suc (length block)" for i k
    proof -
      have "\<not> run_at block i k" using that(2) by (simp add: run_at_def)
      with that c(3) show ?thesis by (auto simp: run_at_snoc)
    qed
    ultimately show ?thesis unfolding new
      using True c(1) by (auto simp: run_step_def Let_def max_def)
  next
    case False
    have "run_at (block @ [b]) (Suc (length block)) 0" by (simp add: run_at_def)
    moreover have "k = 0" if "run_at (block @ [b]) i k" "i + k = Suc (length block)" for i k
      using that False by (auto simp: run_at_snoc) (auto simp: run_at_def)
    ultimately show ?thesis unfolding new using False mx
      by (auto simp: run_step_def run_at_snoc)
  qed
qed

lemma longest_run_spec:
  "(\<exists>i. run_at block i (longest_run block)) \<and> (\<forall>i k. run_at block i k \<longrightarrow> k \<le> longest_run block)"
  using run_fold_spec [of block] by (simp add: longest_run_def)

section \<open>Block statistics stay in range\<close>

lemma block_end_le: "j < length bits div m \<Longrightarrow> (j + 1) * m \<le> length (bits :: bytes)"
  by (metis Suc_eq_plus1 Suc_leI div_times_less_eq_dividend mult_le_mono1 order_trans)

lemma slice_block:
  "j < length bits div m \<Longrightarrow>
   slice_res bits (j * m) ((j + 1) * m) = Ok (take m (drop (j * m) bits))" for bits :: bytes
  using block_end_le [of j bits m] by simp

lemma block_ones_Ok: "\<exists>r. block_ones bits = Ok r"
proof -
  have "\<exists>os. collect_res (\<lambda>j. res_bind (slice_res bits (j * 128) ((j + 1) * 128))
      (\<lambda>b. Ok (ones_count b))) [0..<length bits div 128] = (Ok os :: (nat list, error) res)"
    using slice_block [of _ bits 128] by (intro collect_res_Ok) auto
  then show ?thesis by (auto simp: block_ones_def Let_def)
qed

lemma run_category_less: "run_category ts k l < Suc k"
  by (simp add: run_category_def)

lemma longest_run_counts_Ok:
  "\<exists>nu. longest_run_counts bits = Ok nu \<and>
     sum_list nu = length bits div fst (longest_run_params (length bits))"
proof -
  obtain m k ts where p: "longest_run_params (length bits) = (m, k, ts)" by (cases "longest_run_params (length bits)") auto
  let ?body = "\<lambda>j nu. res_bind (slice_res bits (j * m) ((j + 1) * m)) (\<lambda>block.
      modify_res nu (run_category ts k (longest_run block)) Suc)"
  let ?I = "\<lambda>j nu. length nu = Suc k \<and> sum_list nu = j"
  have "\<exists>nu. fold_res ?body [0..<length bits div m] (replicate (k + 1) 0) =
      (Ok nu :: (nat list, error) res) \<and> ?I (length bits div m) nu"
  proof (rule fold_res_range)
    fix j nu
    assume j: "j < length bits div m" and I: "?I j nu"
    let ?c = "run_category ts k (longest_run (take m (drop (j * m) bits)))"
    have c: "?c < length nu" using I run_category_less by simp
    then have "?body j nu = (Ok (nu[?c := Suc (nu ! ?c)]) :: (nat list, error) res)"
      by (subst slice_block [OF j]) simp
    moreover have "?I (Suc j) (nu[?c := Suc (nu ! ?c)])"
      using c I by (simp add: sum_list_update)
    ultimately show "\<exists>nu'. ?body j nu = (Ok nu' :: (nat list, error) res) \<and> ?I (Suc j) nu'"
      by blast
  qed (simp_all add: sum_list_triv)
  then show ?thesis by (auto simp: longest_run_counts_def p)
qed

lemma matrix_row_Ok:
  "base + r * 32 + 32 \<le> length bits \<Longrightarrow> \<exists>w. matrix_row bits base r = Ok w"
  unfolding matrix_row_def
  using fold_res_range [of "\<lambda>_ _. True" 0 0 32 "\<lambda>c w. res_bind (nth_res bits (base + r * 32 + c)) (\<lambda>b.
         Ok (if b = 1 then w OR push_bit c 1 else w))"]
  by auto

lemma matrix_Ok:
  assumes "j < length bits div 1024"
  shows "\<exists>mat. collect_res (matrix_row bits (j * 32 * 32)) [0..<32] = Ok mat \<and> length mat = 32"
proof -
  have "\<exists>w. matrix_row bits (j * 32 * 32) r = Ok w" if "r < 32" for r
    using block_end_le [OF assms] that by (intro matrix_row_Ok) auto
  then obtain mat where "collect_res (matrix_row bits (j * 32 * 32)) [0..<32] = Ok mat"
    using collect_res_Ok [of "[0..<32]" "matrix_row bits (j * 32 * 32)"] by (auto simp del: upt_rec_numeral)
  then show ?thesis using collect_res_OkD [of "matrix_row bits (j * 32 * 32)" "[0..<32]" mat] by simp
qed

lemma rank_counts_Ok:
  assumes "1 \<le> length bits div 1024"
  shows "\<exists>a b c. rank_counts bits = Ok (Some (a, b, c)) \<and> a + b + c = length bits div 1024"
proof -
  let ?I = "\<lambda>j (st :: nat \<times> nat \<times> nat). fst st + fst (snd st) + snd (snd st) = j"
  have "\<exists>st. fold_res (rank_counts_step bits) [0..<length bits div 1024] (0, 0, 0) = Ok st \<and>
      ?I (length bits div 1024) st"
  proof (rule fold_res_range)
    fix j st
    assume j: "j < length bits div 1024" and I: "?I j st"
    from matrix_Ok [OF j] obtain mat where mat: "collect_res (matrix_row bits (j * 32 * 32)) [0..<32] = Ok mat"
      by blast
    obtain a b c where st: "st = (a, b, c)" by (cases st)
    have "rank_counts_step bits j st = Ok (if gf2_rank32 mat = 32 then (a + 1, b, c)
        else if gf2_rank32 mat = 31 then (a, b + 1, c) else (a, b, c + 1))"
      unfolding rank_counts_step_def st prod.case mat res_bind.simps Let_def ..
    with I show "\<exists>st'. rank_counts_step bits j st = Ok st' \<and> ?I (Suc j) st'" by (simp add: st)
  qed simp_all
  then obtain st where "fold_res (rank_counts_step bits) [0..<length bits div 1024] (0, 0, 0) = Ok st"
      "?I (length bits div 1024) st" by blast
  then show ?thesis using assms by (cases st) (simp add: rank_counts_def Let_def)
qed

lemma block_complexities_Ok:
  assumes "list_all is_bit bits" "1 \<le> length bits div 500"
  shows "\<exists>ls. block_complexities bits = Ok (Some ls) \<and> length ls = length bits div 500"
proof -
  let ?f = "\<lambda>j. res_bind (slice_res bits (j * 500) ((j + 1) * 500)) berlekamp_massey"
  have one: "\<exists>l. ?f j = Ok l" if "j < length bits div 500" for j
  proof -
    have "list_all is_bit (take 500 (drop (j * 500) bits))"
      using assms(1) by (auto simp: list_all_iff dest: in_set_takeD in_set_dropD)
    from berlekamp_massey_spec [OF this] show ?thesis by (subst slice_block [OF that]) auto
  qed
  have "\<exists>ls. collect_res ?f [0..<length bits div 500] = Ok ls"
    by (rule collect_res_Ok, rule one) simp
  then obtain ls where ls: "collect_res ?f [0..<length bits div 500] = Ok ls" by blast
  with collect_res_OkD [OF ls] assms(2) show ?thesis by (simp add: block_complexities_def Let_def)
qed

section \<open>Bit reversal is an involution\<close>

lemma bit_rev_fold:
  "k \<le> 64 \<Longrightarrow>
   snd (fold (\<lambda>_ st. (push_bit 1 (fst st) OR (snd st AND 1), drop_bit 1 (snd st))) [0..<k] (0, x)) = drop_bit k x \<and>
   (\<forall>i. bit (fst (fold (\<lambda>_ st. (push_bit 1 (fst st) OR (snd st AND 1), drop_bit 1 (snd st))) [0..<k] (0, x))) i
     \<longleftrightarrow> i < k \<and> bit x (k - 1 - i))" for x :: u64
proof (induction k)
  case (Suc k)
  have "bit (push_bit 1 r OR (drop_bit k x AND 1)) i \<longleftrightarrow> i < Suc k \<and> bit x (Suc k - 1 - i)"
    if "\<forall>i. bit r i \<longleftrightarrow> i < k \<and> bit x (k - 1 - i)" for r :: u64 and i
  proof (cases i)
    case 0
    then show ?thesis by (simp add: bit_or_iff bit_and_iff bit_drop_bit_eq) (simp add: bit_0)
  next
    case i_Suc: (Suc i')
    have "bit (push_bit 1 r) (Suc i') \<longleftrightarrow> Suc i' < 64 \<and> bit r i'"
      unfolding bit_push_bit_iff by simp
    moreover have "\<not> bit (drop_bit k x AND 1) (Suc i')" unfolding bit_and_iff bit_1_iff by simp
    moreover have "i' < k \<and> bit x (k - 1 - i') \<longleftrightarrow> bit r i'" using that by blast
    moreover have "i' < k \<Longrightarrow> Suc i' < 64" using \<open>Suc k \<le> 64\<close> by simp
    ultimately show ?thesis unfolding i_Suc bit_or_iff by auto
  qed
  with Suc show ?case by (simp add: drop_bit_drop_bit)
qed simp

lemma bit_bit_rev: "k \<le> 64 \<Longrightarrow> bit (bit_rev x k) i \<longleftrightarrow> i < k \<and> bit x (k - 1 - i)"
  using bit_rev_fold [of k x] by (simp add: bit_rev_def)

lemma bit_rev_bit_rev: "k \<le> 64 \<Longrightarrow> bit_rev (bit_rev x k) k = take_bit k x"
  by (rule bit_eqI) (auto simp: bit_bit_rev bit_take_bit_iff)

lemma bit_rev_less: "k \<le> 63 \<Longrightarrow> unat (bit_rev x k) < 2 ^ k"
proof -
  assume k: "k \<le> 63"
  then have "take_bit k (bit_rev x k) = bit_rev x k"
    by (intro bit_eqI) (auto simp: bit_take_bit_iff bit_bit_rev)
  then have "unat (bit_rev x k) = take_bit k (unat (bit_rev x k))" by (metis unsigned_take_bit_eq)
  then show ?thesis by (metis take_bit_nat_less_exp)
qed

lemma bit_rev_index_less: "k \<le> 63 \<Longrightarrow> bit_rev_index k i < 2 ^ k"
  by (simp add: bit_rev_index_def bit_rev_less)

lemma bit_rev_index_involution:
  assumes "k \<le> 63" "i < 2 ^ k"
  shows "bit_rev_index k (bit_rev_index k i) = i"
proof -
  have "(2 :: nat) ^ k \<le> 2 ^ 64" using assms(1) by (intro power_increasing) auto
  with assms(2) have "i < 2 ^ 64" by linarith
  have "bit_rev_index k (bit_rev_index k i) = unat (take_bit k (of_nat i :: u64))"
    using assms by (simp add: bit_rev_index_def bit_rev_bit_rev)
  also have "\<dots> = take_bit k (unat (of_nat i :: u64))" by (simp only: unsigned_take_bit_eq)
  also have "\<dots> = i" using assms \<open>i < 2 ^ 64\<close> by (simp add: unat_of_nat take_bit_nat_eq_self)
  finally show ?thesis .
qed

lemma reorder_fold:
  assumes k: "k \<le> 63" and len: "length xs = 2 ^ k" and "n \<le> 2 ^ k"
  shows "length (fold (reorder_step k) [0..<n] xs) = 2 ^ k \<and>
    (\<forall>p < 2 ^ k. fold (reorder_step k) [0..<n] xs ! p =
       (if p < n \<or> bit_rev_index k p < n then xs ! bit_rev_index k p else xs ! p))"
  using assms(3)
proof (induction n)
  case (Suc n)
  obtain ys where ys: "fold (reorder_step k) [0..<n] xs = ys" by simp
  let ?r = "bit_rev_index k"
  have n: "n < 2 ^ k" using Suc.prems by simp
  from Suc ys have len': "length ys = 2 ^ k"
    and nth: "\<And>p. p < 2 ^ k \<Longrightarrow> ys ! p = (if p < n \<or> ?r p < n then xs ! ?r p else xs ! p)" by auto
  have rr: "?r (?r p) = p" if "p < 2 ^ k" for p using bit_rev_index_involution [OF k that] .
  have rl: "?r p < 2 ^ k" for p using bit_rev_index_less [OF k] .
  have meet: "?r p = n \<longleftrightarrow> p = ?r n" if "p < 2 ^ k" for p using rr that n by metis
  have step: "fold (reorder_step k) [0..<Suc n] xs = reorder_step k n ys" using ys by simp
  have "reorder_step k n ys ! p = (if p < Suc n \<or> ?r p < Suc n then xs ! ?r p else xs ! p)"
    if p: "p < 2 ^ k" for p
  proof (cases "n < ?r n")
    case True
    then have "ys ! n = xs ! n" "ys ! ?r n = xs ! ?r n" using nth n rl rr by auto
    then show ?thesis
      using True p nth [OF p] meet [OF p] len' n rl [of n] rr [OF n]
      by (auto simp: reorder_step_def Let_def nth_list_update less_Suc_eq)
  next
    case False
    then have "reorder_step k n ys = ys" by (simp add: reorder_step_def Let_def)
    moreover have "p \<noteq> n \<and> ?r p \<noteq> n \<or> ?r n < n \<or> ?r n = n" using False by auto
    ultimately show ?thesis
      using nth [OF p] meet [OF p] rr [OF n] by (auto simp: less_Suc_eq)
  qed
  with len' show ?case unfolding step by (simp add: reorder_step_def Let_def)
qed (use len in simp)

section \<open>Properties\<close>

text \<open>
  C27: the excursion test tallies the complete cycles of the random walk: for a state \<open>x\<close>
  other than zero, entry \<open>k\<close> of the tally is the number of stretches between two zeros with
  exactly \<open>k\<close> visits to \<open>x\<close> (five or more for the last entry), and the entries add up
  to the number of zero crossings that the walk reports.
\<close>

theorem excursion_counts_cycles:
  assumes "x \<noteq> 0"
  shows "excursion_counts (fst (build_walk bits)) x =
      map (\<lambda>k. length (filter (visited x k) (cycles [] (tl (fst (build_walk bits)))))) [0..<6]
    \<and> sum_list (excursion_counts (fst (build_walk bits)) x) = snd (build_walk bits)"
proof -
  have "sum_list (excursion_counts (walk_from 0 bits) x) = length (cycles [] (tl (walk_from 0 bits)))"
    unfolding excursion_counts_spec [OF assms] by (rule sum_visited)
  then show ?thesis using excursion_counts_spec [OF assms, of bits]
    by (simp add: build_walk_def Let_def length_cycles)
qed

theorem excursion_counts_cycles_witness:
  "excursion_counts (fst (build_walk [1, 0, 0, 1, 1, 1, 0, 1, 0, 0, 1])) 1 = [1, 1, 0, 1, 0, 0] \<and>
   sum_list (excursion_counts (fst (build_walk [1, 0, 0, 1, 1, 1, 0, 1, 0, 0, 1])) 1) = 3"
proof -
  let ?b = "[1, 0, 0, 1, 1, 1, 0, 1, 0, 0, 1]"
  have "excursion_counts (fst (build_walk ?b)) 1 = [1, 1, 0, 1, 0, 0]" "snd (build_walk ?b) = 3"
    by code_simp+
  moreover have "sum_list (excursion_counts (fst (build_walk ?b)) 1) = snd (build_walk ?b)"
    by (rule conjunct2 [OF excursion_counts_cycles]) simp
  ultimately show ?thesis by simp
qed

text \<open>
  The reordering loop of the Fourier transform puts at every index the element from the
  bit-reversed index, for every array length that is a power of two.
\<close>

lemma bit_rev_reorder_permutes:
  assumes "k \<le> 63" "length xs = 2 ^ k" "p < 2 ^ k"
  shows "bit_rev_reorder k xs ! p = xs ! bit_rev_index k p \<and>
    bit_rev_index k p < 2 ^ k \<and> bit_rev_index k (bit_rev_index k p) = p"
  using reorder_fold [OF assms(1,2), of "2 ^ k"] assms bit_rev_index_less bit_rev_index_involution
  by (simp add: bit_rev_reorder_def)

end
