(* ===== verification/Fft.thy ===== *)
theory Fft
  imports Floats StsWalk Padding
begin

text \<open>
  The in-place Fourier transform of \<open>rust/src/bin/sts.rs\<close> (\<open>fft_inplace\<close>), over any
  arithmetic, with its array accesses checked. It never leaves the arrays, and over the real
  numbers it computes the discrete Fourier transform.
\<close>

section \<open>The transform\<close>

definition swap_res :: "'a list \<Rightarrow> nat \<Rightarrow> nat \<Rightarrow> ('a list, error) res" where
  "swap_res xs i j = (if i < length xs \<and> j < length xs then Ok (xs[i := xs ! j, j := xs ! i]) else Panic)"

definition swap_step :: "nat \<Rightarrow> nat \<Rightarrow> 'f list \<times> 'f list \<Rightarrow> ('f list \<times> 'f list, error) res" where
  "swap_step log2n i st =
     (let j = bit_rev_index log2n i
      in if i < j
         then res_bind (swap_res (fst st) i j) (\<lambda>re. res_bind (swap_res (snd st) i j) (\<lambda>im. Ok (re, im)))
         else Ok st)"

text \<open>One butterfly; \<open>(ur, ui)\<close> is the current power of the root of unity \<open>(wre, wim)\<close>.\<close>

definition butterfly ::
  "('f, 'z) fring_scheme \<Rightarrow> nat \<Rightarrow> 'f \<Rightarrow> 'f \<Rightarrow> nat \<Rightarrow> nat \<Rightarrow> ('f list \<times> 'f list) \<times> 'f \<times> 'f
     \<Rightarrow> (('f list \<times> 'f list) \<times> 'f \<times> 'f, error) res" where
  "butterfly A half wre wim i j st =
     (case st of ((re, im), ur, ui) \<Rightarrow>
        res_bind (nth_res re (i + j)) (\<lambda>are. res_bind (nth_res im (i + j)) (\<lambda>aim.
        res_bind (nth_res re (i + j + half)) (\<lambda>bre. res_bind (nth_res im (i + j + half)) (\<lambda>bim.
          let cr = f_sub A (f_mul A bre ur) (f_mul A bim ui);
              ci = f_add A (f_mul A bre ui) (f_mul A bim ur);
              re = re[i + j := f_add A are cr];
              im = im[i + j := f_add A aim ci];
              re = re[i + j + half := f_sub A are cr];
              im = im[i + j + half := f_sub A aim ci];
              nu = f_sub A (f_mul A ur wre) (f_mul A ui wim);
              ui = f_add A (f_mul A ur wim) (f_mul A ui wre)
          in Ok ((re, im), nu, ui))))))"

definition fft_group ::
  "('f, 'z) fring_scheme \<Rightarrow> nat \<Rightarrow> 'f \<Rightarrow> 'f \<Rightarrow> nat \<Rightarrow> 'f list \<times> 'f list \<Rightarrow> ('f list \<times> 'f list, error) res" where
  "fft_group A half wre wim i st =
     res_bind (fold_res (butterfly A half wre wim i) [0..<half] (st, f_int A 1, f_int A 0)) (\<lambda>r. Ok (fst r))"

text \<open>
  The two loops. \<open>half\<close> starts at one and doubles, so it is never zero; the guard on it only
  makes the definitions total.
\<close>

function fft_groups ::
  "('f, 'z) fring_scheme \<Rightarrow> nat \<Rightarrow> nat \<Rightarrow> 'f \<Rightarrow> 'f \<Rightarrow> nat \<Rightarrow> 'f list \<times> 'f list
     \<Rightarrow> ('f list \<times> 'f list, error) res" where
  "fft_groups A n half wre wim i st =
     (if i < n \<and> 0 < half
      then res_bind (fft_group A half wre wim i st) (fft_groups A n half wre wim (i + 2 * half))
      else Ok st)"
  by pat_completeness auto
termination by (relation "measure (\<lambda>(A, n, half, wre, wim, i, st). n - i)") auto

definition fft_level ::
  "('f, 'z) fring_scheme \<Rightarrow> nat \<Rightarrow> nat \<Rightarrow> 'f list \<times> 'f list \<Rightarrow> ('f list \<times> 'f list, error) res" where
  "fft_level A n half st =
     (let ang = f_div A (f_neg A (f_pi A)) (f_int A (int half))
      in fft_groups A n half (f_cos A ang) (f_sin A ang) 0 st)"

function fft_levels ::
  "('f, 'z) fring_scheme \<Rightarrow> nat \<Rightarrow> nat \<Rightarrow> 'f list \<times> 'f list \<Rightarrow> ('f list \<times> 'f list, error) res" where
  "fft_levels A n half st =
     (if half < n \<and> 0 < half then res_bind (fft_level A n half st) (fft_levels A n (half * 2)) else Ok st)"
  by pat_completeness auto
termination by (relation "measure (\<lambda>(A, n, half, st). n - half)") auto

declare fft_groups.simps [simp del] fft_levels.simps [simp del]

definition fft_inplace ::
  "('f, 'z) fring_scheme \<Rightarrow> 'f list \<times> 'f list \<Rightarrow> ('f list \<times> 'f list, error) res" where
  "fft_inplace A st =
     (let n = length (fst st); log2n = trailing_zeros 64 n
      in if \<not> is_power_of_two n then Panic
         else res_bind (fold_res (swap_step log2n) [0..<n] st) (fft_levels A n 1))"

section \<open>Accesses stay in range\<close>

lemma is_power_of_two_power [simp]: "is_power_of_two (2 ^ k)"
  by (simp add: is_power_of_two_def bit_len_power)

lemma swap_fold:
  assumes "k \<le> 63" "length re = 2 ^ k" "length im = 2 ^ k" "n \<le> 2 ^ k"
  shows "fold_res (swap_step k) [0..<n] (re, im) =
    Ok (fold (reorder_step k) [0..<n] re, fold (reorder_step k) [0..<n] im)"
  using assms(4)
proof (induction n)
  case (Suc n)
  let ?re = "fold (reorder_step k) [0..<n] re" and ?im = "fold (reorder_step k) [0..<n] im"
  have "length ?re = 2 ^ k" "length ?im = 2 ^ k" using reorder_fold [of k _ n] assms Suc.prems by auto
  then have "swap_step k n (?re, ?im) = Ok (reorder_step k n ?re, reorder_step k n ?im)"
    using bit_rev_index_less [OF assms(1), of n] Suc.prems
    by (simp add: swap_step_def swap_res_def reorder_step_def Let_def)
  with Suc show ?case by (simp add: fold_res_append)
qed simp

lemma fft_groups_fold:
  "0 < half \<Longrightarrow> d \<le> c \<Longrightarrow> fft_groups A (c * (2 * half)) half wre wim (d * (2 * half)) st =
     fold_res (\<lambda>d. fft_group A half wre wim (d * (2 * half))) [d..<c] st"
proof (induction "c - d" arbitrary: d st)
  case 0
  then show ?case by (subst fft_groups.simps) simp
next
  case (Suc x)
  then have "d < c" by simp
  with Suc have "fft_groups A (c * (2 * half)) half wre wim (Suc d * (2 * half)) st =
     fold_res (\<lambda>d. fft_group A half wre wim (d * (2 * half))) [Suc d..<c] st" for st
    by (intro Suc(1)) auto
  then have "fft_groups A (c * (2 * half)) half wre wim (d * (2 * half) + 2 * half) =
     fold_res (\<lambda>d. fft_group A half wre wim (d * (2 * half))) [Suc d..<c]"
    by (intro ext) (simp add: add.commute)
  with \<open>d < c\<close> Suc.prems show ?case
    by (subst fft_groups.simps) (simp add: upt_conv_Cons)
qed

definition both_len :: "nat \<Rightarrow> 'f list \<times> 'f list \<Rightarrow> bool" where
  "both_len n st = (length (fst st) = n \<and> length (snd st) = n)"

lemma butterfly_Ok:
  assumes "both_len n (fst st)" "i + j + half < n"
  shows "\<exists>st'. butterfly A half wre wim i j st = Ok st' \<and> both_len n (fst st')"
  using assms by (cases st) (auto simp: butterfly_def both_len_def Let_def)

lemma fft_group_Ok:
  assumes "both_len n st" "i + 2 * half \<le> n"
  shows "\<exists>st'. fft_group A half wre wim i st = Ok st' \<and> both_len n st'"
proof -
  have "\<exists>r. fold_res (butterfly A half wre wim i) [0..<half] (st, f_int A 1, f_int A 0) = Ok r \<and> both_len n (fst r)"
    using assms by (intro fold_res_range [where I = "\<lambda>_ r. both_len n (fst r)"] butterfly_Ok) auto
  then show ?thesis by (auto simp: fft_group_def)
qed

lemma fft_level_Ok:
  assumes "both_len (c * (2 * half)) st" "0 < half"
  shows "\<exists>st'. fft_level A (c * (2 * half)) half st = Ok st' \<and> both_len (c * (2 * half)) st'"
proof -
  have "d * (2 * half) + 2 * half \<le> c * (2 * half)" if "d < c" for d
    using mult_le_mono1 [of "Suc d" c "2 * half"] that by simp
  then have "\<exists>st'. fold_res (\<lambda>d. fft_group A half wre wim (d * (2 * half))) [0..<c] st = Ok st' \<and>
      both_len (c * (2 * half)) st'" for wre wim
    using assms(1) by (intro fold_res_range [where I = "\<lambda>_. both_len (c * (2 * half))"] fft_group_Ok) auto
  moreover have "fft_groups A (c * (2 * half)) half wre wim 0 st =
      fold_res (\<lambda>d. fft_group A half wre wim (d * (2 * half))) [0..<c] st" for wre wim
    using fft_groups_fold [OF assms(2), of 0 c A wre wim st] by simp
  ultimately show ?thesis unfolding fft_level_def Let_def by metis
qed

lemma fft_levels_Ok:
  "s \<le> k \<Longrightarrow> both_len (2 ^ k) st \<Longrightarrow> \<exists>st'. fft_levels A (2 ^ k) (2 ^ s) st = Ok st' \<and> both_len (2 ^ k) st'"
proof (induction "k - s" arbitrary: s st)
  case 0
  then show ?case by (subst fft_levels.simps) simp
next
  case (Suc x)
  then have "s < k" by simp
  then have "(2 :: nat) ^ k = 2 ^ (k - Suc s) * (2 * 2 ^ s)" by (simp flip: power_Suc power_add)
  with fft_level_Ok [of "2 ^ (k - Suc s)" "2 ^ s" st A] Suc.prems obtain st' where
    st': "fft_level A (2 ^ k) (2 ^ s) st = Ok st'" "both_len (2 ^ k) st'" by auto
  with Suc(1) [of "Suc s" st'] Suc(2) \<open>s < k\<close> show ?case
    by (subst fft_levels.simps) (simp add: mult.commute)
qed

lemma fft_inplace_eq:
  assumes "k \<le> 63" "length re = 2 ^ k" "length im = 2 ^ k"
  shows "fft_inplace A (re, im) = fft_levels A (2 ^ k) 1 (bit_rev_reorder k re, bit_rev_reorder k im)"
  using swap_fold [OF assms, of "2 ^ k"] assms
  by (simp add: fft_inplace_def trailing_zeros_power bit_rev_reorder_def Let_def)

lemma both_len_reorder:
  assumes "k \<le> 63" "length re = 2 ^ k" "length im = 2 ^ k"
  shows "both_len (2 ^ k) (bit_rev_reorder k re, bit_rev_reorder k im)"
  using reorder_fold [OF assms(1,2), of "2 ^ k"] reorder_fold [OF assms(1,3), of "2 ^ k"] assms
  by (simp add: both_len_def bit_rev_reorder_def)

lemma fft_inplace_Ok:
  assumes "k \<le> 63" "both_len (2 ^ k) st"
  shows "\<exists>st'. fft_inplace A st = Ok st' \<and> both_len (2 ^ k) st'"
proof -
  obtain re im where st: "st = (re, im)" "length re = 2 ^ k" "length im = 2 ^ k"
    using assms(2) by (cases st) (auto simp: both_len_def)
  from fft_levels_Ok [of 0 k, OF _ both_len_reorder [OF assms(1) st(2,3)], of A] show ?thesis
    unfolding st(1) fft_inplace_eq [OF assms(1) st(2,3)] by simp
qed

section \<open>Over the real numbers it is the Fourier transform\<close>

definition cx :: "real list \<times> real list \<Rightarrow> nat \<Rightarrow> complex" where
  "cx st p = Complex (fst st ! p) (snd st ! p)"

text \<open>The power \<open>t\<close> of the root of unity of order \<open>n\<close>, and the transform of \<open>n\<close> values.\<close>

definition unity :: "nat \<Rightarrow> nat \<Rightarrow> complex" where
  "unity n t = cis (- 2 * pi * real t / real n)"

definition dft :: "nat \<Rightarrow> (nat \<Rightarrow> complex) \<Rightarrow> nat \<Rightarrow> complex" where
  "dft n x j = (\<Sum>t<n. x t * unity n (j * t))"

lemma butterfly_exact:
  assumes "both_len n st" "i + j + half < n" "0 < half"
  shows "\<exists>st' ur' ui'. butterfly exact_arith half wre wim i j (st, ur, ui) = Ok (st', ur', ui') \<and>
    both_len n st' \<and> Complex ur' ui' = Complex ur ui * Complex wre wim \<and>
    (\<forall>p < n. cx st' p =
       (if p = i + j then cx st (i + j) + Complex ur ui * cx st (i + j + half)
        else if p = i + j + half then cx st (i + j) - Complex ur ui * cx st (i + j + half)
        else cx st p))"
proof -
  obtain re im where st: "st = (re, im)" "length re = n" "length im = n"
    using assms(1) by (cases st) (auto simp: both_len_def)
  show ?thesis
    by (rule exI, rule exI [of _ "ur * wre - ui * wim"], rule exI [of _ "ur * wim + ui * wre"])
      (use assms st in \<open>auto simp: butterfly_def both_len_def exact_arith_def Let_def cx_def
         nth_list_update complex_eq_iff algebra_simps\<close>)
qed

lemma unity_root: "0 < half \<Longrightarrow> Complex (cos (- pi / real half)) (sin (- pi / real half)) = unity (2 * half) 1"
  by (simp add: unity_def cis.ctr)

lemma unity_mult: "unity n s * unity n t = unity n (s + t)"
  by (simp add: unity_def cis_mult ring_distribs diff_divide_distrib)

lemma unity_0 [simp]: "unity n 0 = 1"
  by (simp add: unity_def)

lemma unity_double: "unity (2 * n) (2 * t) = unity n t"
  by (cases "n = 0") (simp_all add: unity_def mult.assoc)

lemma unity_half: "0 < n \<Longrightarrow> unity (2 * n) (n + t) = - unity (2 * n) t"
proof -
  assume "0 < n"
  then have "unity (2 * n) n = - 1" by (simp add: unity_def complex_eq_iff)
  then show ?thesis by (simp flip: unity_mult)
qed

lemma unity_full: "0 < n \<Longrightarrow> unity n (n * t) = 1"
proof (induction t)
  case (Suc t)
  then have "unity n n = 1" by (simp add: unity_def complex_eq_iff)
  with Suc show ?case by (simp flip: unity_mult)
qed simp

lemma fft_group_exact:
  assumes "both_len n st" "i + 2 * half \<le> n" "0 < half"
  shows "\<exists>st'. fft_group exact_arith half (cos (- pi / real half)) (sin (- pi / real half)) i st = Ok st' \<and>
    both_len n st' \<and> (\<forall>p < n. cx st' p =
      (if i \<le> p \<and> p < i + half then cx st p + unity (2 * half) (p - i) * cx st (p + half)
       else if i + half \<le> p \<and> p < i + half + half then cx st (p - half) - unity (2 * half) (p - half - i) * cx st p
       else cx st p))"
proof -
  let ?w = "unity (2 * half)"
  let ?I = "\<lambda>j (st', ur, ui). both_len n st' \<and> Complex ur ui = ?w j \<and> (\<forall>p < n. cx st' p =
      (if i \<le> p \<and> p < i + j then cx st p + ?w (p - i) * cx st (p + half)
       else if i + half \<le> p \<and> p < i + half + j then cx st (p - half) - ?w (p - half - i) * cx st p
       else cx st p))"
  let ?f = "butterfly exact_arith half (cos (- pi / real half)) (sin (- pi / real half)) i"
  have "\<exists>r. fold_res ?f [0..<half] (st, f_int exact_arith 1, f_int exact_arith 0) = Ok r \<and> ?I half r"
  proof (rule fold_res_range [where I = ?I])
    show "?I 0 (st, f_int exact_arith 1, f_int exact_arith 0)"
      using assms(1) by (simp add: exact_arith_def complex_eq_iff)
    fix j r
    assume j: "j < half" and I: "?I j r"
    obtain s1 ur ui where r: "r = (s1, ur, ui)" by (cases r)
    have s1: "both_len n s1" "Complex ur ui = ?w j" using I by (simp_all add: r)
    have "i + j + half < n" using j assms(2) by simp
    from butterfly_exact [OF s1(1) this assms(3), of "cos (- pi / real half)" "sin (- pi / real half)" ur ui]
    obtain s2 ur' ui' where s2: "?f j r = Ok (s2, ur', ui')" "both_len n s2"
      "Complex ur' ui' = ?w j * ?w 1"
      "\<forall>p < n. cx s2 p = (if p = i + j then cx s1 (i + j) + ?w j * cx s1 (i + j + half)
        else if p = i + j + half then cx s1 (i + j) - ?w j * cx s1 (i + j + half) else cx s1 p)"
      unfolding r s1(2) unity_root [OF assms(3)] by auto
    have "cx s1 (i + j) = cx st (i + j)" "cx s1 (i + j + half) = cx st (i + j + half)"
      using I j assms(2) by (auto simp: r)
    then have "\<forall>p < n. cx s2 p =
      (if i \<le> p \<and> p < i + Suc j then cx st p + ?w (p - i) * cx st (p + half)
       else if i + half \<le> p \<and> p < i + half + Suc j then cx st (p - half) - ?w (p - half - i) * cx st p
       else cx st p)"
      using s2(4) I j by (auto simp: r less_Suc_eq)
    moreover have "Complex ur' ui' = ?w (Suc j)" by (simp add: s2(3) unity_mult)
    ultimately show "\<exists>r'. ?f j r = Ok r' \<and> ?I (Suc j) r'" using s2(1,2) by auto
  qed (use assms in simp)
  then show ?thesis by (auto simp: fft_group_def)
qed

lemma fft_level_exact:
  assumes "both_len (c * (2 * half)) st" "0 < half"
  shows "\<exists>st'. fft_level exact_arith (c * (2 * half)) half st = Ok st' \<and> both_len (c * (2 * half)) st' \<and>
    (\<forall>d < c. \<forall>j < half.
      cx st' (d * (2 * half) + j) = cx st (d * (2 * half) + j) + unity (2 * half) j * cx st (d * (2 * half) + half + j) \<and>
      cx st' (d * (2 * half) + half + j) = cx st (d * (2 * half) + j) - unity (2 * half) j * cx st (d * (2 * half) + half + j))"
proof -
  let ?L = "2 * half" and ?w = "unity (2 * half)"
  let ?f = "\<lambda>d. fft_group exact_arith half (cos (- pi / real half)) (sin (- pi / real half)) (d * ?L)"
  let ?I = "\<lambda>e st'. both_len (c * ?L) st' \<and>
    (\<forall>d < e. \<forall>j < half.
      cx st' (d * ?L + j) = cx st (d * ?L + j) + ?w j * cx st (d * ?L + half + j) \<and>
      cx st' (d * ?L + half + j) = cx st (d * ?L + j) - ?w j * cx st (d * ?L + half + j)) \<and>
    (\<forall>p. e * ?L \<le> p \<and> p < c * ?L \<longrightarrow> cx st' p = cx st p)"
  have "\<exists>st'. fold_res ?f [0..<c] st = Ok st' \<and> ?I c st'"
  proof (rule fold_res_range [where I = ?I])
    fix e s1
    assume e: "e < c" and I: "?I e s1"
    have le: "e * ?L + ?L \<le> c * ?L" using mult_le_mono1 [of "Suc e" c ?L] e by simp
    from I have s1: "both_len (c * ?L) s1" by blast
    from fft_group_exact [OF s1 le assms(2)] obtain s2 where
      s2: "?f e s1 = Ok s2" "both_len (c * ?L) s2" and
      nth: "\<And>p. p < c * ?L \<Longrightarrow> cx s2 p =
        (if e * ?L \<le> p \<and> p < e * ?L + half then cx s1 p + ?w (p - e * ?L) * cx s1 (p + half)
         else if e * ?L + half \<le> p \<and> p < e * ?L + half + half
           then cx s1 (p - half) - ?w (p - half - e * ?L) * cx s1 p
         else cx s1 p)" by blast
    have old: "cx s1 p = cx st p" if "e * ?L \<le> p" "p < c * ?L" for p using I that by blast
    have "cx s2 (d * ?L + j) = cx st (d * ?L + j) + ?w j * cx st (d * ?L + half + j) \<and>
        cx s2 (d * ?L + half + j) = cx st (d * ?L + j) - ?w j * cx st (d * ?L + half + j)"
      if d: "d < Suc e" and j: "j < half" for d j
    proof (cases "d = e")
      case True
      show ?thesis
        using nth [of "e * ?L + j"] nth [of "e * ?L + half + j"] old [of "e * ?L + j"] old [of "e * ?L + half + j"]
          le j unfolding True by (simp add: add.commute add.left_commute)
    next
      case False
      then have de: "d < e" using d by simp
      have "d * ?L + ?L \<le> e * ?L" using mult_le_mono1 [of "Suc d" e ?L] de by simp
      then have "cx s2 (d * ?L + j) = cx s1 (d * ?L + j)" "cx s2 (d * ?L + half + j) = cx s1 (d * ?L + half + j)"
        using nth [of "d * ?L + j"] nth [of "d * ?L + half + j"] le j by auto
      with I de j show ?thesis by simp
    qed
    moreover have "cx s2 p = cx st p" if "Suc e * ?L \<le> p \<and> p < c * ?L" for p
      using nth [of p] old [of p] that by simp
    ultimately show "\<exists>s2. ?f e s1 = Ok s2 \<and> ?I (Suc e) s2" using s2 by blast
  qed (use assms in auto)
  then show ?thesis using fft_groups_fold [OF assms(2), of 0 c exact_arith _ _ st]
    by (auto simp: fft_level_def exact_arith_def Let_def)
qed

text \<open>A transform of \<open>2h\<close> values from those of its even and its odd positions.\<close>

lemma sum_even_odd: "(\<Sum>t<2 * h. f t) = (\<Sum>t<h. f (2 * t)) + (\<Sum>t<h. f (2 * t + 1))" for f :: "nat \<Rightarrow> complex"
  by (induction h) auto

lemma dft_combine:
  assumes "0 < h"
  shows "dft (2 * h) y j = dft h (\<lambda>t. y (2 * t)) j + unity (2 * h) j * dft h (\<lambda>t. y (2 * t + 1)) j"
proof -
  have "unity (2 * h) (j * (2 * t)) = unity h (j * t)" for t
    using unity_double [of h "j * t"] by (simp add: mult.left_commute)
  moreover have "unity (2 * h) (j * (2 * t + 1)) = unity (2 * h) j * unity h (j * t)" for t
    using unity_double [of h "j * t"] unity_mult [of "2 * h" j "2 * (j * t)"]
    by (simp add: algebra_simps)
  ultimately show ?thesis
    by (simp add: dft_def sum_even_odd sum_distrib_left mult.left_commute)
qed

lemma dft_period: "0 < h \<Longrightarrow> dft h y (h + j) = dft h y j"
  by (simp add: dft_def distrib_right unity_full flip: unity_mult)

lemma dft_combine_upper:
  assumes "0 < h"
  shows "dft (2 * h) y (h + j) = dft h (\<lambda>t. y (2 * t)) j - unity (2 * h) j * dft h (\<lambda>t. y (2 * t + 1)) j"
  using assms by (simp add: dft_combine dft_period unity_half)

lemma bit_rev_index_shift:
  assumes "Suc m \<le> 63" "c \<le> 1"
  shows "bit_rev_index (Suc m) (2 * b + c) = bit_rev_index m b + c * 2 ^ m"
proof -
  have R: "bit (bit_rev_index k x) i \<longleftrightarrow> i < k \<and> bit x (k - 1 - i)" if "k \<le> 63" for k x i
    using that by (auto simp: bit_rev_index_def bit_unsigned_iff bit_bit_rev bit_of_nat_iff)
  have low: "bit (c * 2 ^ m) i \<longleftrightarrow> c = 1 \<and> i = m" for i
    using assms(2) by (cases c) (auto simp: bit_exp_iff)
  have "bit_rev_index m b + c * 2 ^ m = bit_rev_index m b OR c * 2 ^ m"
    using assms(1) by (intro disjunctive_add_eq_or bit_eqI) (auto simp: bit_and_iff R low)
  moreover have "bit (2 * b + c) i \<longleftrightarrow> (if i = 0 then c = 1 else bit b (i - 1))" for i
    using assms(2) by (cases i) (auto simp: bit_0 bit_Suc le_Suc_eq)
  ultimately show ?thesis using assms
    by (intro bit_eqI) (auto simp: bit_or_iff R low less_Suc_eq)
qed

text \<open>
  After the levels up to \<open>half = 2^s\<close>, block \<open>b\<close> holds the transform of the input
  positions congruent to the reversal of \<open>b\<close> modulo \<open>2^(k - s)\<close>.
\<close>

definition level_done :: "nat \<Rightarrow> (nat \<Rightarrow> complex) \<Rightarrow> nat \<Rightarrow> real list \<times> real list \<Rightarrow> bool" where
  "level_done k x s st = (\<forall>b < 2 ^ (k - s). \<forall>j < 2 ^ s.
     cx st (b * 2 ^ s + j) = dft (2 ^ s) (\<lambda>t. x (bit_rev_index (k - s) b + t * 2 ^ (k - s))) j)"

lemma level_done_step:
  assumes "s < k" "k \<le> 63" "both_len (2 ^ k) st" "level_done k x s st"
  shows "\<exists>st'. fft_level exact_arith (2 ^ k) (2 ^ s) st = Ok st' \<and> both_len (2 ^ k) st' \<and> level_done k x (Suc s) st'"
proof -
  define h m where "h = (2 :: nat) ^ s" and "m = k - Suc s"
  have km: "k - s = Suc m" "(2 :: nat) ^ k = 2 ^ m * (2 * h)" "Suc m \<le> 63" "0 < h"
    using assms(1,2) by (simp_all add: h_def m_def flip: power_Suc power_add)
  from fft_level_exact [of "2 ^ m" h st] assms(3) km(4) obtain st' where
    st': "fft_level exact_arith (2 ^ k) h st = Ok st'" "both_len (2 ^ k) st'" and
    nth: "\<And>d j. d < 2 ^ m \<Longrightarrow> j < h \<Longrightarrow>
      cx st' (d * (2 * h) + j) = cx st (d * (2 * h) + j) + unity (2 * h) j * cx st (d * (2 * h) + h + j) \<and>
      cx st' (d * (2 * h) + h + j) = cx st (d * (2 * h) + j) - unity (2 * h) j * cx st (d * (2 * h) + h + j)"
    unfolding km(2) by blast
  have "cx st' (b * (2 * h) + j) = dft (2 * h) (\<lambda>t. x (bit_rev_index m b + t * 2 ^ m)) j"
    if b: "b < 2 ^ m" and j: "j < 2 * h" for b j
  proof -
    let ?y = "\<lambda>t. x (bit_rev_index m b + t * 2 ^ m)"
    have half: "cx st ((2 * b + c) * h + i) = dft h (\<lambda>t. ?y (2 * t + c)) i" if "i < h" "c \<le> 1" for i c
    proof -
      have "2 * b + c < 2 ^ Suc m" using b that(2) by simp
      with assms(4) that(1) km(1) have "cx st ((2 * b + c) * h + i) =
          dft h (\<lambda>t. x (bit_rev_index (Suc m) (2 * b + c) + t * 2 ^ Suc m)) i"
        unfolding level_done_def h_def [symmetric] by metis
      then show ?thesis
        unfolding bit_rev_index_shift [OF km(3) that(2)] by (simp add: algebra_simps)
    qed
    have even: "cx st (b * (2 * h) + i) = dft h (\<lambda>t. ?y (2 * t)) i"
      and odd: "cx st (b * (2 * h) + h + i) = dft h (\<lambda>t. ?y (2 * t + 1)) i" if "i < h" for i
      using half [OF that, of 0] half [OF that, of 1] by (simp_all add: algebra_simps)
    show ?thesis
    proof (cases "j < h")
      case True
      with nth [OF b True] show ?thesis by (simp add: even odd dft_combine [OF km(4)])
    next
      case False
      define i where "i = j - h"
      with False j have "j = h + i" "i < h" by simp_all
      with nth [OF b this(2)] show ?thesis
        by (simp add: even odd dft_combine_upper [OF km(4)] add.assoc [symmetric])
    qed
  qed
  then have "level_done k x (Suc s) st'" by (simp add: level_done_def h_def m_def)
  with st' show ?thesis by (auto simp: h_def)
qed

lemma fft_levels_dft:
  assumes "k \<le> 63"
  shows "s \<le> k \<Longrightarrow> both_len (2 ^ k) st \<Longrightarrow> level_done k x s st \<Longrightarrow>
    \<exists>st'. fft_levels exact_arith (2 ^ k) (2 ^ s) st = Ok st' \<and> both_len (2 ^ k) st' \<and> level_done k x k st'"
proof (induction "k - s" arbitrary: s st)
  case 0
  then show ?case by (subst fft_levels.simps) simp
next
  case (Suc d)
  then have "s < k" by simp
  from level_done_step [OF this assms Suc.prems(2,3)] obtain st' where
    st': "fft_level exact_arith (2 ^ k) (2 ^ s) st = Ok st'" "both_len (2 ^ k) st'" "level_done k x (Suc s) st'"
    by blast
  with Suc(1) [of "Suc s" st'] Suc(2) \<open>s < k\<close> show ?case
    by (subst fft_levels.simps) (simp add: mult.commute)
qed

lemma fft_inplace_exact:
  assumes "k \<le> 63" "length re = 2 ^ k" "length im = 2 ^ k"
  shows "\<exists>st'. fft_inplace exact_arith (re, im) = Ok st' \<and> both_len (2 ^ k) st' \<and>
    (\<forall>j < 2 ^ k. cx st' j = dft (2 ^ k) (cx (re, im)) j)"
proof -
  let ?st = "(bit_rev_reorder k re, bit_rev_reorder k im)"
  have "level_done k (cx (re, im)) 0 ?st"
    using bit_rev_reorder_permutes [OF assms(1,2)] bit_rev_reorder_permutes [OF assms(1,3)]
    by (simp add: level_done_def dft_def cx_def)
  from fft_levels_dft [OF assms(1) _ both_len_reorder [OF assms] this] obtain st' where
    "fft_inplace exact_arith (re, im) = Ok st'" "both_len (2 ^ k) st'" "level_done k (cx (re, im)) k st'"
    unfolding fft_inplace_eq [OF assms] by auto
  moreover have "bit_rev_index 0 0 = 0" by (simp add: bit_rev_index_def bit_rev_def)
  ultimately show ?thesis by (auto simp: level_done_def)
qed

section \<open>Properties\<close>

text \<open>
  C24: on two arrays of the same length \<open>2^k\<close> the in-place transform performs no access out of
  range, and over the real numbers leaves in them the discrete Fourier transform of the input:
  entry \<open>j\<close> is the sum of the inputs \<open>x t\<close> weighted by the power \<open>- j t\<close> of the
  primitive root of unity of order \<open>2^k\<close>.
\<close>

theorem fft_inplace_is_dft:
  assumes "k \<le> 63" and "length re = 2 ^ k" and "length im = 2 ^ k"
  shows "\<exists>re' im'. fft_inplace exact_arith (re, im) = Ok (re', im') \<and>
    length re' = 2 ^ k \<and> length im' = 2 ^ k \<and>
    (\<forall>j < 2 ^ k. Complex (re' ! j) (im' ! j) =
       (\<Sum>t < 2 ^ k. Complex (re ! t) (im ! t) * cis (- 2 * pi * real (j * t) / 2 ^ k)))"
  using fft_inplace_exact [OF assms] by (auto simp: both_len_def cx_def dft_def unity_def)

theorem fft_inplace_is_dft_witness:
  "\<exists>re' im'. fft_inplace exact_arith ([1, - 1, 1, 1], [0, 0, 0, 0]) = Ok (re', im') \<and> Complex (re' ! 0) (im' ! 0) = 2"
proof -
  have "length [1, - 1, 1, 1 :: real] = 2 ^ 2" "length [0, 0, 0, 0 :: real] = 2 ^ 2" by simp_all
  from fft_inplace_is_dft [OF _ this] obtain re' im' where
    r: "fft_inplace exact_arith ([1, - 1, 1, 1], [0, 0, 0, 0]) = Ok (re', im')" and
    "\<forall>j < 2 ^ 2. Complex (re' ! j) (im' ! j) =
       (\<Sum>t < 2 ^ 2. Complex ([1, - 1, 1, 1] ! t) ([0, 0, 0, 0] ! t) * cis (- 2 * pi * real (j * t) / 2 ^ 2))" by auto
  then have "Complex (re' ! 0) (im' ! 0) = (\<Sum>t < 4. Complex ([1, - 1, 1, 1] ! t) ([0, 0, 0, 0] ! t))" by simp
  then have "Complex (re' ! 0) (im' ! 0) = 2"
    by (simp add: numeral_eq_Suc lessThan_Suc complex_eq_iff)
  with r show ?thesis by blast
qed

end
