(* ===== verification/StsTests.thy ===== *)
theory StsTests
  imports StsStream StsPatterns StsMath Fft
begin

text \<open>
  The fifteen statistical tests of \<open>rust/src/bin/sts.rs\<close> as functions from the bits to test
  results: the integer statistics of the other theories, then the floating-point p-values, in
  the order of the code. A value of type \<open>job\<close> is \<open>None\<close> when the computation does
  not end and a result or a panic otherwise.
\<close>

section \<open>Computations that may not end\<close>

type_synonym 'a job = "('a, error) res option"

fun job_bind :: "'a job \<Rightarrow> ('a \<Rightarrow> 'b job) \<Rightarrow> 'b job" where
  "job_bind None f = None"
| "job_bind (Some (Ok a)) f = f a"
| "job_bind (Some (Err e)) f = Some (Err e)"
| "job_bind (Some Panic) f = Some Panic"

definition job_of_option :: "'a option \<Rightarrow> 'a job" where
  "job_of_option v = map_option Ok v"

fun job_list :: "('a \<Rightarrow> 'b job) \<Rightarrow> 'a list \<Rightarrow> 'b list job" where
  "job_list f [] = Some (Ok [])"
| "job_list f (x # xs) = job_bind (f x) (\<lambda>y. job_bind (job_list f xs) (\<lambda>ys. Some (Ok (y # ys))))"

section \<open>Test results\<close>

datatype status = Pass | Fail | Skip

record 'f tr =
  tr_name :: string
  tr_p_value :: 'f
  tr_status :: status
  tr_note :: string

definition Tr_with_note :: "'f farith \<Rightarrow> string \<Rightarrow> 'f \<Rightarrow> string \<Rightarrow> 'f tr" where
  "Tr_with_note A n p note =
     \<lparr>tr_name = n, tr_p_value = p, tr_status = (if f_le A (f_dec A 1 2) p then Pass else Fail), tr_note = note\<rparr>"

definition Tr_new :: "'f farith \<Rightarrow> string \<Rightarrow> 'f \<Rightarrow> 'f tr" where
  "Tr_new A n p =
     \<lparr>tr_name = n, tr_p_value = p, tr_status = (if f_le A (f_dec A 1 2) p then Pass else Fail), tr_note = []\<rparr>"

definition Tr_skip :: "'f farith \<Rightarrow> string \<Rightarrow> string \<Rightarrow> 'f tr" where
  "Tr_skip A n note = \<lparr>tr_name = n, tr_p_value = f_nan A, tr_status = Skip, tr_note = note\<rparr>"

definition p_test :: "'f farith \<Rightarrow> string \<Rightarrow> 'f option \<Rightarrow> 'f tr job" where
  "p_test A n p = job_of_option (map_option (Tr_new A n) p)"

definition p_test_note :: "'f farith \<Rightarrow> string \<Rightarrow> 'f option \<Rightarrow> string \<Rightarrow> 'f tr job" where
  "p_test_note A n p note = job_of_option (map_option (\<lambda>p. Tr_with_note A n p note) p)"

definition halve :: "'f farith \<Rightarrow> 'f \<Rightarrow> 'f" where
  "halve A x = f_div A x (f_dec A 2 0)"

text \<open>\<open>(v - exp).powi(2) / exp\<close>\<close>

definition chi_term :: "'f farith \<Rightarrow> 'f \<Rightarrow> 'f \<Rightarrow> 'f" where
  "chi_term A v e = f_div A (f_powi A (f_sub A v e) 2) e"

section \<open>Frequency and runs\<close>

definition test_monobit :: "'f farith \<Rightarrow> bytes \<Rightarrow> 'f tr job" where
  "test_monobit A bits =
     (let n = f_int A (int (length bits));
          s_obs = f_div A (f_int A \<bar>monobit_sum bits\<bar>) (f_sqrt A n)
      in p_test A ''Monobit'' (erfc A (f_div A s_obs (SQRT_2 A))))"

definition frequency_chi :: "'f farith \<Rightarrow> nat list \<Rightarrow> 'f" where
  "frequency_chi A ones =
     f_mul A (f_sum A (map (\<lambda>k. f_powi A (f_sub A (f_div A (f_int A (int k)) (f_int A 128)) (f_dec A 5 1)) 2) ones))
       (f_int A 512)"

definition test_frequency_block :: "'f farith \<Rightarrow> bytes \<Rightarrow> 'f tr job" where
  "test_frequency_block A bits =
     job_bind (Some (block_ones bits)) (\<lambda>r.
       case r of
         None \<Rightarrow> Some (Ok (Tr_new A ''Frequency Within Block'' (f_dec A 0 0)))
       | Some ones \<Rightarrow>
           p_test A ''Frequency Within Block''
             (igamc A (halve A (f_int A (int (length bits div 128)))) (halve A (frequency_chi A ones))))"

definition test_runs :: "'f farith \<Rightarrow> bytes \<Rightarrow> 'f tr job" where
  "test_runs A bits =
     (let n = f_int A (int (length bits));
          ones = f_int A (int (ones_count bits));
          p = f_div A ones n;
          q = f_sub A (f_dec A 1 0) p
      in if f_le A (f_div A (f_dec A 2 0) (f_sqrt A n)) (f_abs A (f_sub A p (f_dec A 5 1)))
         then Some (Ok (Tr_new A ''Runs'' (f_dec A 0 0)))
         else let v = f_add A (f_dec A 1 0) (f_int A (int (transitions bits)));
                  num = f_abs A (f_sub A v (f_mul A (f_mul A (f_mul A (f_dec A 2 0) n) p) q));
                  den = f_mul A (f_mul A (f_mul A (f_dec A 2 0) (f_sqrt A (f_mul A (f_dec A 2 0) n))) p) q
              in p_test A ''Runs'' (erfc A (f_div A num den)))"

section \<open>Longest run and matrix rank\<close>

definition longest_run_pi :: "nat \<Rightarrow> int list" where
  "longest_run_pi n =
     (if n < 6272 then [2148, 3672, 2305, 1875]
      else if n < 750000 then [1174, 2430, 2493, 1752, 1027, 1124]
      else [882, 2092, 2483, 1933, 1208, 675, 727])"

definition test_longest_run :: "'f farith \<Rightarrow> bytes \<Rightarrow> 'f tr job" where
  "test_longest_run A bits =
     (case longest_run_params (length bits) of (m, k, thresholds) \<Rightarrow>
        job_bind (Some (longest_run_counts bits)) (\<lambda>nu.
          let big_n = f_int A (int (length bits div m));
              chi_sq = f_sum A (map (\<lambda>(v, p). chi_term A (f_int A (int v)) (f_mul A big_n (f_dec A p 4)))
                         (zip nu (longest_run_pi (length bits))))
          in p_test A ''Longest Run Ones In A Block'' (igamc A (halve A (f_int A (int k))) (halve A chi_sq))))"

definition test_binary_matrix_rank :: "'f farith \<Rightarrow> bytes \<Rightarrow> 'f tr job" where
  "test_binary_matrix_rank A bits =
     job_bind (Some (rank_counts bits)) (\<lambda>r.
       case r of
         None \<Rightarrow> Some (Ok (Tr_new A ''Binary Matrix Rank'' (f_dec A 0 0)))
       | Some (f32, f31, frest) \<Rightarrow>
           let bn = f_int A (int (length bits div 1024));
               term = (\<lambda>f p. chi_term A (f_int A (int f)) (f_mul A bn (f_dec A p 4)));
               chi_sq = f_add A (f_add A (term f32 2888) (term f31 5776)) (term frest 1336)
           in Some (Ok (Tr_new A ''Binary Matrix Rank'' (f_exp A (halve A (f_neg A chi_sq))))))"

section \<open>Spectral test\<close>

definition next_power_of_two :: "nat \<Rightarrow> nat" where
  "next_power_of_two n = (if n \<le> 1 then 1 else 2 ^ bit_len (n - 1))"

definition dft_input :: "'f farith \<Rightarrow> bytes \<Rightarrow> 'f list \<times> 'f list" where
  "dft_input A bits =
     (let nfft = next_power_of_two (length bits)
      in (map (\<lambda>b. if b = 1 then f_dec A 1 0 else f_dec A (- 1) 0) bits @
            replicate (nfft - length bits) (f_dec A 0 0),
          replicate nfft (f_dec A 0 0)))"

definition below_threshold :: "'f farith \<Rightarrow> 'f \<Rightarrow> 'f list \<times> 'f list \<Rightarrow> nat \<Rightarrow> (bool, error) res" where
  "below_threshold A threshold st k =
     res_bind (nth_res (fst st) k) (\<lambda>r. res_bind (nth_res (snd st) k) (\<lambda>i.
       Ok (f_lt A (f_sqrt A (f_add A (f_powi A r 2) (f_powi A i 2))) threshold)))"

definition test_dft :: "'f farith \<Rightarrow> bytes \<Rightarrow> 'f tr job" where
  "test_dft A bits =
     job_bind (Some (fft_inplace A (dft_input A bits))) (\<lambda>st.
       let n = f_int A (int (length bits));
           half = length bits div 2;
           threshold = f_sqrt A (f_mul A (f_dec A 2995732274 9) n)
       in job_bind (Some (collect_res (below_threshold A threshold st) [1..<half + 1])) (\<lambda>low.
            let n1 = f_int A (int (length (filter id low)));
                n0 = f_mul A (f_dec A 95 2) (f_int A (int half));
                d = f_div A (f_sub A n1 n0)
                      (f_sqrt A (f_div A (f_mul A (f_mul A n (f_dec A 95 2)) (f_dec A 5 2)) (f_dec A 4 0)))
            in p_test A ''Discrete Fourier Transform'' (erfc A (f_div A (f_abs A d) (SQRT_2 A)))))"

section \<open>Templates\<close>

definition notm_block :: "bytes \<Rightarrow> bytes \<Rightarrow> nat \<Rightarrow> (nat option, error) res" where
  "notm_block bits tmpl j =
     (let block_m = length bits div 8
      in res_bind (slice_res bits (j * block_m) ((j + 1) * block_m)) (\<lambda>b. Ok (count_notm b tmpl)))"

definition notm_p :: "'f farith \<Rightarrow> nat \<Rightarrow> nat list \<Rightarrow> 'f option" where
  "notm_p A block_m counts =
     (let m = f_int A (int block_m);
          mu = f_div A (f_add A (f_sub A m (f_int A 9)) (f_dec A 1 0)) (f_int A 512);
          var = f_mul A m (f_sub A (f_div A (f_dec A 1 0) (f_int A 512)) (f_div A (f_int A 17) (f_int A 262144)));
          chi_sq = f_sum A (map (\<lambda>w. f_div A (f_powi A (f_sub A (f_int A (int w)) mu) 2) var) counts)
      in igamc A (f_div A (f_int A 8) (f_dec A 2 0)) (halve A chi_sq))"

definition notm_template :: "'f farith \<Rightarrow> bytes \<Rightarrow> bytes \<Rightarrow> 'f job" where
  "notm_template A bits tmpl =
     job_bind (job_list (\<lambda>j. job_bind (Some (notm_block bits tmpl j)) job_of_option) [0..<8]) (\<lambda>counts.
       job_of_option (notm_p A (length bits div 8) counts))"

definition test_notm :: "'f farith \<Rightarrow> bytes \<Rightarrow> 'f tr job" where
  "test_notm A bits =
     (let templates = aperiodic_templates 9;
          n_tmpl = f_int A (int (length templates))
      in job_bind (job_list (notm_template A bits) templates) (\<lambda>ps.
           let p_min = foldl (f_min A) (f_inf A) ps;
               p_bonf = f_min A (f_mul A p_min n_tmpl) (f_dec A 1 0)
           in Some (Ok (Tr_with_note A ''Non Overlapping Template Matching'' p_bonf
                ''(Bonferroni-corrected over 148 templates)''))))"

section \<open>Maurer's test and linear complexity\<close>

text \<open>The tables of the test, as numerators over \<open>10^7\<close> and \<open>10^3\<close>.\<close>

definition EXPECTED :: "int list" where
  "EXPECTED =
     [0, 7326495, 15374383, 24016068, 33112247, 42534266, 52177052, 61962507, 71836656,
      81764248, 91723243, 101700320, 111687650, 121680700, 131676930, 141674880, 151673790]"

definition VARIANCE :: "int list" where
  "VARIANCE =
     [0, 690, 1338, 1901, 2358, 2705, 2954, 3125, 3238, 3311, 3356, 3384, 3401, 3410, 3416, 3419, 3421]"

definition maurer_p :: "'f farith \<Rightarrow> nat list \<Rightarrow> nat \<Rightarrow> 'f option" where
  "maurer_p A distances big_k =
     (let k = f_int A (int big_k); l = f_int A 7;
          fn = f_div A (foldl (\<lambda>s d. f_add A s (f_log2 A (f_int A (int d)))) (f_dec A 0 0) distances) k;
          c = f_add A (f_sub A (f_dec A 7 1) (f_div A (f_dec A 8 1) l))
                (f_div A (f_mul A (f_add A (f_dec A 4 0) (f_div A (f_dec A 32 0) l))
                   (f_powf A k (f_div A (f_dec A (- 3) 0) l))) (f_dec A 15 0));
          sigma = f_mul A c (f_sqrt A (f_div A (f_dec A (VARIANCE ! 7) 3) k));
          z = f_div A (f_sub A fn (f_dec A (EXPECTED ! 7) 7)) sigma
      in erfc A (f_div A (f_abs A z) (SQRT_2 A)))"

definition test_maurer_universal :: "'f farith \<Rightarrow> bytes \<Rightarrow> 'f tr job" where
  "test_maurer_universal A bits =
     job_bind (Some (maurer_distances bits)) (\<lambda>r.
       case r of
         None \<Rightarrow> Some (Ok (Tr_new A ''Maurers Universal'' (f_dec A 0 0)))
       | Some ds \<Rightarrow> p_test A ''Maurers Universal'' (maurer_p A ds (length bits div 7 - 1280)))"

definition PI_LC :: "int list" where
  "PI_LC = [10417, 31250, 125000, 500000, 250000, 62500, 20833]"

definition lc_mu :: "'f farith \<Rightarrow> 'f" where
  "lc_mu A =
     (let sgn_M = (if even (500 :: nat) then f_dec A (- 1) 0 else f_dec A 1 0); m = f_int A 500
      in f_sub A (f_add A (halve A m) (f_div A (f_add A (f_dec A 9 0) sgn_M) (f_dec A 36 0)))
           (f_div A (f_add A (f_div A m (f_dec A 3 0)) (f_div A (f_dec A 2 0) (f_dec A 9 0)))
              (f_powi A (f_dec A 2 0) 500)))"

definition lc_category :: "'f farith \<Rightarrow> nat \<Rightarrow> nat" where
  "lc_category A l =
     (let t = f_add A (f_mul A (f_powi A (f_dec A (- 1) 0) 500) (f_sub A (f_int A (int l)) (lc_mu A)))
                (f_div A (f_dec A 2 0) (f_dec A 9 0))
      in if f_le A t (f_dec A (- 25) 1) then 0
         else if f_le A t (f_dec A (- 15) 1) then 1
         else if f_le A t (f_dec A (- 5) 1) then 2
         else if f_le A t (f_dec A 5 1) then 3
         else if f_le A t (f_dec A 15 1) then 4
         else if f_le A t (f_dec A 25 1) then 5
         else 6)"

definition lc_tally :: "'f farith \<Rightarrow> nat list \<Rightarrow> nat list" where
  "lc_tally A ls = fold (\<lambda>l nu. nu[lc_category A l := Suc (nu ! lc_category A l)]) ls (replicate 7 0)"

definition test_linear_complexity :: "'f farith \<Rightarrow> bytes \<Rightarrow> 'f tr job" where
  "test_linear_complexity A bits =
     job_bind (Some (block_complexities bits)) (\<lambda>r.
       case r of
         None \<Rightarrow> Some (Ok (Tr_new A ''Linear Complexity'' (f_dec A 0 0)))
       | Some ls \<Rightarrow>
           let bn = f_int A (int (length bits div 500));
               chi_sq = f_sum A (map (\<lambda>(v, p). chi_term A (f_int A (int v)) (f_mul A bn (f_dec A p 6)))
                          (zip (lc_tally A ls) PI_LC))
           in p_test A ''Linear Complexity'' (igamc A (f_dec A 3 0) (halve A chi_sq)))"

section \<open>Serial test and approximate entropy\<close>

definition psi_sq :: "'f farith \<Rightarrow> bytes \<Rightarrow> nat \<Rightarrow> ('f, error) res" where
  "psi_sq A bits m =
     (if m = 0 then Ok (f_dec A 0 0)
      else res_bind (pattern_counts bits m) (\<lambda>counts. res_bind (sum_sq counts) (\<lambda>q.
        let n = f_int A (int (length bits))
        in Ok (f_sub A (f_mul A (f_div A (f_int A (2 ^ m)) n) (f_int A (int q))) n))))"

definition test_serial :: "'f farith \<Rightarrow> bytes \<Rightarrow> 'f tr list job" where
  "test_serial A bits =
     job_bind (Some (psi_sq A bits 10)) (\<lambda>p0. job_bind (Some (psi_sq A bits 9)) (\<lambda>p1.
     job_bind (Some (psi_sq A bits 8)) (\<lambda>p2.
       let del1 = f_sub A p0 p1;
           del2 = f_add A (f_sub A p0 (f_mul A (f_dec A 2 0) p1)) p2;
           df1 = f_int A 256;
           df2 = halve A df1
       in job_bind (p_test_note A ''Serial (del1)'' (igamc A df1 (halve A del1)) []) (\<lambda>a.
          job_bind (p_test_note A ''Serial (del2)'' (igamc A df2 (halve A del2)) []) (\<lambda>b.
            Some (Ok [a, b]))))))"

definition entropy_phi :: "'f farith \<Rightarrow> 'f \<Rightarrow> nat list \<Rightarrow> 'f" where
  "entropy_phi A n counts =
     f_sum A (map (\<lambda>c. let p = f_div A (f_int A (int c)) n in f_mul A p (f_ln A p)) (filter (\<lambda>c. 0 < c) counts))"

definition test_approximate_entropy :: "'f farith \<Rightarrow> bytes \<Rightarrow> 'f tr job" where
  "test_approximate_entropy A bits =
     job_bind (Some (pattern_counts bits 10)) (\<lambda>counts. job_bind (Some (pattern_counts bits 11)) (\<lambda>counts1.
       let n = f_int A (int (length bits));
           apen = f_sub A (entropy_phi A n counts) (entropy_phi A n counts1);
           chi_sq = f_mul A (f_mul A (f_dec A 2 0) n) (f_sub A (f_ln A (f_dec A 2 0)) apen)
       in p_test A ''Approximate Entropy'' (igamc A (f_int A 512) (halve A chi_sq))))"

section \<open>Cumulative sums\<close>

text \<open>One of the two sums of \<open>cusum_pvalue\<close>; \<open>up\<close> and \<open>down\<close> shift \<open>4.0 * k\<close>.\<close>

definition cusum_sum :: "'f farith \<Rightarrow> 'f \<Rightarrow> 'f \<Rightarrow> ('f \<Rightarrow> 'f) \<Rightarrow> ('f \<Rightarrow> 'f) \<Rightarrow> int list \<Rightarrow> 'f option" where
  "cusum_sum A z sq_n up down ks =
     foldl (\<lambda>s k. let k4 = f_mul A (f_dec A 4 0) (f_int A k)
        in Option.bind s (\<lambda>s.
           Option.bind (normal_cdf A (f_div A (f_mul A (up k4) z) sq_n)) (\<lambda>a.
           Option.bind (normal_cdf A (f_div A (f_mul A (down k4) z) sq_n)) (\<lambda>b.
             Some (f_add A s (f_sub A a b))))))
       (Some (f_dec A 0 0)) ks"

text \<open>\<open>(x / 4.0).floor() as i64\<close>\<close>

definition quarter_index :: "'f farith \<Rightarrow> 'f \<Rightarrow> int" where
  "quarter_index A x = f_to_i64 A (f_floor A (f_div A x (f_dec A 4 0)))"

definition cusum_pvalue :: "'f farith \<Rightarrow> nat \<Rightarrow> nat \<Rightarrow> 'f option" where
  "cusum_pvalue A z n =
     (let z = f_int A (int z); n = f_int A (int n); sq_n = f_sqrt A n;
          one = f_dec A 1 0; three = f_dec A 3 0;
          lo1 = quarter_index A (f_add A (f_div A (f_neg A n) z) one);
          lo2 = quarter_index A (f_sub A (f_div A (f_neg A n) z) three);
          hi = quarter_index A (f_sub A (f_div A n z) one)
      in Option.bind (cusum_sum A z sq_n (\<lambda>x. f_add A x one) (\<lambda>x. f_sub A x one) [lo1..hi]) (\<lambda>sum1.
         Option.bind (cusum_sum A z sq_n (\<lambda>x. f_add A x three) (\<lambda>x. f_add A x one) [lo2..hi]) (\<lambda>sum2.
           Some (f_add A (f_sub A one sum1) sum2))))"

definition test_cumulative_sums :: "'f farith \<Rightarrow> bytes \<Rightarrow> 'f tr list job" where
  "test_cumulative_sums A bits =
     (case cumulative_sums bits of (fwd, bwd) \<Rightarrow>
        job_bind (p_test_note A ''Cumulative Sums (fwd)'' (cusum_pvalue A (nat fwd) (length bits)) []) (\<lambda>a.
        job_bind (p_test_note A ''Cumulative Sums (bwd)'' (cusum_pvalue A (nat bwd) (length bits)) []) (\<lambda>b.
          Some (Ok [a, b]))))"

section \<open>Random excursions\<close>

definition re_pi :: "('f, 'z) fring_scheme \<Rightarrow> nat \<Rightarrow> nat \<Rightarrow> 'f" where
  "re_pi A abs_x k =
     (let p = f_div A (f_dec A 5 1) (f_int A (int abs_x)); q = f_sub A (f_dec A 1 0) p
      in if k = 0 then q
         else if k < 5 then f_mul A (f_mul A p p) (f_powi A q (int k - 1))
         else f_mul A p (f_powi A q 4))"

text \<open>\<open>{:+}\<close> of an integer\<close>

definition fmt_plus :: "int \<Rightarrow> string" where
  "fmt_plus x = (if x < 0 then CHR ''-'' else CHR ''+'') # dec_string (nat \<bar>x\<bar>)"

definition excursion_name :: "int \<Rightarrow> string" where
  "excursion_name x = ''Random Excursion (x='' @ fmt_plus x @ '')''"

definition variant_name :: "int \<Rightarrow> string" where
  "variant_name x = ''Random Excursion Variant (x='' @ fmt_plus x @ '')''"

text \<open>The note in UTF-8: a dash and a greater-or-equal sign of three bytes each.\<close>

definition ineligible_note :: string where
  "ineligible_note =
     ''(ineligible: fewer than 500 cycles in sequence '' @ [CHR 0xE2, CHR 0x80, CHR 0x94] @
     '' use '' @ [CHR 0xE2, CHR 0x89, CHR 0xA5] @ ''10M bits)''"

definition excursion_states :: "int list" where
  "excursion_states = [- 4, - 3, - 2, - 1, 1, 2, 3, 4]"

definition excursion_chi :: "'f farith \<Rightarrow> nat \<Rightarrow> int \<Rightarrow> nat list \<Rightarrow> 'f" where
  "excursion_chi A j x nu =
     f_sum A (map (\<lambda>(k, v). chi_term A (f_int A (int v)) (f_mul A (f_int A (int j)) (re_pi A (nat \<bar>x\<bar>) k)))
       (zip [0..<length nu] nu))"

definition test_random_excursion :: "'f farith \<Rightarrow> bytes \<Rightarrow> 'f tr list job" where
  "test_random_excursion A bits =
     (case build_walk bits of (walk, j) \<Rightarrow>
        if j < 500 then Some (Ok [Tr_skip A ''Random Excursion'' ineligible_note])
        else job_list (\<lambda>x. p_test A (excursion_name x)
               (igamc A (f_dec A 25 1) (halve A (excursion_chi A j x (excursion_counts walk x)))))
             excursion_states)"

definition test_random_excursion_variant :: "'f farith \<Rightarrow> bytes \<Rightarrow> 'f tr list job" where
  "test_random_excursion_variant A bits =
     (case build_walk bits of (walk, j) \<Rightarrow>
        if j < 500 then Some (Ok [Tr_skip A ''Random Excursion Variant'' ineligible_note])
        else job_list (\<lambda>x.
               let xi = int (length (filter (\<lambda>s. s = x) walk));
                   ax = f_int A \<bar>x\<bar>;
                   denom = f_sqrt A (f_mul A (f_mul A (f_dec A 2 0) (f_int A (int j)))
                             (f_sub A (f_mul A (f_dec A 4 0) ax) (f_dec A 2 0)));
                   z = f_div A (f_int A \<bar>xi - int j\<bar>) denom
               in p_test A (variant_name x) (erfc A (f_div A z (SQRT_2 A))))
             ([- 9..- 1] @ [1..9]))"

section \<open>All tests in order\<close>

definition run_tests :: "'f farith \<Rightarrow> bytes \<Rightarrow> 'f tr list job" where
  "run_tests A bits =
     job_bind (job_list (\<lambda>test. test A bits)
       [test_monobit, test_frequency_block, test_runs, test_longest_run, test_binary_matrix_rank,
        test_dft, test_notm, test_maurer_universal, test_linear_complexity]) (\<lambda>r1.
     job_bind (test_serial A bits) (\<lambda>r2.
     job_bind (test_approximate_entropy A bits) (\<lambda>r3.
     job_bind (job_list (\<lambda>test. test A bits)
       [test_cumulative_sums, test_random_excursion, test_random_excursion_variant]) (\<lambda>r4.
       Some (Ok (r1 @ r2 @ [r3] @ concat r4))))))"

section \<open>Every test returns\<close>

definition job_ok :: "('a \<Rightarrow> bool) \<Rightarrow> 'a job \<Rightarrow> bool" where
  "job_ok P j = (\<exists>x. j = Some (Ok x) \<and> P x)"

lemma job_ok_return [simp]: "job_ok P (Some (Ok x)) = P x"
  by (simp add: job_ok_def)

lemma job_ok_bind: "job_ok P j \<Longrightarrow> (\<And>x. P x \<Longrightarrow> job_ok Q (f x)) \<Longrightarrow> job_ok Q (job_bind j f)"
  by (auto simp: job_ok_def)

lemma job_ok_mono: "job_ok P j \<Longrightarrow> (\<And>x. P x \<Longrightarrow> Q x) \<Longrightarrow> job_ok Q j"
  by (auto simp: job_ok_def)

lemma job_ok_list:
  "(\<And>x. x \<in> set xs \<Longrightarrow> job_ok (P x) (f x)) \<Longrightarrow> job_ok (\<lambda>ys. list_all2 P xs ys) (job_list f xs)"
proof (induction xs)
  case (Cons x xs)
  then have "job_ok (\<lambda>ys. list_all2 P xs ys) (job_list f xs)" "job_ok (P x) (f x)" by simp_all
  then show ?case by (auto simp: job_ok_def)
qed simp

lemma job_ok_res: "\<exists>x. r = Ok x \<and> P x \<Longrightarrow> job_ok P (Some r)"
  by (auto simp: job_ok_def)

text \<open>A result of a given name that was scored, and so has passed or failed by its p-value.\<close>

definition scored :: "'f farith \<Rightarrow> string \<Rightarrow> 'f tr \<Rightarrow> bool" where
  "scored A n t = (tr_name t = n \<and> tr_status t = (if f_le A (f_dec A 1 2) (tr_p_value t) then Pass else Fail))"

lemma scored_new [simp]: "scored A n (Tr_new A n p)" "scored A n (Tr_with_note A n p note)"
  by (simp_all add: scored_def Tr_new_def Tr_with_note_def)

lemma p_test_scored:
  assumes "\<exists>y. p = Some y"
  shows "job_ok (scored A n) (p_test A n p)" "job_ok (scored A n) (p_test_note A n p note)"
  using assms by (auto simp: p_test_def p_test_note_def job_of_option_def)

lemma next_power_of_two_spec:
  assumes "n < 2 ^ 32"
  obtains k where "k \<le> 32" "next_power_of_two n = 2 ^ k" "n \<le> 2 ^ k"
proof (cases "n \<le> 1")
  case True
  then show thesis by (intro that [of 0]) (simp_all add: next_power_of_two_def)
next
  case False
  then have "0 < n - 1" by simp
  from bit_len_bounds [OF this] have b: "2 ^ (bit_len (n - 1) - 1) \<le> n - 1" "n - 1 < 2 ^ bit_len (n - 1)" by auto
  from b(1) assms have "2 ^ (bit_len (n - 1) - 1) < (2 :: nat) ^ 32" by linarith
  then have "bit_len (n - 1) - 1 < 32" by (rule power_less_imp_less_exp [rotated]) simp
  with b(2) False show thesis by (intro that [of "bit_len (n - 1)"]) (simp_all add: next_power_of_two_def)
qed

lemma template_shape: "t \<in> set (aperiodic_templates m) \<Longrightarrow> is_aperiodic t \<and> length t = m"
  by (auto simp: aperiodic_templates_def template_bits_def)

lemma count_notm_Some:
  "is_aperiodic t \<Longrightarrow> t \<noteq> [] \<Longrightarrow> \<exists>c. count_notm block t = Some c"
  using count_notm_loop_aperiodic [of t block 0 0] by (simp add: count_notm_def)

lemma notm_block_Ok:
  assumes "j < 8" "is_aperiodic t" "t \<noteq> []"
  shows "\<exists>c. notm_block bits t j = Ok (Some c)"
proof -
  let ?m = "length bits div 8"
  have "(j + 1) * ?m \<le> 8 * ?m" using assms(1) by (intro mult_le_mono1) simp
  also have "\<dots> \<le> length bits" by simp
  finally have le: "(j + 1) * ?m \<le> length bits" .
  have "notm_block bits t j = Ok (count_notm (take ?m (drop (j * ?m) bits)) t)"
    unfolding notm_block_def Let_def by (subst slice_res_Ok [OF _ le]) simp_all
  with count_notm_Some [OF assms(2,3)] show ?thesis by simp
qed

lemma rank_counts_total: "\<exists>r. rank_counts bits = Ok r"
proof (cases "length bits div 1024 < 1")
  case False
  then show ?thesis using rank_counts_Ok [of bits] by auto
qed (simp add: rank_counts_def)

lemma maurer_distances_total: "list_all is_bit bits \<Longrightarrow> \<exists>r. maurer_distances bits = Ok r"
  using maurer_distances_Ok [of bits] by (cases "length bits div 7 \<le> 1280") (auto simp: maurer_distances_def)

lemma block_complexities_total: "list_all is_bit bits \<Longrightarrow> \<exists>r. block_complexities bits = Ok r"
  using block_complexities_Ok [of bits]
  by (cases "length bits div 500 < 1") (auto simp: block_complexities_def)

lemma psi_sq_Ok:
  assumes "list_all is_bit bits" "m < 64" "m \<le> length bits + 1" "length bits < 2 ^ 32"
  shows "\<exists>q. psi_sq A bits m = Ok q"
proof (cases "m = 0")
  case False
  with pattern_counts_spec [OF assms(1) _ assms(2,3)] obtain counts where
    "pattern_counts bits m = Ok counts" "sum_list counts = length bits" by auto
  with sum_sq_small [of counts] assms(4) show ?thesis by (simp add: psi_sq_def Let_def)
qed (simp add: psi_sq_def)

lemma foldl_bind_Some:
  "(\<And>s k. \<exists>y. f s k = Some y) \<Longrightarrow> \<exists>y. foldl (\<lambda>s k. Option.bind s (\<lambda>s. f s k)) (Some a) ks = Some y"
proof (induction ks arbitrary: a)
  case (Cons k ks)
  obtain y where "f a k = Some y" using Cons.prems by blast
  then show ?case using Cons.IH [of y] Cons.prems by simp
qed simp

text \<open>The name of every result, and whether it is scored or skipped.\<close>

definition suite_names :: "nat \<Rightarrow> (string \<times> bool) list" where
  "suite_names j =
     map (\<lambda>n. (n, True))
       [''Monobit'', ''Frequency Within Block'', ''Runs'', ''Longest Run Ones In A Block'',
        ''Binary Matrix Rank'', ''Discrete Fourier Transform'', ''Non Overlapping Template Matching'',
        ''Maurers Universal'', ''Linear Complexity'', ''Serial (del1)'', ''Serial (del2)'',
        ''Approximate Entropy'', ''Cumulative Sums (fwd)'', ''Cumulative Sums (bwd)''] @
     (if j < 500 then [(''Random Excursion'', False), (''Random Excursion Variant'', False)]
      else map (\<lambda>x. (excursion_name x, True)) excursion_states @
           map (\<lambda>x. (variant_name x, True)) ([- 9..- 1] @ [1..9]))"

definition reported :: "'f farith \<Rightarrow> string \<times> bool \<Rightarrow> 'f tr \<Rightarrow> bool" where
  "reported A e t = (if snd e then scored A (fst e) t else t = Tr_skip A (fst e) ineligible_note)"

context float_laws
begin

lemma monobit_ok: "job_ok (scored A ''Monobit'') (test_monobit A bits)"
  unfolding test_monobit_def Let_def by (intro p_test_scored erfc_total)

lemma frequency_ok: "job_ok (scored A ''Frequency Within Block'') (test_frequency_block A bits)"
  using block_ones_Ok [of bits] p_test_scored(1) [OF igamc_total]
  by (auto simp: test_frequency_block_def split: option.split)

lemma runs_ok: "job_ok (scored A ''Runs'') (test_runs A bits)"
  using p_test_scored(1) [OF erfc_total] by (simp add: test_runs_def Let_def)

lemma longest_run_ok: "job_ok (scored A ''Longest Run Ones In A Block'') (test_longest_run A bits)"
proof -
  obtain m k ts where p: "longest_run_params (length bits) = (m, k, ts)"
    by (cases "longest_run_params (length bits)") auto
  obtain nu where "longest_run_counts bits = Ok nu" using longest_run_counts_Ok [of bits] by blast
  then show ?thesis using p_test_scored(1) [OF igamc_total] by (simp add: test_longest_run_def p Let_def)
qed

lemma rank_ok: "job_ok (scored A ''Binary Matrix Rank'') (test_binary_matrix_rank A bits)"
  using rank_counts_total [of bits] by (auto simp: test_binary_matrix_rank_def Let_def split: option.split)

lemma dft_ok:
  assumes "length bits < 2 ^ 32"
  shows "job_ok (scored A ''Discrete Fourier Transform'') (test_dft A bits)"
proof -
  obtain k where k: "k \<le> 32" "next_power_of_two (length bits) = 2 ^ k" "length bits \<le> 2 ^ k"
    using assms by (rule next_power_of_two_spec)
  have "both_len (2 ^ k) (dft_input A bits)" using k by (simp add: both_len_def dft_input_def Let_def)
  from fft_inplace_Ok [OF _ this] k(1) obtain st where
    st: "fft_inplace A (dft_input A bits) = Ok st" "both_len (2 ^ k) st" by fastforce
  have "\<exists>low. collect_res (below_threshold A th st) [1..<length bits div 2 + 1] = Ok low" for th
  proof (rule collect_res_Ok)
    fix i
    assume "i \<in> set [1..<length bits div 2 + 1]"
    then have "i < 2 ^ k" using k(3) by auto
    then show "\<exists>b. below_threshold A th st i = Ok b" using st(2) by (simp add: below_threshold_def both_len_def)
  qed
  then obtain low where "collect_res (below_threshold A (f_sqrt A (f_mul A (f_dec A 2995732274 9)
      (f_int A (int (length bits))))) st) [1..<length bits div 2 + 1] = Ok low" by blast
  with st(1) show ?thesis using p_test_scored(1) [OF erfc_total] unfolding test_dft_def Let_def by simp
qed

lemma notm_template_ok:
  assumes "t \<in> set (aperiodic_templates 9)"
  shows "job_ok (\<lambda>_. True) (notm_template A bits t)"
  unfolding notm_template_def
proof (rule job_ok_bind)
  have t: "is_aperiodic t" "t \<noteq> []" using template_shape [OF assms] by auto
  show "job_ok (list_all2 (\<lambda>_ _. True) [0..<8])
      (job_list (\<lambda>j. job_bind (Some (notm_block bits t j)) job_of_option) [0..<8])"
  proof (rule job_ok_list)
    fix j :: nat
    assume "j \<in> set [0..<8]"
    then have "j < 8" by (simp del: upt_rec_numeral)
    from notm_block_Ok [OF this t, of bits] obtain c where "notm_block bits t j = Ok (Some c)" by blast
    then show "job_ok (\<lambda>_. True) (job_bind (Some (notm_block bits t j)) job_of_option)"
      by (simp add: job_of_option_def)
  qed
  show "job_ok (\<lambda>_. True) (job_of_option (notm_p A (length bits div 8) counts))" for counts
    using igamc_total by (auto simp: job_ok_def job_of_option_def notm_p_def Let_def)
qed

lemma notm_ok: "job_ok (scored A ''Non Overlapping Template Matching'') (test_notm A bits)"
  unfolding test_notm_def Let_def
  by (rule job_ok_bind, rule job_ok_list, erule notm_template_ok) simp

lemma maurer_ok: "list_all is_bit bits \<Longrightarrow> job_ok (scored A ''Maurers Universal'') (test_maurer_universal A bits)"
  using maurer_distances_total [of bits] p_test_scored(1) [OF erfc_total]
  by (auto simp: test_maurer_universal_def maurer_p_def Let_def split: option.split)

lemma complexity_ok: "list_all is_bit bits \<Longrightarrow> job_ok (scored A ''Linear Complexity'') (test_linear_complexity A bits)"
  using block_complexities_total [of bits] p_test_scored(1) [OF igamc_total]
  by (auto simp: test_linear_complexity_def Let_def split: option.split)

lemma pair_ok:
  assumes "\<exists>y. p = Some y" "\<exists>y. q = Some y"
  shows "job_ok (list_all2 (scored A) [n1, n2])
    (job_bind (p_test_note A n1 p x) (\<lambda>a. job_bind (p_test_note A n2 q y) (\<lambda>b. Some (Ok [a, b]))))"
  using assms by (auto simp: p_test_note_def job_of_option_def)

lemma serial_ok:
  assumes "list_all is_bit bits" "9 \<le> length bits" "length bits < 2 ^ 32"
  shows "job_ok (list_all2 (scored A) [''Serial (del1)'', ''Serial (del2)'']) (test_serial A bits)"
proof -
  obtain p0 p1 p2 where "psi_sq A bits 10 = Ok p0" "psi_sq A bits 9 = Ok p1" "psi_sq A bits 8 = Ok p2"
    using psi_sq_Ok [OF assms(1), of 10 A] psi_sq_Ok [OF assms(1), of 9 A] psi_sq_Ok [OF assms(1), of 8 A] assms(2,3)
    by auto
  then show ?thesis using pair_ok [OF igamc_total igamc_total] by (simp add: test_serial_def Let_def)
qed

lemma entropy_ok:
  assumes "list_all is_bit bits" "10 \<le> length bits"
  shows "job_ok (scored A ''Approximate Entropy'') (test_approximate_entropy A bits)"
proof -
  obtain c d where "pattern_counts bits 10 = Ok c" "pattern_counts bits 11 = Ok d"
    using pattern_counts_spec [OF assms(1), of 10] pattern_counts_spec [OF assms(1), of 11] assms(2) by auto
  then show ?thesis using p_test_scored(1) [OF igamc_total] by (simp add: test_approximate_entropy_def Let_def)
qed

lemma cusum_sum_total: "\<exists>y. cusum_sum A z sq_n up down ks = Some y"
  unfolding cusum_sum_def Let_def
proof (rule foldl_bind_Some)
  fix s k
  obtain a b where "normal_cdf A (f_div A (f_mul A (up (f_mul A (f_dec A 4 0) (f_int A k))) z) sq_n) = Some a"
    "normal_cdf A (f_div A (f_mul A (down (f_mul A (f_dec A 4 0) (f_int A k))) z) sq_n) = Some b"
    using normal_cdf_total by metis
  then show "\<exists>y. Option.bind (normal_cdf A (f_div A (f_mul A (up (f_mul A (f_dec A 4 0) (f_int A k))) z) sq_n))
      (\<lambda>a. Option.bind (normal_cdf A (f_div A (f_mul A (down (f_mul A (f_dec A 4 0) (f_int A k))) z) sq_n))
         (\<lambda>b. Some (f_add A s (f_sub A a b)))) = Some y" by simp
qed

lemma cusum_pvalue_total: "\<exists>y. cusum_pvalue A z n = Some y"
proof -
  have *: "\<exists>y. Option.bind (cusum_sum A z1 s1 u1 d1 k1) (\<lambda>a. Option.bind (cusum_sum A z1 s1 u2 d2 k2) (\<lambda>b. Some (g a b))) = Some y"
    for z1 s1 u1 d1 k1 u2 d2 k2 g
    using cusum_sum_total [of z1 s1 u1 d1 k1] cusum_sum_total [of z1 s1 u2 d2 k2] by auto
  show ?thesis unfolding cusum_pvalue_def Let_def by (rule *)
qed

lemma cumulative_ok:
  "job_ok (list_all2 (scored A) [''Cumulative Sums (fwd)'', ''Cumulative Sums (bwd)'']) (test_cumulative_sums A bits)"
  using pair_ok [OF cusum_pvalue_total cusum_pvalue_total] by (simp add: test_cumulative_sums_def cumulative_sums_def)

lemma named_list_ok:
  assumes "\<And>x. \<exists>y. p x = Some y"
  shows "job_ok (list_all2 (reported A) (map (\<lambda>x. (g x, True)) xs)) (job_list (\<lambda>x. p_test A (g x) (p x)) xs)"
proof (rule job_ok_mono)
  show "job_ok (list_all2 (\<lambda>x. scored A (g x)) xs) (job_list (\<lambda>x. p_test A (g x) (p x)) xs)"
    using assms by (intro job_ok_list p_test_scored) 
qed (auto simp: list_all2_conv_all_nth reported_def)

lemma excursion_ok:
  "job_ok (list_all2 (reported A) (if snd (build_walk bits) < 500 then [(''Random Excursion'', False)]
     else map (\<lambda>x. (excursion_name x, True)) excursion_states)) (test_random_excursion A bits)"
proof -
  obtain walk j where w: "build_walk bits = (walk, j)" by fastforce
  show ?thesis
  proof (cases "j < 500")
    case True
    then show ?thesis by (simp add: test_random_excursion_def w reported_def)
  next
    case False
    then have "test_random_excursion A bits = job_list (\<lambda>x. p_test A (excursion_name x)
        (igamc A (f_dec A 25 1) (halve A (excursion_chi A j x (excursion_counts walk x))))) excursion_states"
      by (simp add: test_random_excursion_def w)
    with False w show ?thesis by (simp add: named_list_ok [OF igamc_total])
  qed
qed

lemma variant_ok:
  "job_ok (list_all2 (reported A) (if snd (build_walk bits) < 500 then [(''Random Excursion Variant'', False)]
     else map (\<lambda>x. (variant_name x, True)) ([- 9..- 1] @ [1..9]))) (test_random_excursion_variant A bits)"
proof -
  obtain walk j where w: "build_walk bits = (walk, j)" by fastforce
  show ?thesis
  proof (cases "j < 500")
    case True
    then show ?thesis by (simp add: test_random_excursion_variant_def w reported_def)
  next
    case False
    have "job_ok (list_all2 (reported A) (map (\<lambda>x. (variant_name x, True)) ([- 9..- 1] @ [1..9])))
        (test_random_excursion_variant A bits)"
      unfolding test_random_excursion_variant_def w prod.case Let_def if_not_P [OF False]
      by (rule named_list_ok, rule erfc_total)
    with False w show ?thesis by simp
  qed
qed

lemma test_list_ok:
  "list_all2 (\<lambda>f e. job_ok (R e) (f A bits)) fs es \<Longrightarrow> job_ok (list_all2 R es) (job_list (\<lambda>f. f A bits) fs)"
  by (induction rule: list_all2_induct) (auto simp: job_ok_def)

lemma first_tests_ok:
  assumes "list_all is_bit bits" "length bits < 2 ^ 32"
  shows "job_ok (list_all2 (scored A)
      [''Monobit'', ''Frequency Within Block'', ''Runs'', ''Longest Run Ones In A Block'',
       ''Binary Matrix Rank'', ''Discrete Fourier Transform'', ''Non Overlapping Template Matching'',
       ''Maurers Universal'', ''Linear Complexity''])
    (job_list (\<lambda>test. test A bits)
       [test_monobit, test_frequency_block, test_runs, test_longest_run, test_binary_matrix_rank,
        test_dft, test_notm, test_maurer_universal, test_linear_complexity])"
  by (rule test_list_ok) (intro list_all2_Cons [THEN iffD2] conjI list_all2_Nil [THEN iffD2] refl
    monobit_ok frequency_ok runs_ok longest_run_ok rank_ok notm_ok
    dft_ok [OF assms(2)] maurer_ok [OF assms(1)] complexity_ok [OF assms(1)])

lemma last_tests_ok:
  "job_ok (list_all2 (list_all2 (reported A))
      [[(''Cumulative Sums (fwd)'', True), (''Cumulative Sums (bwd)'', True)],
       if snd (build_walk bits) < 500 then [(''Random Excursion'', False)]
       else map (\<lambda>x. (excursion_name x, True)) excursion_states,
       if snd (build_walk bits) < 500 then [(''Random Excursion Variant'', False)]
       else map (\<lambda>x. (variant_name x, True)) ([- 9..- 1] @ [1..9])])
    (job_list (\<lambda>test. test A bits) [test_cumulative_sums, test_random_excursion, test_random_excursion_variant])"
proof (rule test_list_ok, intro list_all2_Cons [THEN iffD2] conjI list_all2_Nil [THEN iffD2] refl)
  show "job_ok (list_all2 (reported A) [(''Cumulative Sums (fwd)'', True), (''Cumulative Sums (bwd)'', True)])
      (test_cumulative_sums A bits)"
    using cumulative_ok by (rule job_ok_mono) (auto simp: reported_def list_all2_Cons1)
qed (rule excursion_ok variant_ok)+

lemma reported_scored: "list_all2 (scored A) ns rs \<Longrightarrow> list_all2 (reported A) (map (\<lambda>n. (n, True)) ns) rs"
  by (simp add: list_all2_conv_all_nth reported_def)

lemma concat_reported:
  "list_all2 (list_all2 (reported A)) es rs \<Longrightarrow> list_all2 (reported A) (concat es) (concat rs)"
  by (induction rule: list_all2_induct) (auto intro: list_all2_appendI)

lemma run_tests_long:
  assumes "list_all is_bit bits" "10 \<le> length bits" "length bits < 2 ^ 32"
  shows "\<exists>rs. run_tests A bits = Some (Ok rs) \<and> list_all2 (reported A) (suite_names (snd (build_walk bits))) rs"
proof -
  obtain r1 where r1: "job_list (\<lambda>test. test A bits)
       [test_monobit, test_frequency_block, test_runs, test_longest_run, test_binary_matrix_rank,
        test_dft, test_notm, test_maurer_universal, test_linear_complexity] = Some (Ok r1)"
    "list_all2 (reported A) (map (\<lambda>n. (n, True)) [''Monobit'', ''Frequency Within Block'', ''Runs'', ''Longest Run Ones In A Block'',
       ''Binary Matrix Rank'', ''Discrete Fourier Transform'', ''Non Overlapping Template Matching'',
       ''Maurers Universal'', ''Linear Complexity'']) r1"
    using first_tests_ok [OF assms(1,3)] reported_scored unfolding job_ok_def by blast
  have "9 \<le> length bits" using assms(2) by simp
  from serial_ok [OF assms(1) this assms(3)] obtain r2 where r2: "test_serial A bits = Some (Ok r2)"
    "list_all2 (reported A) (map (\<lambda>n. (n, True)) [''Serial (del1)'', ''Serial (del2)'']) r2"
    using reported_scored unfolding job_ok_def by blast
  from entropy_ok [OF assms(1,2)] obtain r3 where r3: "test_approximate_entropy A bits = Some (Ok r3)"
    "reported A (''Approximate Entropy'', True) r3" by (auto simp: job_ok_def reported_def)
  from last_tests_ok [of bits] obtain r4 where r4: "job_list (\<lambda>test. test A bits)
      [test_cumulative_sums, test_random_excursion, test_random_excursion_variant] = Some (Ok r4)"
    "list_all2 (reported A) (concat
      [[(''Cumulative Sums (fwd)'', True), (''Cumulative Sums (bwd)'', True)],
       if snd (build_walk bits) < 500 then [(''Random Excursion'', False)]
       else map (\<lambda>x. (excursion_name x, True)) excursion_states,
       if snd (build_walk bits) < 500 then [(''Random Excursion Variant'', False)]
       else map (\<lambda>x. (variant_name x, True)) ([- 9..- 1] @ [1..9])]) (concat r4)"
    using concat_reported unfolding job_ok_def by blast
  have "run_tests A bits = Some (Ok (r1 @ r2 @ [r3] @ concat r4))"
    unfolding run_tests_def r1(1) r2(1) r3(1) r4(1) job_bind.simps ..
  moreover have e: "list_all2 (reported A) [(''Approximate Entropy'', True)] [r3]" using r3(2) by simp
  have "list_all2 (reported A) (suite_names (snd (build_walk bits))) (r1 @ r2 @ [r3] @ concat r4)"
    using list_all2_appendI [OF r1(2) list_all2_appendI [OF r2(2) list_all2_appendI [OF e r4(2)]]]
    by (cases "snd (build_walk bits) < 500") (simp_all only: suite_names_def if_True if_False simp_thms list.map append.simps concat.simps append_Nil2)
  ultimately show ?thesis by blast
qed

lemma run_tests_short:
  assumes "list_all is_bit bits" "length bits < 10"
  shows "run_tests A bits = Some Panic"
proof -
  have small: "length bits < 2 ^ 32" using assms(2) by simp
  obtain r1 where r1: "job_list (\<lambda>test. test A bits)
       [test_monobit, test_frequency_block, test_runs, test_longest_run, test_binary_matrix_rank,
        test_dft, test_notm, test_maurer_universal, test_linear_complexity] = Some (Ok r1)"
    using first_tests_ok [OF assms(1) small] unfolding job_ok_def by blast
  show ?thesis
  proof (cases "length bits = 9")
    case True
    then obtain r2 where r2: "test_serial A bits = Some (Ok r2)"
      using serial_ok [OF assms(1) _ small] by (auto simp: job_ok_def)
    obtain cs where "pattern_counts bits 10 = Ok cs"
      using pattern_counts_spec [OF assms(1), of 10] True by auto
    then have "test_approximate_entropy A bits = Some Panic"
      using True by (simp add: test_approximate_entropy_def pattern_counts_short)
    then show ?thesis unfolding run_tests_def r1 r2 job_bind.simps by simp
  next
    case False
    then have "test_serial A bits = Some Panic"
      using assms(2) by (simp add: test_serial_def psi_sq_def pattern_counts_short)
    then show ?thesis unfolding run_tests_def r1 job_bind.simps by simp
  qed
qed

end

section \<open>The excursion probabilities\<close>

lemma re_pi_exact:
  assumes "0 < x"
  defines "p \<equiv> 1 / (2 * real x)"
  shows "re_pi exact_arith x 0 = 1 - p"
    and "k < 4 \<Longrightarrow> re_pi exact_arith x (Suc k) = p * p * (1 - p) ^ k"
    and "re_pi exact_arith x 5 = p * (1 - p) ^ 4"
  using assms(1) by (simp_all add: re_pi_def exact_arith_def p_def)

lemma geometric_tail:
  fixes p :: real
  assumes "0 < p" "p \<le> 1"
  shows "(\<lambda>j. p * p * (1 - p) ^ (j + n)) sums (p * (1 - p) ^ n)"
proof -
  have "norm (1 - p) < 1" using assms by simp
  from geometric_sums [OF this] have "(\<lambda>j. (1 - p) ^ j) sums (1 / p)" by simp
  from sums_mult [OF this] have "(\<lambda>j. p * p * (1 - p) ^ n * (1 - p) ^ j) sums (p * p * (1 - p) ^ n * (1 / p))" .
  with assms show ?thesis by (simp add: power_add mult_ac)
qed

section \<open>Properties\<close>

text \<open>
  The probabilities of the excursion test. Over the real numbers, for a state \<open>x\<close> other than
  zero, \<open>re_pi\<close> gives the distribution of the number of visits to \<open>x\<close> in a cycle, with \<open>p = 1 / (2|x|)\<close>:
  \<open>1 - p\<close> for none, \<open>p^2 (1 - p)^(k - 1)\<close> for \<open>k\<close>, the last entry being the whole tail from five on, and the
  six entries add up to one.
\<close>

lemma re_pi_distribution:
  assumes "0 < x"
  shows "(\<Sum>k < 6. re_pi exact_arith x k) = 1 \<and> re_pi exact_arith x 0 = 1 - 1 / (2 * real x) \<and>
    (\<forall>k \<in> {1..4}. re_pi exact_arith x k = (1 / (2 * real x))\<^sup>2 * (1 - 1 / (2 * real x)) ^ (k - 1)) \<and>
    (\<lambda>j. (1 / (2 * real x))\<^sup>2 * (1 - 1 / (2 * real x)) ^ (j + 4)) sums re_pi exact_arith x 5"
proof -
  let ?p = "1 / (2 * real x)"
  note e = re_pi_exact [OF assms]
  have "re_pi exact_arith x k = ?p\<^sup>2 * (1 - ?p) ^ (k - 1)" if "k \<in> {1..4}" for k
  proof -
    have "k - 1 < 4" "Suc (k - 1) = k" using that by auto
    with e(2) [of "k - 1"] show ?thesis by (simp add: power2_eq_square)
  qed
  moreover have "(\<lambda>j. ?p\<^sup>2 * (1 - ?p) ^ (j + 4)) sums re_pi exact_arith x 5"
    using geometric_tail [of ?p 4] assms by (simp add: e(3) power2_eq_square)
  moreover have "(\<Sum>k < 6. re_pi exact_arith x k) = 1"
  proof -
    define q where "q = ?p"
    have "(\<Sum>k < 6. f k) = f 0 + f (Suc 0) + f (Suc 1) + f (Suc 2) + f (Suc 3) + f 5" for f :: "nat \<Rightarrow> real"
      by (simp add: eval_nat_numeral lessThan_Suc)
    then have "(\<Sum>k < 6. re_pi exact_arith x k) =
        (1 - q) + q * q * (1 - q) ^ 0 + q * q * (1 - q) ^ 1 + q * q * (1 - q) ^ 2 + q * q * (1 - q) ^ 3 + q * (1 - q) ^ 4"
      unfolding q_def using e(1,3) e(2) [of 0] e(2) [of 1] e(2) [of 2] e(2) [of 3] by simp
    then show ?thesis by (simp add: power4_eq_xxxx power3_eq_cube power2_eq_square algebra_simps)
  qed
  ultimately show ?thesis using e(1) by simp
qed

end
