(* ===== verification/Integrity.thy ===== *)
theory Integrity
  imports KeyMaterial Utf8 OtFrame
begin

text \<open>
  The software-integrity test of \<open>rust/src/self_test.rs\<close> (INT-1, INT-2), the tool
  \<open>rust/src/bin/napqes_integrity.rs\<close> that writes its reference values, and the hexadecimal
  decoder they and the known-answer tests share. A file system is a function from paths to what
  reading them yields.
\<close>

section \<open>Hexadecimal text\<close>

text \<open>\<open>is_char_boundary\<close> on the bytes of a string.\<close>

definition is_char_boundary :: "bytes \<Rightarrow> nat \<Rightarrow> bool" where
  "is_char_boundary bs i \<longleftrightarrow> i = length bs \<or> i < length bs \<and> \<not> is_cont (bs ! i)"

text \<open>
  \<open>decode_hex\<close>: slicing off a character boundary panics; \<open>u8::from_str_radix\<close> reads the
  bytes of the slice.
\<close>

definition hex_pair :: "bytes \<Rightarrow> nat \<Rightarrow> (byte, self_test_error) res" where
  "hex_pair bs i =
     (if is_char_boundary bs (2 * i) \<and> is_char_boundary bs (2 * i + 2)
      then case from_str_radix 16 256 (map unat (take 2 (drop (2 * i) bs))) of
             Some v \<Rightarrow> Ok (of_nat v) | None \<Rightarrow> Err (InternalError ''invalid hex digit'')
      else Panic)"

definition decode_hex :: "str \<Rightarrow> (bytes, self_test_error) res" where
  "decode_hex s =
     (let bs = utf8_bytes (filter (\<lambda>c. c \<noteq> 10 \<and> c \<noteq> 32) s) in
      if length bs mod 2 \<noteq> 0 then Err (InternalError ''hex string has odd length'')
      else collect_res (hex_pair bs) [0..<length bs div 2])"

text \<open>\<open>char::is_whitespace\<close> and \<open>str::trim\<close>.\<close>

definition is_whitespace :: "nat \<Rightarrow> bool" where
  "is_whitespace c \<longleftrightarrow> 9 \<le> c \<and> c \<le> 13 \<or> 0x2000 \<le> c \<and> c \<le> 0x200A \<or>
     c \<in> {0x20, 0x85, 0xA0, 0x1680, 0x2028, 0x2029, 0x202F, 0x205F, 0x3000}"

definition trim :: "str \<Rightarrow> str" where
  "trim s = rev (dropWhile is_whitespace (rev (dropWhile is_whitespace s)))"

text \<open>\<open>format!("{:02x}", b)\<close> of every byte.\<close>

definition hex_digit :: "nat \<Rightarrow> nat" where
  "hex_digit d = (if d < 10 then 48 + d else 87 + d)"

definition to_hex :: "bytes \<Rightarrow> str" where
  "to_hex bs = concat (map (\<lambda>b. [hex_digit (unat b div 16), hex_digit (unat b mod 16)]) bs)"

section \<open>INT-1\<close>

definition BUILD_HASH :: string where "BUILD_HASH = ''0.1.0''"

text \<open>The argument is \<open>option_env!("NAPQES_ATTESTED_VERSION")\<close>.\<close>

definition build_provenance_check :: "string option \<Rightarrow> (unit, self_test_error) res" where
  "build_provenance_check attested =
     (case attested of
        Some v \<Rightarrow> if v = BUILD_HASH then Ok () else Err BuildProvenanceMismatch
      | None \<Rightarrow> Ok ())"

section \<open>INT-2\<close>

datatype file_read = NotFound | Unreadable | Contents bytes

type_synonym files = "string \<Rightarrow> file_read"

definition INTEGRITY_KEY :: bytes where
  "INTEGRITY_KEY = map (\<lambda>c. of_nat (of_char c)) ''NAPQES module software integrity v1''"

definition integrity_tag :: "mac \<Rightarrow> bytes \<Rightarrow> bytes" where
  "integrity_tag H module_image = hmac_digest H INTEGRITY_KEY module_image"

definition integrity_sidecar_path :: "string \<Rightarrow> string" where
  "integrity_sidecar_path p = p @ ''.hmac''"

definition verify_module_integrity :: "mac \<Rightarrow> files \<Rightarrow> string \<Rightarrow> (bool, self_test_error) res" where
  "verify_module_integrity H fs p =
     (case fs (integrity_sidecar_path p) of
        NotFound \<Rightarrow> Ok False
      | Unreadable \<Rightarrow> Err IntegrityCheckFailed
      | Contents raw \<Rightarrow>
          (case from_utf8 raw of
             None \<Rightarrow> Err IntegrityCheckFailed
           | Some reference \<Rightarrow>
               res_bind (map_err (\<lambda>_. IntegrityCheckFailed) (decode_hex (trim reference))) (\<lambda>expected.
                 case fs p of
                   Contents img \<Rightarrow>
                     if length expected = 32 \<and> ct_eq_bytes expected (integrity_tag H img) then Ok True
                     else Err IntegrityCheckFailed
                 | _ \<Rightarrow> Err IntegrityCheckFailed)))"

text \<open>\<open>exe\<close> is the result of \<open>current_exe\<close>, \<open>fips_integrity\<close> the cargo feature.\<close>

definition software_integrity_check :: "mac \<Rightarrow> bool \<Rightarrow> string option \<Rightarrow> files \<Rightarrow> (unit, self_test_error) res" where
  "software_integrity_check H fips_integrity exe fs =
     (case exe of
        None \<Rightarrow> Err IntegrityCheckFailed
      | Some p \<Rightarrow>
          res_bind (verify_module_integrity H fs p) (\<lambda>ok.
            if ok then Ok () else if fips_integrity then Err IntegrityCheckFailed else Ok ()))"

section \<open>The tool\<close>

datatype exit_code = SUCCESS | FAILURE | Usage

text \<open>
  The loop over the arguments. A failed write is modelled as leaving the file as it was, although
  the operating system may have truncated it; the tool reports failure in either case. Paths are
  names: two names of one file are not identified.
\<close>

fun integrity_loop :: "mac \<Rightarrow> (string \<Rightarrow> bool) \<Rightarrow> string list \<Rightarrow> files \<Rightarrow> exit_code \<times> files" where
  "integrity_loop H writable [] fs = (SUCCESS, fs)"
| "integrity_loop H writable (p # ps) fs =
     (case fs p of
        Contents img \<Rightarrow>
          if writable (integrity_sidecar_path p)
          then integrity_loop H writable ps
                 (fs(integrity_sidecar_path p := Contents (utf8_bytes (to_hex (integrity_tag H img) @ [10]))))
          else (FAILURE, fs)
      | _ \<Rightarrow> (FAILURE, fs))"

definition napqes_integrity_main :: "mac \<Rightarrow> (string \<Rightarrow> bool) \<Rightarrow> string list \<Rightarrow> files \<Rightarrow> exit_code \<times> files" where
  "napqes_integrity_main H writable paths fs =
     (if paths = [] then (Usage, fs) else integrity_loop H writable paths fs)"

section \<open>Hexadecimal round trip\<close>

lemma hex_digit_facts:
  assumes "d < 16"
  shows "digit_val 16 (hex_digit d) = Some d" "hex_digit d < 128" "48 \<le> hex_digit d"
  using assms by (auto simp: digit_val_def hex_digit_def)

lemma utf8_ascii: "list_all (\<lambda>c. c < 128) s \<Longrightarrow> utf8_bytes s = map of_nat s"
  by (induction s) (auto simp: utf8_bytes_def utf8_char_def)

lemma high_nibble: "unat (b :: byte) div 16 < 16"
  by (rule less_mult_imp_div_less) simp

lemma to_hex_ascii: "list_all (\<lambda>c. 48 \<le> c \<and> c < 128) (to_hex bs)"
  using hex_digit_facts high_nibble by (auto simp: to_hex_def list_all_iff)

lemma length_to_hex [simp]: "length (to_hex bs) = 2 * length bs"
  by (induction bs) (simp_all add: to_hex_def)

lemma to_hex_pair:
  "i < length bs \<Longrightarrow> take 2 (drop (2 * i) (to_hex bs)) = [hex_digit (unat (bs ! i) div 16), hex_digit (unat (bs ! i) mod 16)]"
proof (induction bs arbitrary: i)
  case (Cons b bs)
  then show ?case by (cases i) (simp_all add: to_hex_def)
qed simp

lemma ascii_boundary:
  assumes "list_all (\<lambda>c. c < 128) s" "i \<le> length s"
  shows "is_char_boundary (utf8_bytes s) i"
proof (cases "i = length s")
  case False
  then have "s ! i < 128" using assms by (simp add: list_all_length)
  then show ?thesis using False assms
    by (simp add: utf8_ascii is_char_boundary_def is_cont_def unat_of_nat)
qed (simp add: is_char_boundary_def utf8_ascii [OF assms(1)])

lemma ascii_hex_pair:
  assumes "list_all (\<lambda>c. c < 128) s" "2 * i + 2 \<le> length s"
  shows "hex_pair (utf8_bytes s) i =
    (case from_str_radix 16 256 (take 2 (drop (2 * i) s)) of Some v \<Rightarrow> Ok (of_nat v) | None \<Rightarrow> Err (InternalError ''invalid hex digit''))"
proof -
  have "map (\<lambda>c. unat (of_nat c :: byte)) (take 2 (drop (2 * i) s)) = take 2 (drop (2 * i) s)"
    using assms(1) by (intro map_idI) (auto simp: list_all_iff unat_of_nat dest!: in_set_takeD in_set_dropD)
  then have "map unat (take 2 (drop (2 * i) (utf8_bytes s))) = take 2 (drop (2 * i) s)"
    using assms(1) by (simp add: utf8_ascii take_map drop_map comp_def)
  then show ?thesis
    using ascii_boundary [OF assms(1)] assms(2) by (simp add: hex_pair_def)
qed

lemma decode_to_hex: "decode_hex (to_hex bs) = Ok bs"
proof -
  have a: "list_all (\<lambda>c. c < 128) (to_hex bs)" "\<forall>c \<in> set (to_hex bs). c \<noteq> 10 \<and> c \<noteq> 32"
    using to_hex_ascii [of bs] by (auto simp: list_all_iff)
  have "hex_pair (utf8_bytes (to_hex bs)) i = Ok (bs ! i)" if "i \<in> set [0..<length bs]" for i
  proof -
    have d: "unat (bs ! i) div 16 < 16" "unat (bs ! i) mod 16 < 16" "unat (bs ! i) < 256"
      by (simp_all add: high_nibble)
    have "unat (bs ! i) div 16 * 16 + unat (bs ! i) mod 16 = unat (bs ! i)" by simp
    moreover have "hex_digit (unat (bs ! i) div 16) \<noteq> 43" using hex_digit_facts(3) [OF d(1)] by simp
    ultimately show ?thesis
      using that d by (simp add: ascii_hex_pair [OF a(1)] to_hex_pair from_str_radix_def hex_digit_facts)
  qed
  then have "collect_res (hex_pair (utf8_bytes (to_hex bs))) [0..<length bs] = Ok (map ((!) bs) [0..<length bs])"
    by (rule collect_res_all_Ok)
  moreover have "filter (\<lambda>c. c \<noteq> 10 \<and> c \<noteq> 32) (to_hex bs) = to_hex bs" using a(2) by (auto simp: filter_id_conv)
  ultimately show ?thesis by (simp add: decode_hex_def utf8_ascii [OF a(1)] map_nth)
qed

lemma trim_hex_line: "trim (to_hex bs @ [10]) = to_hex bs"
proof -
  have w: "\<not> is_whitespace c" if "c \<in> set (to_hex bs)" for c
    using that to_hex_ascii [of bs] by (auto simp: is_whitespace_def list_all_iff)
  have d: "dropWhile is_whitespace xs = xs" if "xs = [] \<or> \<not> is_whitespace (hd xs)" for xs
    using that by (cases xs) auto
  show ?thesis
  proof (cases "to_hex bs = []")
    case False
    then have "dropWhile is_whitespace (to_hex bs @ [10]) = to_hex bs @ [10]"
      using w [of "hd (to_hex bs)"] d by simp
    moreover have "dropWhile is_whitespace (rev (to_hex bs @ [10])) = rev (to_hex bs)"
      using False w d [of "rev (to_hex bs)"] by (simp add: is_whitespace_def hd_rev)
    ultimately show ?thesis by (simp add: trim_def)
  qed (simp add: trim_def is_whitespace_def)
qed

lemma read_hex_line: "from_utf8 (utf8_bytes (to_hex bs @ [10])) = Some (to_hex bs @ [10])"
proof (rule from_utf8_utf8_bytes)
  show "list_all is_scalar (to_hex bs @ [10])"
    using to_hex_ascii [of bs] by (auto simp: list_all_iff is_scalar_def)
qed

section \<open>What the check accepts\<close>

lemma verify_accepts_iff:
  "verify_module_integrity H fs p = Ok True \<longleftrightarrow>
     (\<exists>raw reference img. fs (integrity_sidecar_path p) = Contents raw \<and> from_utf8 raw = Some reference \<and>
        fs p = Contents img \<and> decode_hex (trim reference) = Ok (integrity_tag H img))"
proof -
  have "length (integrity_tag H img) = 32" for img by (simp add: integrity_tag_def)
  then show ?thesis
    by (cases "fs (integrity_sidecar_path p)"; cases "fs p")
      (auto simp: verify_module_integrity_def split: option.splits if_splits)
qed

lemma integrity_tag_accepted:
  assumes "fs p = Contents img"
    and "fs (integrity_sidecar_path p) = Contents (utf8_bytes (to_hex (integrity_tag H img) @ [10]))"
  shows "verify_module_integrity H fs p = Ok True"
  unfolding verify_accepts_iff using assms read_hex_line trim_hex_line decode_to_hex by metis

lemma integrity_tool_writes:
  assumes "integrity_loop H writable ps fs = (SUCCESS, fs')"
    and "\<forall>p \<in> set ps. \<forall>q \<in> set ps. p \<noteq> integrity_sidecar_path q"
  shows "(\<forall>q. q \<notin> integrity_sidecar_path ` set ps \<longrightarrow> fs' q = fs q) \<and>
    (\<forall>p \<in> set ps. \<exists>img. fs p = Contents img \<and>
       fs' (integrity_sidecar_path p) = Contents (utf8_bytes (to_hex (integrity_tag H img) @ [10])))"
  using assms
proof (induction ps arbitrary: fs)
  case (Cons p ps)
  define fs1 where "fs1 img = fs(integrity_sidecar_path p :=
      Contents (utf8_bytes (to_hex (integrity_tag H img) @ [10])))" for img
  from Cons.prems(1) obtain img where img: "fs p = Contents img" "integrity_loop H writable ps (fs1 img) = (SUCCESS, fs')"
    by (auto simp: fs1_def split: file_read.splits if_splits)
  have "\<forall>p \<in> set ps. \<forall>q \<in> set ps. p \<noteq> integrity_sidecar_path q" using Cons.prems(2) by simp
  note IH = Cons.IH [OF img(2) this]
  have keep: "fs' q = fs1 img q" if "q \<notin> integrity_sidecar_path ` set ps" for q
    using IH that by blast
  have tail: "\<exists>i. fs q = Contents i \<and> fs' (integrity_sidecar_path q) = Contents (utf8_bytes (to_hex (integrity_tag H i) @ [10]))"
    if "q \<in> set ps" for q
  proof -
    have "fs1 img q = fs q" using that Cons.prems(2) by (simp add: fs1_def)
    then show ?thesis using IH that by metis
  qed
  have head: "fs' (integrity_sidecar_path p) = Contents (utf8_bytes (to_hex (integrity_tag H img) @ [10]))"
  proof (cases "p \<in> set ps")
    case True
    then show ?thesis using tail [OF True] img(1) by auto
  next
    case False
    then have "integrity_sidecar_path p \<notin> integrity_sidecar_path ` set ps"
      by (auto simp: integrity_sidecar_path_def)
    then show ?thesis using keep by (simp add: fs1_def)
  qed
  have "fs' q = fs q" if "q \<notin> integrity_sidecar_path ` set (p # ps)" for q
    using that keep [of q] by (simp add: fs1_def)
  then show ?case using head tail img(1) by simp
qed simp

lemma collect_res_not_Panic: "(\<And>x. x \<in> set xs \<Longrightarrow> f x \<noteq> Panic) \<Longrightarrow> collect_res f xs \<noteq> Panic"
proof (induction xs)
  case (Cons x xs)
  then show ?case by (cases "f x"; cases "collect_res f xs") auto
qed simp

lemma decode_hex_ascii_not_Panic:
  assumes "list_all (\<lambda>c. c < 128) s"
  shows "decode_hex s \<noteq> Panic"
proof -
  define t where "t = filter (\<lambda>c. c \<noteq> 10 \<and> c \<noteq> 32) s"
  have t: "list_all (\<lambda>c. c < 128) t" using assms by (auto simp: t_def list_all_iff)
  have "hex_pair (utf8_bytes t) i \<noteq> Panic" if "i \<in> set [0..<length (utf8_bytes t) div 2]" for i
  proof -
    have "2 * i + 2 \<le> length t" using that by (simp add: utf8_ascii [OF t])
    then show ?thesis by (simp add: ascii_hex_pair [OF t] split: option.split)
  qed
  then have "collect_res (hex_pair (utf8_bytes t)) [0..<length (utf8_bytes t) div 2] \<noteq> Panic"
    by (rule collect_res_not_Panic)
  then show ?thesis by (simp add: decode_hex_def Let_def t_def)
qed

lemma sidecar_differs: "p \<noteq> integrity_sidecar_path p"
  by (simp add: integrity_sidecar_path_def)

lemma verify_modified:
  assumes "verify_module_integrity H fs p = Ok True" "fs p = Contents img"
  shows "verify_module_integrity H (fs(p := Contents img')) p =
    (if integrity_tag H img' = integrity_tag H img then Ok True else Err IntegrityCheckFailed)"
proof -
  obtain raw reference where r: "fs (integrity_sidecar_path p) = Contents raw" "from_utf8 raw = Some reference"
      "decode_hex (trim reference) = Ok (integrity_tag H img)"
    using assms by (auto simp: verify_accepts_iff)
  have "length (integrity_tag H img) = 32" by (simp add: integrity_tag_def)
  then show ?thesis
    using r sidecar_differs [of p] by (auto simp: verify_module_integrity_def)
qed

section \<open>Properties\<close>

text \<open>
  C31: after the tool has run on a list of executables (none of which is the reference file of
  another), the integrity test accepts each of them in every build; replacing an executable by
  another image makes the test fail, in every build, unless the two images collide under the
  integrity hash.
\<close>

theorem integrity_detects_modification:
  assumes "napqes_integrity_main H writable paths fs = (SUCCESS, fs')"
    and "\<forall>p \<in> set paths. \<forall>q \<in> set paths. p \<noteq> integrity_sidecar_path q"
    and "p \<in> set paths"
  shows "software_integrity_check H fips_integrity (Some p) fs' = Ok () \<and>
    (\<exists>img. fs p = Contents img \<and> fs' p = Contents img \<and>
       (\<forall>img'. integrity_tag H img' = integrity_tag H img \<or>
          software_integrity_check H fips_integrity (Some p) (fs'(p := Contents img')) = Err IntegrityCheckFailed))"
proof -
  have loop: "integrity_loop H writable paths fs = (SUCCESS, fs')"
    using assms(1) by (simp add: napqes_integrity_main_def split: if_splits)
  note w = integrity_tool_writes [OF loop assms(2)]
  obtain img where img: "fs p = Contents img"
      "fs' (integrity_sidecar_path p) = Contents (utf8_bytes (to_hex (integrity_tag H img) @ [10]))"
    using w assms(3) by blast
  have "p \<notin> integrity_sidecar_path ` set paths" using assms(2,3) by blast
  then have p: "fs' p = Contents img" using w img(1) by simp
  have v: "verify_module_integrity H fs' p = Ok True" by (rule integrity_tag_accepted [OF p img(2)])
  then have "software_integrity_check H fips_integrity (Some p) fs' = Ok ()"
    by (simp add: software_integrity_check_def)
  moreover have "integrity_tag H img' = integrity_tag H img \<or>
      software_integrity_check H fips_integrity (Some p) (fs'(p := Contents img')) = Err IntegrityCheckFailed" for img'
    using verify_modified [OF v p, of img'] by (simp add: software_integrity_check_def)
  ultimately show ?thesis using img(1) p by blast
qed

theorem integrity_detects_modification_witness:
  "\<exists>fs'. napqes_integrity_main (\<lambda>k d. of_nat (length d)) (\<lambda>_. True) [''a''] (\<lambda>_. Contents [1, 2]) = (SUCCESS, fs') \<and>
     software_integrity_check (\<lambda>k d. of_nat (length d)) True (Some ''a'') fs' = Ok ()"
proof -
  obtain fs' where fs': "napqes_integrity_main (\<lambda>k d. of_nat (length d)) (\<lambda>_. True) [''a''] (\<lambda>_. Contents [1, 2]) = (SUCCESS, fs')"
    by (simp add: napqes_integrity_main_def)
  from integrity_detects_modification [OF this, of "''a''" True] fs' show ?thesis
    by (simp add: integrity_sidecar_path_def)
qed

text \<open>
  C39: a reference file that is valid UTF-8 but not ASCII can make the integrity test panic
  instead of failing: one ASCII character followed by a three-byte character is such a text,
  because the decoder slices inside the second character.
\<close>

theorem integrity_test_panics_on_text:
  assumes "fs (integrity_sidecar_path p) = Contents (utf8_bytes [c, d])"
    and "32 < c" "c < 128" "0x4000 \<le> d" "d < 0xD800"
  shows "software_integrity_check H fips_integrity (Some p) fs = Panic"
proof -
  have len: "length (utf8_bytes [c, d]) = 4" "is_cont (utf8_bytes [c, d] ! 2)"
    using assms(3-5) cont_of_nat [of "d div 64 mod 64"] by (auto simp: utf8_bytes_def utf8_char_def)
  have "from_utf8 (utf8_bytes [c, d]) = Some [c, d]"
    using assms(3-5) by (intro from_utf8_utf8_bytes) (simp add: is_scalar_def)
  moreover have "trim [c, d] = [c, d]" using assms(2-5) by (auto simp: trim_def is_whitespace_def)
  moreover have "hex_pair (utf8_bytes [c, d]) 0 = Panic" using len by (simp add: hex_pair_def is_char_boundary_def numeral_2_eq_2)
  then have "decode_hex [c, d] = Panic"
    using assms(2-5) len by (simp add: decode_hex_def upt_conv_Cons)
  ultimately show ?thesis
    using assms(1) by (simp add: software_integrity_check_def verify_module_integrity_def)
qed

theorem integrity_test_panics_on_text_witness:
  "software_integrity_check (\<lambda>_ _. 0) True (Some ''a'') (\<lambda>_. Contents (utf8_bytes [97, 0x4E00])) = Panic"
  using integrity_test_panics_on_text [of "\<lambda>_. Contents (utf8_bytes [97, 0x4E00])" "''a''" 97 "0x4E00"] by simp

end
