(* ===== verification/SelfTests.thy ===== *)
theory SelfTests
  imports Integrity LegacyV7 StreamCorrect Kem
begin

text \<open>
  The known-answer tests KAT-1 to KAT-11 of \<open>rust/src/self_test.rs\<close> with their vectors, the
  list of tests a power-on self-test runs, and the demonstration program \<open>rust/src/main.rs\<close>.
  SHA-256, the file \<open>kat/frodo640aes_decap_kat.bin\<close>, the random draws and the environment of
  the build and of the process are fields of \<open>post_env\<close>.
\<close>

section \<open>Vectors\<close>

definition KAT_KEY :: "nat list" where
  "KAT_KEY = [1000003, 1000033, 1000037, 1000039]"

definition KAT_NONCE :: bytes where
  "KAT_NONCE =
    [0x9c, 0x6c, 0x0b, 0x92, 0x1a, 0x83, 0x84, 0x9c, 0xdb, 0xf2, 0xfe, 0x7e, 0xfb, 0x74, 0x3f, 0xe9]"

definition KAT_MESSAGE :: str where "KAT_MESSAGE = [65]"

definition KAT_CIPHERTEXT_HEX :: str where
  "KAT_CIPHERTEXT_HEX = map of_char (concat [
     ''9c6c0b921a83849cdbf2fe7efb743fe9'', ''5efad555806a09d8b58011b313a2ab94'', ''1c5b12617b85734abbfcb2eaa4f3dfdc'',
     ''98e2b91011e1fccc7bfe2e0341e7cb27'', ''3ae8accaf44ad4ada405449698107797'', ''b350fc41b84f9a5ecf580896d17c7479'',
     ''913b3156469c3a26e3b0df3776826a0e'', ''26cae67e44c551ec8f242ff08dd2a359'', ''9454c647da23779bf0760ea0a394bf92'',
     ''767a4a48a993372acd0a8caf89216422'', ''4ba6b63afcba8052357528c429941b27'', ''158ba14e5f4667212dc37b43abb9736c'',
     ''3c5a179a51587ce04ac8436e50f5de86'', ''99505880b4c2f015e5c3447897c15dcc'', ''318d1515baf606b3efd46b83e88943bf'',
     ''f987cf74ba1545226b5574db799dc452'', ''7bbbbc0c8821f58387469c20ee704822'', ''d61aa6cecf91c47638b23d0f8f2f17c7'',
     ''8a947ef3702524566223bdcd5b44f242'', ''9b9a3cfe5877cc61a01296ebe7b1f074'', ''b1cf3eca6edb4df857250018f8f71a19'',
     ''2549c7be79f5b2807c8324010d9e6b91'', ''2933fec5e401f11e27bc67700ae21db2'', ''98f3b6f8cd8ee95406bf4a675254a85d'',
     ''d052402ae033166f123150eac92a4065'', ''e583d6e180bec7b2f2138308bdfbe004'', ''5ff77c510d79cddc1db1baa8d80194fb'',
     ''585ecb2ac6451e152fbc090a08a4220f'', ''554a46805ed9c2d069f37b03755528fe'', ''3954e1a6a09dcfb191037e0aa3062d45'',
     ''191b0c4f92e1e0f74486e0c357bd73fa'', ''56446fb255adea9a1f76dfa895a8ecc5'', ''922e171c92282ca16767e944790b5ec2'',
     ''d227077d4164c2afe97ab6ec5a42d1f7'', ''1203fa9edb9db2d3077b4e90e890a004'', ''fc59654e3b25e0ad2f6a8637fdf082f5'',
     ''d143e3679bcfa59c165323e4bc7b0461'', ''b05f5939722b1eeb2cce5f571f3c4b3e'', ''a80e772f7654a0517ed70f46809ff38b'',
     ''3a83820a45da1dc413dff0e911d87506'', ''f4607424c981dda769ec6f0110594076'', ''96bee5f7a8fb81f350ed8b7c2854a2ef'',
     ''a642ae1b69e5ccd10b8e030c53db135d'', ''dfe08fb4da670864d0b39142a5834e37'', ''56d2b77b49b28d65e3b0b86489ca1eab'',
     ''7bdfd6a46f2150758c3721a82877bf9a'', ''d3571b9eb0891fa6060fe6246f95a407'', ''e1732f6151525d68654e16044f8c0618'',
     ''c73a0b2bd24b8c2ec18469b6b2ecb3e9'', ''1bc9f67a9e6540fad234a3f9dbd6f26b'', ''b354013a5032f3a9752aedff7976f705'',
     ''11e75f6bff6be12641e7bce0f55bc2bf'', ''ae80809966cc6546540902e258012722'', ''3ccd4bf648b2d2a7175cd9bf20c92287'',
     ''34df862aa6938512335d775d5745f29a'', ''ed2c66556739620e21ace64ce25fc8b3'', ''02fbfa283f52b5f7a28be8f09fe0d2c5'',
     ''4995f40936c1e225c57e7f5307ceb515'', ''ce9e0a1de509ca8ee6a2ff43daa2d7e4'', ''4166a0edabfe3b9f30a35043e81ffe0c'',
     ''1ac982c4ee4ef6cab522c5039a4fe552'', ''f59a9bd90947ad03e1dbd81ec9dce4bf'', ''4b1b2d75eba581dbddae8c65d3ad5f83'',
     ''06101c8af95f38bb162a9917e155887d'', ''682ea3356ea92c4f146dee150f4083cc'', ''434d13e932d45291118655e870394a46'',
     ''3e7b4edfad360992590bf90376d17f0a'', ''132c012758df3b6993586665af49b8bc'', ''bfc638f9737a30b8b32a21f49d7792fc'',
     ''15efaf8bf8d43cd4a447e0197ce9b6a8'', ''11cc2b23f6fb9e0d96f9460388b0fd5b'', ''8e4d363e4ab1fb971afd317227e409d7'',
     ''65976a30d21d084ae24bbcac18b323d5'', ''c0de487749cd9349a5b9d9890a43f513'', ''49c42852c957c05cfbc4ad3c3fbae7f7'',
     ''19f5202806dcbcce3126d3a9b72eab85'', ''b862697b4b142886f3372f0e132e8baa'', ''92b04c5c684368933855782f6d30a6ed'',
     ''cff9abc7e0743106768c5501e9856625'', ''16e766ee9b75197b107a0316c76b1178'', ''8381fb6280bf4f5c3868dcbfc6b47c73'',
     ''cd974d8da8f191edd665f1780939a30d'', ''0741caca6c1f19ae9a0ef3eac468e065'', ''b2da0af065ec3bfeeb22545666db386a'',
     ''11bd16b738619675b79d1e866d2b251f'', ''ee98f26ccf14fc34e5bff529e84729ac'', ''ef479730ae3822f8cca7b5b44d845047'',
     ''570e32128eb4ac556a45a73293dfc4a1'', ''198895891187da92e1686e695c78b7b6'', ''945cc71ab37ee5c0915e69fccc61d917'',
     ''83a83c0b03214c71d9a0571c57137baf'', ''cc9725eafb1ad3d0128628ec13f27b89'', ''13cdfadf1292ab1b33ec2e92a32d2fa2'',
     ''53dee091c59a8f98c1c2703264c43a13'', ''58a991ae92360a0f32f559bb4ccf492c'', ''5cb22558af9f1db96695a3f7a2f51494'',
     ''d220a0cb176fb2019a6fe02b5b0c6c57'', ''f04a61d92cbc53d046357e4a07a76486'', ''85063c6694d04689c334ac4a093aa41f'',
     ''690ede11279069ac8a7007da2c8bf322'', ''d9b59c522e193edb8b77ada0ad84f6c6'', ''a9edca3658b363f62a423ab08a0719e3'',
     ''49508a1bc75b3287dc7c9d147c9a7f4f'', ''2523efb4d5f7636f5c850b7856157e24'', ''7823fc84cef0ab0afdc964c57360c541'',
     ''d04ee81cb911c5993e0e4ce2f5e070a0'', ''259a2b61ea9232d10031ac3b8313eddd'', ''5c54067e3c9e6f63aa40133ee912a4f7'',
     ''df1fda6473cbd0623797ec242d3100c1'', ''a5d00c1210d1db4669141ec0feff677c'', ''87bdce9ea0ce4757aefff862c861e707'',
     ''698878b6c18c705650079f87886a52c4'', ''2d135aaef44cc7944124a9d594c41183'', ''5ae7fe92deb23f7d7772abf21aa29610'',
     ''9ecc75fb2cc81d326432f430c1be1146'', ''ec968a30b7faaa975abdb18141ed4d61'', ''7f5a02446f5a7b2501f887927688dadb'',
     ''071f3ad59150e0e5467d9534bdc1ed45'', ''1385a199ddb82a79046fefbc8106537a'', ''7f7585761972fc520115be4efbc2073f'',
     ''2b4852a2709832bd069d83971b23d9d7'', ''fd382c87832c1dc3530bbd72c1e56110'', ''12803c405daecf403921b34487919f05'',
     ''702c03a2cd0971e334c0602b25c6adde'', ''fb43e8d2059c35bbbe7fc1485f2cf8ad'', ''020820b0475ef7b209a85949ad4c92c9'',
     ''01e6bce5df09f0bedd062d8ff4a0a17a'', ''eeaaa9db88a5c3444bae88469c18c629'', ''2d02872b61c87ce563f35050af3af839'',
     ''cc5a2cebcb0e3b0642279e3db21624f5'', ''86532119f77a1d75bee680dda245b076'', ''0cd2d48b34e848364e4de20411018c67'',
     ''983f1a26ce7e50047431bdbd4fd4f046'', ''0d1e36fa9a772e6efa052121beb33ec9'', ''09057cb15599dd554c421772018d7cb2'',
     ''0b0659dbcc0bb8a7caf842b7e5c24d21'', ''5129c58f7b50e798ad285f2269ddbd02'', ''5d93a169b577094366579e54e033468f'',
     ''c4c6436abad4cd5b2415dc92c1a86f8b'', ''091f332423362635e38856eec8dc6094'', ''644203047035cfd2d0b4dfd1bcefdc8d'',
     ''3661782b93ff4288da422eb9beaab449'', ''c574b43db670bac611cb4eb5fa423636'', ''03b16f5f6a3fb25798a29953d6012024'',
     ''adac6e91840706241566b2981204ae04'', ''6b9fe9dcc79851a501164a37ad82531e'', ''9d7956d17950f7a972a3aee8a1dd38a3'',
     ''3c66e03895ec5685d7d137705065b370'', ''797bcaa0f574c958ecb800fb5b32498b'', ''d8b0cf67e1e270d6a24484f94b1c52f3'',
     ''4bc78b17f13e247b5d3722243e3210a6'', ''cf4d0f4e5da420c17377f1067ccad293'', ''42995b76006b4b9b9b29045fc018b8e9'',
     ''fef87eeeb1b0886f2186a4ee365e3002'', ''87f5fb93049b6c49c96a3698292a2abd'', ''e7a90dd9b092e9f117b1059c11f08d04'',
     ''c1d157435062b331d69c4b973edc0548'', ''21403a1c27a36eef6700269c549a702e'', ''591d3ccac21d545291839e4881461584'',
     ''1efa13975fdf4765265f7dcb2762489d'', ''a8bccb7e75eb1f6317c451904a337a40'', ''e4b9683887a59d544b80fbd5f9f0e1ee'',
     ''add3237857ed78007c78ac75e58865a2'', ''681083ad52320ceb4508fa7fa6ef480a'', ''9ad1a3c010d5352d83c6384e192d2cc0'',
     ''cc74c0d788423fc59b73eadff1453825'', ''5ee49303ad207c7daa0fa62ef8f9ed99'', ''62dfec14148b57db4d10c019102ce704'',
     ''f2c3bf16f6f32aa1ef3f59e2ab2a9d6a'', ''ec690585c0ff97e0801c782a690ba0db'', ''824d9183929dc115afeb8f4b2ddcd1f6'',
     ''8b538f6b8a46fd8cfb8f6754d036e201'', ''2468a5f9e20d971a62336cf7105e608f'', ''557b22db71580884ce19b794cf6a2931'',
     ''afa4c1d4a44b75e73575b5ae2531183e'', ''17ec6bdfbafca2f0afebd0eae70a7084'', ''7b5128a046494204e689be3caf4e021a'',
     ''4ef742d5331fccaf6a1d71fe5e6fa98e'', ''069045c45c516ac5381e725da2d98c99'', ''6d5127f52b649463502abbc7d1929bf4'',
     ''746f73eae1d2e30b1eb3abd9473f4913'', ''0c1dde4819f0bf593cb277eab93c9273'', ''1549b5061cdce7305d9b40ab9336e971'',
     ''ef542517c1c3a33978d5caf6a84c548d'', ''bd9f1788b0b9502de1a26977a493d710'', ''682904f96107c1a3a1c7862d46d74c13'',
     ''000fe9d87806ebf3db3571d5bdeef3fb'', ''4a2006bac5c17c8d52d536672ec876a6'', ''0ad7516068fa8f0fac553bd58de02511'',
     ''fb7dce90ce55157d2b90e45af1c6f863'', ''e197dc5b71657cd7ff01c54937e47c6c'', ''0eefbaa4d078a111a30a1ff22924a5ed'',
     ''9aac86b1582a9a9fa21f5df3124b8128'', ''632e090345fd781ad7bc70c974109d58'', ''c50522e907c22af0f973adc594f40884'',
     ''62a147c2d201e8e67313c4a6a9e635b5'', ''30c4da1b70bbbf20d4df791b16184738'', ''67f660755a50e5e85d74d92b9b148320'',
     ''8419be99386c0df5b9333ae36117814e'', ''3c6a596d794f75163837e0d504bca33f'', ''378affe2addebc1104eba62450e69ad2'',
     ''7b995d808503a3355198fde6d0585aed'', ''fdc54ccc1d934ebe4ae53b6cdcfc1c34'', ''473cab56eb743fbff35a8d53aba0b787'',
     ''89f762e7d6ec0e1d2697a011d574796b'', ''d26651e4c148d3f1efaee0f2f77cad4c'', ''17cce257e53081fc365326b33da0637b'',
     ''55a41d170cf62c60fa053e946ebf899f'', ''c72f14bb18add030638413c3627aa9d8'', ''1428943152bdf658746abe4f0b3b7434'',
     ''a108363d4f734502e81d5818f83b3be3'', ''d129b3d8fcd829bd95efb8f1c438bf80'', ''b06e29b782c4fdc561a3bfe3b6779d2c'',
     ''49e6f6eda9ff856a5b2593887e8f405f'', ''b17f210cc3f00e26666af7b85846e90b'', ''428fecba2d313cd9ecc7566e12769b06'',
     ''0628d5eb906513fde9d3434c8d66d5f7'', ''559e92949a6ea4959b0b960ccc4662d9'', ''2747f0d4104db1f13441ac330e5de815'',
     ''b96bfae631ca92cd5495759bf0c84c8b'', ''cd704368c3c98156c7feb99a3a6f3d82'', ''3dc8c7b2416193a38fae3db310b3ac14'',
     ''b37b21eaa5343e1bcd658e4a36d4319b'', ''97036987170a9e57a28457369fb70939'', ''0ed463cdfc424bd6959fa733c172c7d6'',
     ''74132188349590caa2eb56843a495834'', ''49b426cb6620dd082cc7962b6217f8ea'', ''7f2b53df3d511f43b6e0c50ca6f88ca9'',
     ''39987461af96900e2fd811421968b8d9'', ''e3f5bf3978cb028729786451b977f0e2'', ''a58d9c5974ccbc601f1540f2bfef4de7'',
     ''53465545376d140b6be39fe329e5cf2d'', ''2fd853a412adc7edf92f88cad40cb88a'', ''3f536b0c1b307a2d2f91eb5a356024e4'',
     ''756710e556399b6b7396bb96073a730d'', ''87ffaf88cfc818eca48e646cb4a6a4f0'', ''35d7dad38fe2cb97dca7200781ef0ae8'',
     ''3480b4780df36c42eda24607e1a98b3e'', ''e8918ba21510b1434e5a3a8263343b83'', ''de2cc78339d0bf63a24f71b6c301bebd'',
     ''bd8618dd4d9da3fd7a6cf7d10d012636'', ''5a08ac30d121397f0dfacc9c0b3e9c5e'', ''c04570aec8cda7b4f2a72ffbd76f20ab'',
     ''a26b8c33e219b1cecbe918cf23abba75'', ''4359f45990c1de26613cc284006bc0a2'', ''6da70a73e0e371955f31132fe11ba8e1'',
     ''cfa4d69f8c55ef6f6d153a07d2fa0324'', ''7f9df08ec171f581adcee4120c28b663'', ''793fffc1d8915433aac0e002867ee4ee'',
     ''347aa0502a99f8e1e61307c3246e2715'', ''58e0a01cf54aec5b4c7e3c57c159b7fe'', ''6812b765e8fd01816e1dd49627caf807'',
     ''670e73c70955eaecb6e028513fb04647'', ''73d61f79546371ae0a70f94f748dd823'', ''9faaca8fec3c53ed1821d8dd284c174f'',
     ''3a73b85ba3692e15ae31dc26a4d39065'', ''0703b760c4fc3bc75aa89a31a5712149'', ''b226f93c70bf29eebf9519baa4cd0880'',
     ''d3ccfd0f0764eef1495ba9dcd44d2923'', ''b4316a6709d176a4ad7eb53ddb03d92b'', ''269598cb1e79e1cb2503d0859ad8c188'',
     ''30e62e05548c30e237dad461f706c5e1'', ''699a347a1921f04be2cb8dffe559ad5c'', ''d924706f13a29d115611a2d0372ce49f'',
     ''9331eb60f793de015272d5a7ab77bd79'', ''824a9a525c2a2cc5f4d2054c9c3593c5'', ''33ec2721c6abda6a574a9a503fa11a46'',
     ''96c69396292e350baaa8bd95b9d4c25e'', ''97d2009ec947b30be772314dba4d44c8'', ''1dc97049d7e0f60f9ca1e173555a2f34'',
     ''b1a14ca6c7b85e9bd426432474d24908'', ''f2f652e40a39d2e37cf0f4d31c86a5ed'', ''990716f6d7f40e8cff69c78341e0da23'',
     ''e8b515a6f7ce196ff65331d2ee307d65'', ''8c2e08c890dff18a3cb0187ad889bd52'', ''70386ec89175afcac4a0eb40295aa489'',
     ''077b0222d30257f0c127ab9ae290699d'', ''7a023dde4d9e13dba18e27902657712f'', ''e544b63ef566fe6e54b7bc02e1ceebca'',
     ''16076fe0245d3419107297afcf5d59d1'', ''4fd4687cc809f344668bbca822dfbe59'', ''e2c939092a38fa943591f3a3224b431f'',
     ''7998e74c49db04f0e6cb09448b0b0f7c'', ''31bc7c4be8f07a16741499fdd5bafb71'', ''aba04cc2f6c5b7e110350acb50c94778'',
     ''a6a8381b5aab8c59c99e921b9021c6a1'', ''6b9d5edbe9738322097c1f3f1f98f534'', ''ce525dbf89c89bae8a10dfdba13686f1'',
     ''5f17f6ec9ea3f49d0722c5c60e1db62c'', ''76a9688b27bd05bced20685312e68a74'', ''097a0aa4d6e12c626eb82f75a4de560c'',
     ''feb6fc9f02769b22397ac176f165f81b'', ''cbb53059bbfd8263ca5cb252e2b25e8c'', ''f57c3b966c96f379ff99ed654be61e71'',
     ''bbfb43045b60b963ecd08726b83d1ced'', ''cb85cd12c0a1a950da73fcecab8f2bc8'', ''e77cbdb380b82a9e77cbb749ee276b29'',
     ''5f6b9d2d38496dabad2ee00499d0298d'', ''cab91bea96276d63f8de53e2606ee070''])"

definition KAT_V8_PRIMES :: "nat list" where
  "KAT_V8_PRIMES = [1000003, 1000033, 1000037, 1000039]"

definition KAT_V8_SK :: bytes where
  "KAT_V8_SK =
    [0x4e, 0x1b, 0x30, 0xf2, 0xd4, 0x07, 0xea, 0xce, 0x36, 0xf8, 0x80, 0xa2, 0x34, 0x35, 0x18, 0xf2,
     0x9d, 0x71, 0xb4, 0x9b, 0xbf, 0x07, 0x6d, 0xd7, 0x77, 0x44, 0x63, 0x4a, 0xc0, 0xd3, 0x8f, 0x57]"

definition KAT_V8_MESSAGE :: str where "KAT_V8_MESSAGE = [65]"

definition KAT_V8_AAD :: bytes where "KAT_V8_AAD = []"

definition KAT_V8_EXPECTED_LEN :: nat where "KAT_V8_EXPECTED_LEN = 2928"

definition KAT_V8_EXPECTED_SHA256 :: bytes where
  "KAT_V8_EXPECTED_SHA256 =
    [0xba, 0x1c, 0x3f, 0x66, 0x4c, 0x62, 0xe9, 0x34, 0x56, 0x83, 0x32, 0x74, 0xb5, 0x5f, 0x70, 0x3e,
     0xa8, 0x26, 0xf1, 0x28, 0x24, 0xa3, 0x90, 0x88, 0x5d, 0x8e, 0x7f, 0x1e, 0xb3, 0x99, 0x4c, 0xed]"

text \<open>The module \<open>stream_kat\<close>.\<close>

definition STREAM_KAT_PRIMES :: "nat list" where
  "STREAM_KAT_PRIMES = [1000003, 1000033, 1000037, 1000039]"

definition STREAM_KAT_SK :: bytes where
  "STREAM_KAT_SK =
    [0x3b, 0x49, 0xe3, 0x04, 0x32, 0x9a, 0x9d, 0x92, 0x6c, 0x29, 0x10, 0x78, 0xde, 0x46, 0xbd, 0x4d,
     0xce, 0x30, 0x86, 0xae, 0xe5, 0xac, 0xe7, 0xa6, 0x10, 0x8d, 0x55, 0x2b, 0xbb, 0x4e, 0x4b, 0xef]"

definition STREAM_KAT_NONCE :: bytes where
  "STREAM_KAT_NONCE =
    [0x45, 0xa7, 0xf8, 0xfa, 0xcb, 0xc1, 0x09, 0x2d, 0x59, 0x97, 0x50, 0x2d, 0x05, 0x4a, 0x87, 0xc7]"

definition STREAM_KAT_MESSAGE :: str where "STREAM_KAT_MESSAGE = [65]"

definition STREAM_KAT_FRAME :: nat where "STREAM_KAT_FRAME = 8"

definition STREAM_KAT_EXPECTED_LEN :: nat where "STREAM_KAT_EXPECTED_LEN = 1381"

definition STREAM_KAT_EXPECTED_SHA256 :: bytes where
  "STREAM_KAT_EXPECTED_SHA256 =
    [0xa4, 0xbd, 0x2e, 0xf9, 0x4b, 0xc4, 0xca, 0x24, 0xcd, 0xe4, 0x32, 0xc1, 0x86, 0x8e, 0xc9, 0x80,
     0x83, 0x15, 0xfb, 0xbd, 0xd1, 0xcb, 0xe5, 0x66, 0x73, 0xf5, 0xfc, 0x4b, 0x0f, 0xa2, 0x02, 0xb4]"

text \<open>Key encapsulation.\<close>

definition KAT_FRODO_EXPECTED_KEY :: "nat list" where
  "KAT_FRODO_EXPECTED_KEY =
    [5767087, 9638897, 6364217, 9305771, 14328571, 9326249, 14992633, 4658327, 5481323, 4521743, 1356431, 7343653, 12284017]"

definition KAT_X25519_ALICE_SK :: bytes where
  "KAT_X25519_ALICE_SK =
    [0x77, 0x07, 0x6d, 0x0a, 0x73, 0x18, 0xa5, 0x7d, 0x3c, 0x16, 0xc1, 0x72, 0x51, 0xb2, 0x66, 0x45,
     0xdf, 0x4c, 0x2f, 0x87, 0xeb, 0xc0, 0x99, 0x2a, 0xb1, 0x77, 0xfb, 0xa5, 0x1d, 0xb9, 0x2c, 0x2a]"

definition KAT_X25519_BOB_PK :: bytes where
  "KAT_X25519_BOB_PK =
    [0xde, 0x9e, 0xdb, 0x7d, 0x7b, 0x7d, 0xc1, 0xb4, 0xd3, 0x5b, 0x61, 0xc2, 0xec, 0xe4, 0x35, 0x37,
     0x3f, 0x83, 0x43, 0xc8, 0x5b, 0x78, 0x67, 0x4d, 0xad, 0xfc, 0x7e, 0x14, 0x6f, 0x88, 0x2b, 0x4f]"

definition KAT_X25519_SHARED :: bytes where
  "KAT_X25519_SHARED =
    [0x4a, 0x5d, 0x9d, 0x5b, 0xa4, 0xce, 0x2d, 0xe1, 0x72, 0x8e, 0x3b, 0xf4, 0x80, 0x35, 0x0f, 0x25,
     0xe0, 0x7e, 0x21, 0xc9, 0x47, 0xd1, 0x9e, 0x33, 0x76, 0xf0, 0x9b, 0x3c, 0x1e, 0x16, 0x17, 0x42]"

definition KAT_HYBRID_TRANSCRIPT_HEX :: str where
  "KAT_HYBRID_TRANSCRIPT_HEX = map of_char (concat [
     ''763200000005504b2d50510000000543542d50510000000c'',
     ''504b2d45432d53544154494300000009504b2d45432d455048''])"

definition KAT_HYBRID_EXPECTED_KEY :: "nat list" where
  "KAT_HYBRID_EXPECTED_KEY =
    [2992559, 2913523, 2740301, 1977709, 5330359, 13077137, 6210319, 11896091, 14291593, 8698397, 12129883, 1604143, 10450267]"

definition KAT_KEM_SHARED_SECRET :: bytes where
  "KAT_KEM_SHARED_SECRET =
    [0x00, 0x01, 0x02, 0x03, 0x04, 0x05, 0x06, 0x07, 0x08, 0x09, 0x0a, 0x0b, 0x0c, 0x0d, 0x0e, 0x0f]"

definition KAT_KEM_EXPECTED_KEY :: "nat list" where
  "KAT_KEM_EXPECTED_KEY =
    [9983011, 10152529, 7834763, 10632887, 2925119, 10279739, 14182411, 11926879, 5090131, 7862971, 11050261, 11123929, 3865637]"

section \<open>Environment\<close>

text \<open>
  \<open>sha256\<close> is the digest of the \<open>sha2\<close> crate, \<open>kat_frodo_decap\<close> the included file,
  \<open>frodo_draws\<close> and \<open>hybrid_draws\<close> the randomness of the pairwise tests, \<open>stream_tests\<close>
  the feature \<open>experimental-stream\<close>.
\<close>

record post_env =
  sha256 :: "bytes \<Rightarrow> bytes"
  prims :: kem_prims
  kat_frodo_decap :: bytes
  frodo_draws :: "bytes \<times> bytes"
  hybrid_draws :: "bytes \<times> bytes \<times> bytes \<times> bytes"
  stream_tests :: bool
  attested_version :: "string option"
  fips_integrity :: bool
  current_exe :: "string option"
  file_system :: files

type_synonym self_test = "module_state \<Rightarrow> (unit, self_test_error) res"

section \<open>KAT-1 to KAT-3: v7\<close>

definition expect_that :: "bool \<Rightarrow> self_test_error \<Rightarrow> (unit, self_test_error) res" where
  "expect_that b e = (if b then Ok () else Err e)"

definition flip_last :: "bytes \<Rightarrow> (bytes, self_test_error) res" where
  "flip_last ct = (if ct = [] then Panic else Ok (ct[length ct - 1 := ct ! (length ct - 1) XOR 0xFF]))"

definition kat_encrypt :: "mac \<Rightarrow> self_test" where
  "kat_encrypt H m =
     res_bind (decode_hex KAT_CIPHERTEXT_HEX) (\<lambda>expected.
     res_bind (map_err (\<lambda>_. InternalError []) (encrypt_bytes_with_nonce H KAT_MESSAGE KAT_KEY KAT_NONCE [])) (\<lambda>got.
       expect_that (got = expected) KatEncryptMismatch))"

definition kat_decrypt :: "mac \<Rightarrow> self_test" where
  "kat_decrypt H m =
     res_bind (decode_hex KAT_CIPHERTEXT_HEX) (\<lambda>ciphertext.
       case decrypt_bytes H m ciphertext KAT_KEY [] of
         Ok pt \<Rightarrow> expect_that (pt = KAT_MESSAGE) KatDecryptMismatch
       | Err _ \<Rightarrow> Err KatDecryptMismatch
       | Panic \<Rightarrow> Panic)"

definition kat_tamper_rejection :: "mac \<Rightarrow> self_test" where
  "kat_tamper_rejection H m =
     res_bind (decode_hex KAT_CIPHERTEXT_HEX) (\<lambda>ciphertext.
     res_bind (flip_last ciphertext) (\<lambda>tampered.
       case decrypt_bytes H m tampered KAT_KEY [] of
         Ok _ \<Rightarrow> Err KatTamperNotRejected
       | Err _ \<Rightarrow> Ok ()
       | Panic \<Rightarrow> Panic))"

section \<open>KAT-4 to KAT-7: v8 blocks\<close>

definition kat_v8_ciphertext :: "mac \<Rightarrow> self_test_error \<Rightarrow> module_state \<Rightarrow> (bytes, self_test_error) res" where
  "kat_v8_ciphertext H e m =
     map_err (\<lambda>_. e) (encrypt_bytes_v8 H m KAT_V8_MESSAGE KAT_V8_PRIMES KAT_V8_SK KAT_V8_AAD)"

definition kat_v8_encrypt :: "mac \<Rightarrow> post_env \<Rightarrow> self_test" where
  "kat_v8_encrypt H E m =
     res_bind (kat_v8_ciphertext H KatV8EncryptFailed m) (\<lambda>ct.
       if length ct \<noteq> KAT_V8_EXPECTED_LEN then Err KatV8EncryptFailed
       else expect_that (ct_eq_bytes (sha256 E ct) KAT_V8_EXPECTED_SHA256) KatV8EncryptFailed)"

definition kat_v8_decrypt :: "mac \<Rightarrow> self_test" where
  "kat_v8_decrypt H m =
     res_bind (kat_v8_ciphertext H KatV8DecryptFailed m) (\<lambda>ct.
       case decrypt_bytes_v8 H m ct KAT_V8_PRIMES KAT_V8_SK KAT_V8_AAD of
         Ok pt \<Rightarrow> expect_that (pt = KAT_V8_MESSAGE) KatV8DecryptFailed
       | Err _ \<Rightarrow> Err KatV8DecryptFailed
       | Panic \<Rightarrow> Panic)"

text \<open>The error whose text contains "is not B + 2".\<close>

definition is_structural_error :: "error \<Rightarrow> bool" where
  "is_structural_error e = (case e of TokenError (RealCount _) \<Rightarrow> True | _ \<Rightarrow> False)"

definition kat_v8_structural_reject :: "mac \<Rightarrow> self_test" where
  "kat_v8_structural_reject H m =
     res_bind (kat_v8_ciphertext H KatV8StructuralAccept m) (\<lambda>ct.
       let dropped = TOKEN_WIDTH * (MAX_NOISE_RUN + 1) in
       if length ct < TAG_SIZE + dropped then Panic
       else let forged = take (length ct - TAG_SIZE - dropped) ct in
         res_bind (map_err (\<lambda>_. KatV8StructuralAccept) (retag_block_v8 H forged KAT_V8_SK KAT_V8_AAD)) (\<lambda>tag.
           case decrypt_bytes_v8 H m (forged @ tag) KAT_V8_PRIMES KAT_V8_SK KAT_V8_AAD of
             Err e \<Rightarrow> expect_that (is_structural_error e) KatV8StructuralAccept
           | Ok _ \<Rightarrow> Err KatV8StructuralAccept
           | Panic \<Rightarrow> Panic))"

definition kat_v8_tamper_rejection :: "mac \<Rightarrow> self_test" where
  "kat_v8_tamper_rejection H m =
     res_bind (kat_v8_ciphertext H KatV8TamperNotRejected m) (\<lambda>ct.
     res_bind (flip_last ct) (\<lambda>tampered.
       case decrypt_bytes_v8 H m tampered KAT_V8_PRIMES KAT_V8_SK KAT_V8_AAD of
         Err e \<Rightarrow> expect_that (e = AuthenticationFailed) KatV8TamperNotRejected
       | Ok _ \<Rightarrow> Err KatV8TamperNotRejected
       | Panic \<Rightarrow> Panic))"

section \<open>KAT-8: key encapsulation\<close>

definition expect_key :: "nat list \<Rightarrow> (nat list, error) res \<Rightarrow> (unit, self_test_error) res" where
  "expect_key key r = res_bind (map_err (\<lambda>_. KatKemFailed) r) (\<lambda>got. expect_that (got = key) KatKemFailed)"

definition kat_kem :: "mac \<Rightarrow> post_env \<Rightarrow> self_test" where
  "kat_kem H E m =
     res_bind (expect_key KAT_KEM_EXPECTED_KEY (derive_napqes_key H (prims E) KAT_KEM_SHARED_SECRET)) (\<lambda>_.
     if length (kat_frodo_decap E) < FRODO_SECRET_KEY_SIZE then Panic
     else let sk_frodo = take FRODO_SECRET_KEY_SIZE (kat_frodo_decap E);
              ct_frodo = drop FRODO_SECRET_KEY_SIZE (kat_frodo_decap E)
     in res_bind (expect_key KAT_FRODO_EXPECTED_KEY (decapsulate H (prims E) m ct_frodo sk_frodo)) (\<lambda>_.
     res_bind (expect_that (x25519_dh (prims E) KAT_X25519_ALICE_SK KAT_X25519_BOB_PK = KAT_X25519_SHARED) KatKemFailed) (\<lambda>_.
     res_bind (decode_hex KAT_HYBRID_TRANSCRIPT_HEX) (\<lambda>transcript.
     res_bind (expect_key KAT_HYBRID_EXPECTED_KEY
        (derive_napqes_key_hybrid H (prims E) (replicate 16 0) (map of_nat [1..<33]) transcript)) (\<lambda>_.
     case keygen (prims E) (fst (frodo_draws E)) of (pk, sk) \<Rightarrow>
     res_bind (map_err (\<lambda>_. KatKemFailed) (encapsulate H (prims E) (snd (frodo_draws E)) m pk)) (\<lambda>(ct, key_a).
     res_bind (expect_key key_a (decapsulate H (prims E) m ct sk)) (\<lambda>_.
     case hybrid_draws E of (r1, e1, r2, e2) \<Rightarrow>
     case keygen_hybrid (prims E) r1 e1 of (pk, sk) \<Rightarrow>
     res_bind (map_err (\<lambda>_. KatKemFailed) (encapsulate_hybrid H (prims E) r2 e2 m pk)) (\<lambda>(ct, key_a).
       expect_key key_a (decapsulate_hybrid H (prims E) m ct sk)))))))))"

section \<open>KAT-9 to KAT-11: v8 streams\<close>

definition kat_stream :: "mac \<Rightarrow> post_env \<Rightarrow> self_test" where
  "kat_stream H E m =
     res_bind (map_err (\<lambda>_. KatStreamFailed)
        (encrypt_stream_ae_v8_with_nonce H STREAM_KAT_MESSAGE STREAM_KAT_PRIMES STREAM_KAT_SK STREAM_KAT_NONCE [] STREAM_KAT_FRAME))
       (\<lambda>ct.
       if length ct \<noteq> STREAM_KAT_EXPECTED_LEN \<or> sha256 E ct \<noteq> STREAM_KAT_EXPECTED_SHA256 then Err KatStreamFailed
       else case decrypt_stream_ae_v8 H m ct STREAM_KAT_PRIMES STREAM_KAT_SK [] of
              Panic \<Rightarrow> Panic
            | Err _ \<Rightarrow> Err KatStreamFailed
            | Ok pt \<Rightarrow>
                if pt \<noteq> STREAM_KAT_MESSAGE then Err KatStreamFailed
                else let frame_len = 4 + STREAM_KAT_FRAME * 160 + TAG_SIZE in
                  if length ct < 21 + frame_len then Panic
                  else (case decrypt_stream_ae_v8 H m (take 21 ct @ drop (21 + frame_len) ct) STREAM_KAT_PRIMES STREAM_KAT_SK [] of
                          Panic \<Rightarrow> Panic
                        | Ok _ \<Rightarrow> Err KatStreamFailed
                        | Err _ \<Rightarrow> Ok ()))"

section \<open>The run\<close>

definition self_tests :: "mac \<Rightarrow> post_env \<Rightarrow> self_test list" where
  "self_tests H E =
     [kat_encrypt H, kat_decrypt H, kat_tamper_rejection H,
      kat_v8_encrypt H E, kat_v8_decrypt H, kat_v8_structural_reject H, kat_v8_tamper_rejection H,
      kat_kem H E] @
     (if stream_tests E then [kat_stream H E] else []) @
     [\<lambda>_. build_provenance_check (attested_version E),
      \<lambda>_. software_integrity_check H (fips_integrity E) (current_exe E) (file_system E)]"

section \<open>The demonstration program\<close>

text \<open>\<open>main.rs\<close>: every \<open>expect\<close> and the final assertion panic; the value is the printed plaintext.\<close>

definition demo_message :: str where
  "demo_message = map of_char ''Hello from the Rust port of napqes!''"

definition demo_main :: "mac \<Rightarrow> post_env \<Rightarrow> (nat \<Rightarrow> nat) \<Rightarrow> bytes \<Rightarrow> module_state \<Rightarrow> (str, unit) res" where
  "demo_main H E draw sk_draw m =
     (case run_power_on_self_tests (self_tests H E) m of
        (Ok _, m') \<Rightarrow>
          (case NapqesKey_generate draw sk_draw m' of
             Ok key \<Rightarrow>
               (case encrypt_bytes_v8_key H m' demo_message key [] of
                  Ok ct \<Rightarrow>
                    (case decrypt_bytes_v8_key H m' ct key [] of
                       Ok pt \<Rightarrow> if pt = demo_message then Ok pt else Panic
                     | _ \<Rightarrow> Panic)
                | _ \<Rightarrow> Panic)
           | _ \<Rightarrow> Panic)
      | _ \<Rightarrow> Panic)"

section \<open>Tampering with the last byte\<close>

lemma flip_last_append:
  assumes "tag \<noteq> []"
  obtains tag' where "flip_last (p @ tag) = Ok (p @ tag')" "length tag' = length tag" "tag' \<noteq> tag"
proof -
  obtain ys y where tag: "tag = ys @ [y]" using assms by (cases tag rule: rev_cases) auto
  have "y XOR 0xFF \<noteq> y"
  proof
    assume "y XOR 0xFF = y"
    then have "y XOR (y XOR 0xFF) = y XOR y" by simp
    then show False by (simp add: xor.assoc [symmetric])
  qed
  then show thesis
    by (intro that [of "ys @ [y XOR 0xFF]"]) (simp_all add: tag flip_last_def list_update_append nth_append)
qed

lemma seal_v7_flipped:
  assumes "seal_v7 H msg key nonce aad = Ok ct" "length nonce = 16" "length aad < 2 ^ 32"
  obtains ct' where "flip_last ct = Ok ct'" "open_v7 H ct' key aad = Err AuthenticationFailed"
proof -
  from assms(1) obtain masked tag where ct: "ct = (nonce @ masked) @ tag"
      "compute_auth_tag H (key_bytes key) aad (nonce @ masked) AAD_LEN_WIDTH_V7 = Ok tag"
    by (auto simp: seal_v7_def Let_def)
  have len: "length tag = 32" using ct(2) compute_auth_tag_v7 [of "nonce @ masked" aad H] assms(2,3) by auto
  then have "tag \<noteq> []" by auto
  then obtain tag' where t: "flip_last ct = Ok ((nonce @ masked) @ tag')" "length tag' = length tag" "tag' \<noteq> tag"
    unfolding ct(1) by (rule flip_last_append)
  have "open_v7 H ((nonce @ masked) @ tag') key aad = Err AuthenticationFailed"
    using ct(2) t(2,3) len assms(2,3) by (simp add: open_v7_def check_v7_aad_len_def Let_def)
  with that t(1) show thesis by blast
qed

text \<open>A block that decrypts does not decrypt with any other tag.\<close>

lemma block_other_tag:
  assumes "decrypt_bytes_v8_core H ct primes sk aad = Ok s"
    and "take (length ct - 32) ct' = take (length ct - 32) ct" "length ct' = length ct" "ct' \<noteq> ct"
  shows "decrypt_bytes_v8_core H ct' primes sk aad = Err AuthenticationFailed"
proof (rule ccontr)
  assume neq: "decrypt_bytes_v8_core H ct' primes sk aad \<noteq> Err AuthenticationFailed"
  obtain B where B: "length ct = 48 + 160 * (B + 2)" "drop (length ct - 32) ct =
       hmac_digest H (derive_format_subkey H sk FORMAT_BLOCK_V8) (block_tag_input aad (take (length ct - 32) ct))"
    by (rule decrypt_core_shape [OF assms(1)])
  have "drop (length ct - 32) ct' = drop (length ct - 32) ct"
    using decrypt_core_acceptance [OF neq] B assms(2,3) by simp
  with assms(2) have "ct' = ct" by (metis append_take_drop_id)
  with assms(4) show False ..
qed

lemma block_flipped:
  assumes "decrypt_bytes_v8_core H ct primes sk aad = Ok s"
  obtains ct' where "flip_last ct = Ok ct'" "decrypt_bytes_v8_core H ct' primes sk aad = Err AuthenticationFailed"
proof -
  obtain B where B: "length ct = 48 + 160 * (B + 2)" by (rule decrypt_core_shape [OF assms])
  let ?p = "take (length ct - 32) ct" and ?tag = "drop (length ct - 32) ct"
  have "?tag \<noteq> []" using B by simp
  then obtain tag' where t: "flip_last (?p @ ?tag) = Ok (?p @ tag')" "length tag' = length ?tag" "tag' \<noteq> ?tag"
    by (rule flip_last_append)
  have "?p @ tag' \<noteq> ct" using t(3) by (metis append_take_drop_id same_append_eq)
  then have "decrypt_bytes_v8_core H (?p @ tag') primes sk aad = Err AuthenticationFailed"
    using t(2) B by (intro block_other_tag [OF assms]) auto
  with that t(1) show thesis by simp
qed

text \<open>A re-tagged block with one group of tokens missing passes the tag and fails the count.\<close>

lemma short_block_refused:
  assumes "length p = 16 + 160 * n" "n \<le> 65538" "\<not> is_power_of_two (n - 2)" "2 \<le> n"
  shows "decrypt_bytes_v8_core H (p @ hmac_digest H (derive_format_subkey H sk FORMAT_BLOCK_V8) (block_tag_input aad p))
    primes sk aad = Err (TokenError (RealCount n))"
proof -
  let ?kb = "derive_format_subkey H sk FORMAT_BLOCK_V8"
  let ?ct = "p @ hmac_digest H ?kb (block_tag_input aad p)"
  obtain ks where ks: "varint_keystream H ?kb (take 16 p) (length (drop 16 p)) = Ok ks" "length ks = 160 * n"
    using varint_keystream_Ok [of "length (drop 16 p)" H ?kb "take 16 p"] assms(1,2) by simp
  obtain ts where ts: "fixed_decode_tokens (xor_bytes (drop 16 p) ks) = Ok ts" "length ts = 20 * n"
    using ks(2) assms(1) by (simp add: fixed_decode_tokens_def)
  have "compute_auth_tag H ?kb aad p 8 = Ok (hmac_digest H ?kb (block_tag_input aad p))"
    using assms(1) by (intro compute_block_tag) simp
  then have "decrypt_bytes_v8_core_inner H ?kb ?ct primes aad =
      res_bind (decrypt_core_v8 H (take 16 p) ts primes ?kb) to_text"
    using ks(1) ts(1) by (simp add: decrypt_bytes_v8_core_inner_def Let_def)
  moreover have "decrypt_core_v8 H (take 16 p) ts primes ?kb = Err (TokenError (RealCount n))"
    using ts(2) assms(3) by (simp add: decrypt_core_v8_def Let_def)
  ultimately show ?thesis
    using assms(1) by (simp add: decrypt_bytes_v8_core_def Let_def)
qed

section \<open>The self-tests\<close>

lemma kat_primes_valid: "validate_key KAT_V8_PRIMES = Ok ()" "KAT_KEY = KAT_V8_PRIMES"
proof -
  have sub: "set KAT_V8_PRIMES \<subseteq> set sample_tuple" by (simp add: KAT_V8_PRIMES_def sample_tuple_def)
  have "k < u64_limit" if "k \<in> set KAT_V8_PRIMES" for k
    using that by (auto simp: KAT_V8_PRIMES_def u64_limit_def)
  then have "prime_number k" if "k \<in> set KAT_V8_PRIMES" for k
    using that sub sample_tuple_prime is_prime_iff [of k] by (auto simp: list_all_iff)
  moreover have "MIN_KEY_PRIME \<le> k \<and> k \<le> MAX_KEY_PRIME" if "k \<in> set KAT_V8_PRIMES" for k
    using that by (auto simp: KAT_V8_PRIMES_def key_consts)
  moreover have "KAT_V8_PRIMES \<noteq> []" "length KAT_V8_PRIMES \<le> MAX_KEY_ELEMENTS" "distinct KAT_V8_PRIMES"
    by (simp_all add: KAT_V8_PRIMES_def key_consts)
  ultimately show "validate_key KAT_V8_PRIMES = Ok ()"
    unfolding validate_key_Ok_iff valid_key_def by blast
  show "KAT_KEY = KAT_V8_PRIMES" by (simp add: KAT_KEY_def KAT_V8_PRIMES_def)
qed

lemma v7_kats:
  assumes "kat_encrypt H m = Ok ()" "fips_check m = Ok ()"
  shows "kat_decrypt H m = Ok ()" "kat_tamper_rejection H m = Ok ()"
proof -
  have key: "v7_key KAT_KEY"
    using kat_primes_valid by (intro valid_key_v7) (simp add: validate_key_Ok_iff)
  from assms(1) obtain ct where ct: "decode_hex KAT_CIPHERTEXT_HEX = Ok ct"
      "seal_v7 H KAT_MESSAGE KAT_KEY KAT_NONCE [] = Ok ct"
    by (auto simp: kat_encrypt_def expect_that_def encrypt_bytes_with_nonce_def split: res.splits if_splits)
  have nonce: "length KAT_NONCE = 16" by (simp add: KAT_NONCE_def)
  have "open_v7 H ct KAT_KEY [] = Ok KAT_MESSAGE"
    using seal_open_v7 [OF key _ _ nonce, of KAT_MESSAGE "[]" H] ct(2) by (simp add: KAT_MESSAGE_def is_scalar_def)
  then show "kat_decrypt H m = Ok ()"
    using ct(1) by (simp add: kat_decrypt_def decrypt_bytes_open [OF assms(2)] expect_that_def)
  obtain ct' where "flip_last ct = Ok ct'" "open_v7 H ct' KAT_KEY [] = Err AuthenticationFailed"
    by (rule seal_v7_flipped [OF ct(2) nonce]) simp
  then show "kat_tamper_rejection H m = Ok ()"
    using ct(1) by (simp add: kat_tamper_rejection_def decrypt_bytes_open [OF assms(2)])
qed

lemma kat_v8_block:
  obtains ct where "\<And>m e. fips_check m = Ok () \<Longrightarrow> kat_v8_ciphertext H e m = Ok ct" "length ct = 2928"
    "decrypt_bytes_v8_core H ct KAT_V8_PRIMES KAT_V8_SK KAT_V8_AAD = Ok KAT_V8_MESSAGE"
proof -
  have B: "block_size Bucket (length KAT_V8_MESSAGE) = Ok 16"
    by (simp add: block_size_Bucket KAT_V8_MESSAGE_def bucket_block_size_def bit_length_def bit_len.simps)
  have "safe_key KAT_V8_PRIMES" using kat_primes_valid by (simp add: validate_key_Ok_iff valid_key_safe)
  then obtain ct where "encrypt_bytes_v8_core H KAT_V8_MESSAGE KAT_V8_PRIMES KAT_V8_SK KAT_V8_AAD Bucket = Ok ct"
      "length ct = 48 + 160 * (16 + 2)" "decrypt_bytes_v8_core H ct KAT_V8_PRIMES KAT_V8_SK KAT_V8_AAD = Ok KAT_V8_MESSAGE"
    by (rule block_round_trip_core [OF _ _ _ B]) (simp_all add: KAT_V8_MESSAGE_def is_scalar_def)
  then show thesis
    by (intro that [of ct]) (simp_all add: kat_v8_ciphertext_def encrypt_bytes_v8_def encrypt_bytes_v8_with_profile_def
        kat_primes_valid)
qed

lemma v8_kats:
  assumes "fips_check m = Ok ()"
  shows "kat_v8_decrypt H m = Ok ()" "kat_v8_structural_reject H m = Ok ()" "kat_v8_tamper_rejection H m = Ok ()"
proof -
  obtain ct where ct: "\<And>e. kat_v8_ciphertext H e m = Ok ct" "length ct = 2928"
      "decrypt_bytes_v8_core H ct KAT_V8_PRIMES KAT_V8_SK KAT_V8_AAD = Ok KAT_V8_MESSAGE"
    using assms kat_v8_block [of H] by metis
  note dec = decrypt_bytes_v8_def assms kat_primes_valid
  show "kat_v8_decrypt H m = Ok ()" using ct(1,3) by (simp add: kat_v8_decrypt_def dec expect_that_def)
  obtain ct' where "flip_last ct = Ok ct'"
      "decrypt_bytes_v8_core H ct' KAT_V8_PRIMES KAT_V8_SK KAT_V8_AAD = Err AuthenticationFailed"
    by (rule block_flipped [OF ct(3)])
  then show "kat_v8_tamper_rejection H m = Ok ()"
    using ct(1) by (simp add: kat_v8_tamper_rejection_def dec expect_that_def)
  define p where "p = take 2736 ct"
  have p: "length p = 16 + 160 * 17" using ct(2) by (simp add: p_def)
  have "retag_block_v8 H p KAT_V8_SK KAT_V8_AAD =
      Ok (hmac_digest H (derive_format_subkey H KAT_V8_SK FORMAT_BLOCK_V8) (block_tag_input KAT_V8_AAD p))"
    unfolding retag_block_v8_def using p compute_block_tag [of p] by simp
  moreover have "\<not> is_power_of_two (17 - 2)" by (simp add: is_power_of_two_def bit_len.simps)
  note short_block_refused [OF p _ this, of H KAT_V8_SK KAT_V8_AAD KAT_V8_PRIMES]
  ultimately show "kat_v8_structural_reject H m = Ok ()"
    using ct(1,2) by (simp add: kat_v8_structural_reject_def Let_def dec expect_that_def is_structural_error_def
        flip: p_def)
qed

text \<open>A stream of one chunk, and the same stream without it.\<close>

lemma one_chunk_stream:
  assumes key: "safe_key primes" and c: "is_scalar c" and f: "1 < f" "f \<le> 16384"
  obtains frame where "encrypt_stream_ae_v8_inner H [c] primes kb nonce aad f =
      Ok (stream_v8_header f nonce @ frame @ tagged_sentinel H kb nonce aad f 1 1)" "length frame = 36 + 160 * f"
proof -
  let ?cps = "[c] @ stream_filler H kb nonce 0 (f - 1)"
  have "\<forall>x \<in> set ?cps. is_scalar x" "length ?cps = f" using c f(1) filler_scalar by (auto simp: stream_filler_def)
  then obtain masked where m: "emit_stream_v8_chunk H ?cps 0 primes kb nonce aad
       = Ok (be_bytes 4 (160 * f) @ masked @ hmac_digest H kb (chunk_tag_input f nonce 0 aad masked))"
      "length masked = 160 * f"
    using emit_chunk_Ok [OF key _ _ f(2)] by metis
  show thesis
    by (rule that [of "be_bytes 4 (160 * f) @ masked @ hmac_digest H kb (chunk_tag_input f nonce 0 aad masked)"])
      (use f m in \<open>simp_all add: encrypt_stream_ae_v8_inner_def Let_def add_u64_def u64_limit_def stream_flush_def
         next_stream_chunk_idx_def stream_last_chunk_def stream_sentinel_Ok tagged_sentinel_def\<close>)
qed

lemma truncated_stream_collides:
  assumes "decrypt_stream_ae_v8_inner H (stream_v8_header f nonce @ tagged_sentinel H kb nonce aad f 1 n) primes kb aad = Ok s"
    and "1 \<le> f" "f \<le> 16384" "length nonce = 16"
  shows "hmac_digest H kb (sentinel_tag_input f nonce 0 aad (length s)) = hmac_digest H kb (sentinel_tag_input f nonce 1 aad n)"
proof -
  have "stream_frames H primes kb nonce aad f (tagged_sentinel H kb nonce aad f 1 n) 0 [] None = Ok s"
    using assms by (simp add: decrypt_stream_ae_v8_inner_def stream_v8_header_def Let_def)
  from stream_frames_accept [OF this] obtain ms where ms: "tagged_sentinel H kb nonce aad f 1 n =
      tagged_frames H kb nonce aad f 0 ms @ tagged_sentinel H kb nonce aad f (length ms) (length s)" by auto
  have len: "length (tagged_sentinel H kb nonce aad f i k) = 44" for i k by (simp add: tagged_sentinel_def)
  have "tagged_frames H kb nonce aad f 0 ms = []" using arg_cong [OF ms, of length] by (simp add: len)
  then have "ms = []" by (cases ms) auto
  with ms show ?thesis by (simp add: tagged_sentinel_def)
qed

lemma stream_kats:
  fixes H :: mac
  assumes gate: "fips_check m = Ok ()"
  defines "kb \<equiv> derive_format_subkey H STREAM_KAT_SK FORMAT_STREAM_AE_V8"
  obtains ct where
    "encrypt_stream_ae_v8_with_nonce H STREAM_KAT_MESSAGE STREAM_KAT_PRIMES STREAM_KAT_SK STREAM_KAT_NONCE [] STREAM_KAT_FRAME = Ok ct"
    "sha256 E ct = STREAM_KAT_EXPECTED_SHA256 \<Longrightarrow> kat_stream H E m \<noteq> Ok () \<Longrightarrow>
       \<exists>k. hmac_digest H kb (sentinel_tag_input STREAM_KAT_FRAME STREAM_KAT_NONCE 0 [] k)
         = hmac_digest H kb (sentinel_tag_input STREAM_KAT_FRAME STREAM_KAT_NONCE 1 [] 1)"
proof -
  have p: "STREAM_KAT_PRIMES = KAT_V8_PRIMES" by (simp add: STREAM_KAT_PRIMES_def KAT_V8_PRIMES_def)
  have key: "safe_key STREAM_KAT_PRIMES"
    using kat_primes_valid by (simp add: p validate_key_Ok_iff valid_key_safe)
  have nonce: "length STREAM_KAT_NONCE = 16" by (simp add: STREAM_KAT_NONCE_def)
  have f: "1 < STREAM_KAT_FRAME" "STREAM_KAT_FRAME \<le> 16384" "validate_stream_v8_frame STREAM_KAT_FRAME = Ok ()"
    by (simp_all add: STREAM_KAT_FRAME_def validate_stream_v8_frame_def)
  have c: "is_scalar 65" by (simp add: is_scalar_def)
  obtain frame where frame: "encrypt_stream_ae_v8_inner H STREAM_KAT_MESSAGE STREAM_KAT_PRIMES kb STREAM_KAT_NONCE [] STREAM_KAT_FRAME =
      Ok (stream_v8_header STREAM_KAT_FRAME STREAM_KAT_NONCE @ frame @ tagged_sentinel H kb STREAM_KAT_NONCE [] STREAM_KAT_FRAME 1 1)"
      (is "_ = Ok ?ct") "length frame = 36 + 160 * STREAM_KAT_FRAME"
    unfolding STREAM_KAT_MESSAGE_def by (rule one_chunk_stream [OF key c f(1,2)])
  have "decrypt_stream_ae_v8_inner H ?ct STREAM_KAT_PRIMES kb [] = Ok STREAM_KAT_MESSAGE"
    using stream_round_trip_inner [OF key _ f(2) nonce, of STREAM_KAT_MESSAGE H kb "[]"] f(1) frame(1) c
    by (simp add: STREAM_KAT_MESSAGE_def STREAM_KAT_FRAME_def)
  then have dec: "decrypt_stream_ae_v8 H m ?ct STREAM_KAT_PRIMES STREAM_KAT_SK [] = Ok STREAM_KAT_MESSAGE"
    using gate kat_primes_valid by (simp add: decrypt_stream_ae_v8_def p kb_def)
  have enc: "encrypt_stream_ae_v8_with_nonce H STREAM_KAT_MESSAGE STREAM_KAT_PRIMES STREAM_KAT_SK STREAM_KAT_NONCE [] STREAM_KAT_FRAME = Ok ?ct"
    using frame(1) f(3) kat_primes_valid by (simp add: encrypt_stream_ae_v8_with_nonce_def p kb_def)
  define cut where "cut = stream_v8_header STREAM_KAT_FRAME STREAM_KAT_NONCE @ tagged_sentinel H kb STREAM_KAT_NONCE [] STREAM_KAT_FRAME 1 1"
  have len: "length ?ct = STREAM_KAT_EXPECTED_LEN" "take 21 ?ct @ drop (21 + (4 + STREAM_KAT_FRAME * 160 + TAG_SIZE)) ?ct = cut"
    using nonce frame(2) by (simp_all add: stream_v8_header_def tagged_sentinel_def cut_def STREAM_KAT_EXPECTED_LEN_def STREAM_KAT_FRAME_def)
  have cut: "decrypt_stream_ae_v8 H m cut STREAM_KAT_PRIMES STREAM_KAT_SK [] = decrypt_stream_ae_v8_inner H cut STREAM_KAT_PRIMES kb []"
    using gate kat_primes_valid by (simp add: decrypt_stream_ae_v8_def p kb_def)
  show thesis
  proof (rule that [OF enc])
    assume "sha256 E ?ct = STREAM_KAT_EXPECTED_SHA256" "kat_stream H E m \<noteq> Ok ()"
    then obtain s where "decrypt_stream_ae_v8_inner H cut STREAM_KAT_PRIMES kb [] = Ok s"
      using decrypt_stream_inner_not_Panic [OF key, of H cut kb "[]"] len dec
      unfolding kat_stream_def Let_def enc by (cases "decrypt_stream_ae_v8_inner H cut STREAM_KAT_PRIMES kb []")
        (auto simp: cut STREAM_KAT_EXPECTED_LEN_def STREAM_KAT_FRAME_def)
    from truncated_stream_collides [OF this [unfolded cut_def]] f nonce
    show "\<exists>k. hmac_digest H kb (sentinel_tag_input STREAM_KAT_FRAME STREAM_KAT_NONCE 0 [] k)
         = hmac_digest H kb (sentinel_tag_input STREAM_KAT_FRAME STREAM_KAT_NONCE 1 [] 1)" by auto
  qed
qed

lemma run_kats_Ok_iff: "run_kats kats m = Ok () \<longleftrightarrow> list_all (\<lambda>kat. kat m = Ok ()) kats"
  by (induction kats) auto

text \<open>The tests that compare with something outside the module: vectors, versions, files.\<close>

definition known_answer_tests :: "mac \<Rightarrow> post_env \<Rightarrow> self_test list" where
  "known_answer_tests H E =
     [kat_encrypt H, kat_v8_encrypt H E, kat_kem H E] @
     (if stream_tests E then [kat_stream H E] else []) @
     [\<lambda>_. build_provenance_check (attested_version E),
      \<lambda>_. software_integrity_check H (fips_integrity E) (current_exe E) (file_system E)]"

lemma self_tests_known_answers:
  assumes "fips_check m = Ok ()"
  shows "run_kats (self_tests H E) m = Ok () \<longleftrightarrow> run_kats (known_answer_tests H E) m = Ok ()"
  using v8_kats [OF assms] v7_kats [OF _ assms]
  by (auto simp: run_kats_Ok_iff self_tests_def known_answer_tests_def)

section \<open>Properties\<close>

text \<open>
  C30: what the power-on self-tests can detect. The latch is set exactly when the module had not
  failed before and the comparisons with outside values succeed: the v7 ciphertext, the digests of
  the v8 block and stream, the key-encapsulation vectors, the attested version and the image's
  reference value. KAT-2, 3, 5, 6 and 7 (decryption, tampered tags, the missing token group) then
  pass for every keyed hash: the self-tests never fail because of them alone.
\<close>

theorem post_passes_iff_known_answers:
  "post (snd (run_power_on_self_tests (self_tests H E) m)) = POST_PASSED \<longleftrightarrow>
     post m \<noteq> POST_FAILED \<and>
     run_kats
       ([kat_encrypt H, kat_v8_encrypt H E, kat_kem H E] @
        (if stream_tests E then [kat_stream H E] else []) @
        [\<lambda>_. build_provenance_check (attested_version E),
         \<lambda>_. software_integrity_check H (fips_integrity E) (current_exe E) (file_system E)])
       (m\<lparr>post := POST_RUNNING, in_post := True\<rparr>) = Ok ()"
proof -
  let ?run = "m\<lparr>post := POST_RUNNING, in_post := True\<rparr>"
  have "fips_check ?run = Ok ()" by (simp add: fips_check_Ok_iff)
  note iff = self_tests_known_answers [OF this, of H E, unfolded known_answer_tests_def]
  show ?thesis
  proof (cases "post m = POST_FAILED")
    case False
    then have "post (snd (run_power_on_self_tests (self_tests H E) m)) = POST_PASSED \<longleftrightarrow>
        run_kats (self_tests H E) ?run = Ok ()"
      by (auto simp: run_power_on_self_tests_def Let_def split: res.split)
    with iff False show ?thesis by simp
  qed (simp add: run_power_on_self_tests_def)
qed

text \<open>
  The demonstration program prints its message back unless the self-tests or the key generation
  fail; none of its other panics can occur.
\<close>

lemma demo_main_outcome:
  "demo_main H E draw sk_draw m =
     (case run_power_on_self_tests (self_tests H E) m of
        (r, m') \<Rightarrow> if is_ok r \<and> is_ok (NapqesKey_generate draw sk_draw m') then Ok demo_message else Panic)"
proof -
  obtain r m' where r: "run_power_on_self_tests (self_tests H E) m = (r, m')" by fastforce
  show ?thesis
  proof (cases "\<exists>u key. r = Ok u \<and> NapqesKey_generate draw sk_draw m' = Ok key")
    case True
    then obtain key where ok: "r = Ok ()" and key: "NapqesKey_generate draw sk_draw m' = Ok key" by auto
    have "fips_check m' = Ok ()"
      using run_power_on_self_tests_outcome(1) [OF r] ok by (simp add: fips_check_Ok_iff)
    moreover have "usable_key key" using key by (auto simp: NapqesKey_generate_def dest: NapqesKey_new_Ok)
    moreover have "text_message demo_message"
      by (simp add: text_message_def demo_message_def is_scalar_def)
    ultimately obtain ct where "encrypt_bytes_v8_key H m' demo_message key [] = Ok ct"
        "decrypt_bytes_v8_key H m' ct key [] = Ok demo_message"
      using key_round_trip by blast
    then show ?thesis using r ok key by (simp add: demo_main_def)
  next
    case False
    then show ?thesis
      using r by (cases r; cases "NapqesKey_generate draw sk_draw m'") (auto simp: demo_main_def)
  qed
qed

end
