(* ===== verification/Sts.thy ===== *)
theory Sts
  imports StsTests SelfTests
begin

text \<open>
  The reports and the \<open>main\<close> of \<open>rust/src/bin/sts.rs\<close>: the text on standard output, the JSON
  report, the command line and the exit code. The file system and the clock are parameters.
  Text outside ASCII is its UTF-8 bytes.
\<close>

section \<open>Formatting\<close>

definition pad_left :: "nat \<Rightarrow> string \<Rightarrow> string" where
  "pad_left w s = replicate (w - length s) CHR '' '' @ s"

definition pad_right :: "nat \<Rightarrow> string \<Rightarrow> string" where
  "pad_right w s = s @ replicate (w - length s) CHR '' ''"

definition newline :: string where
  "newline = [CHR 0x0A]"

definition quoted :: "string \<Rightarrow> string" where
  "quoted s = [CHR 0x22] @ s @ [CHR 0x22]"

definition fmt_bool :: "bool \<Rightarrow> string" where
  "fmt_bool b = (if b then ''true'' else ''false'')"

text \<open>\<open>s.replace('"', "\\\"")\<close>\<close>

definition escape_quotes :: "string \<Rightarrow> string" where
  "escape_quotes s = concat (map (\<lambda>c. if c = CHR 0x22 then [CHR 0x5C, CHR 0x22] else [c]) s)"

definition count_status :: "status \<Rightarrow> 'f tr list \<Rightarrow> nat" where
  "count_status st results = length (filter (\<lambda>r. tr_status r = st) results)"

section \<open>JSON report\<close>

definition json_field :: "string \<Rightarrow> string \<Rightarrow> string" where
  "json_field k v = quoted k @ '': '' @ v"

definition json_test :: "'f farith \<Rightarrow> 'f tr \<Rightarrow> string" where
  "json_test A t =
     ''    {'' @ json_field ''name'' (quoted (escape_quotes (tr_name t))) @ '', '' @
     json_field ''passed'' (fmt_bool (tr_status t = Pass)) @ '', '' @
     json_field ''skipped'' (fmt_bool (tr_status t = Skip)) @ '', '' @
     json_field ''p_value'' (if f_is_nan A (tr_p_value t) then ''null'' else f_fmt A 8 (tr_p_value t)) @ '', '' @
     json_field ''note'' (quoted (escape_quotes (tr_note t))) @ ''}''"

fun json_tests :: "'f farith \<Rightarrow> 'f tr list \<Rightarrow> string" where
  "json_tests A [] = []"
| "json_tests A [t] = json_test A t @ newline"
| "json_tests A (t # u # ts) = json_test A t @ '','' @ newline @ json_tests A (u # ts)"

definition json_report :: "'f farith \<Rightarrow> 'f tr list \<Rightarrow> nat \<Rightarrow> nat \<Rightarrow> string" where
  "json_report A results bits elapsed_ms =
     ''{'' @ newline @
     ''  '' @ json_field ''spec'' (quoted ''NIST SP 800-22 Rev 1a'') @ '','' @ newline @
     ''  '' @ json_field ''napseq_version'' (quoted ''v8'') @ '','' @ newline @
     ''  '' @ json_field ''bits_tested'' (dec_string bits) @ '','' @ newline @
     ''  '' @ json_field ''elapsed_ms'' (dec_string elapsed_ms) @ '','' @ newline @
     ''  '' @ json_field ''summary'' ''{'' @ newline @
     ''    '' @ json_field ''total'' (dec_string (length results)) @ '','' @ newline @
     ''    '' @ json_field ''passed'' (dec_string (count_status Pass results)) @ '','' @ newline @
     ''    '' @ json_field ''failed'' (dec_string (count_status Fail results)) @ '','' @ newline @
     ''    '' @ json_field ''skipped'' (dec_string (count_status Skip results)) @ newline @
     ''  },'' @ newline @
     ''  '' @ json_field ''tests'' ''['' @ newline @
     json_tests A results @
     ''  ]'' @ newline @ ''}'' @ newline"

section \<open>Text report\<close>

definition LINE :: string where
  "LINE = concat (replicate 68 [CHR 0xE2, CHR 0x94, CHR 0x80])"

definition report_line :: "'f farith \<Rightarrow> 'f tr \<Rightarrow> string" where
  "report_line A t =
     (case (case tr_status t of
              Pass \<Rightarrow> (''PASS'', ''p='' @ f_fmt A 6 (tr_p_value t))
            | Fail \<Rightarrow> (''FAIL'', ''p='' @ f_fmt A 6 (tr_p_value t))
            | Skip \<Rightarrow> (''SKIP'', ''p=n/a''))
      of (tag, pv_str) \<Rightarrow>
        let note = (if tr_note t = [] then [] else ''  '' @ tr_note t)
        in ''  ['' @ tag @ '']  '' @ pad_right 50 (tr_name t) @ ''  '' @ pv_str @ note @ newline)"

definition tally :: "'f tr \<Rightarrow> nat \<times> nat \<times> nat \<Rightarrow> nat \<times> nat \<times> nat" where
  "tally t st =
     (case st of (passed, failed, skipped) \<Rightarrow>
        case tr_status t of
          Pass \<Rightarrow> (passed + 1, failed, skipped)
        | Fail \<Rightarrow> (passed, failed + 1, skipped)
        | Skip \<Rightarrow> (passed, failed, skipped + 1))"

definition print_report :: "'f farith \<Rightarrow> 'f tr list \<Rightarrow> nat \<Rightarrow> nat \<Rightarrow> string" where
  "print_report A results bits elapsed_ms =
     (case fold tally results (0, 0, 0) of (passed, failed, skipped) \<Rightarrow>
        newline @ LINE @ newline @
        ''NIST SP 800-22 Rev 1a '' @ [CHR 0xE2, CHR 0x80, CHR 0x94] @
          '' NAPQES v8 Bitstream Analysis (Rust)'' @ newline @
        ''  Bits tested : '' @ pad_left 13 (dec_string bits) @ newline @
        ''  Elapsed     : '' @ pad_left 10 (dec_string elapsed_ms) @ '' ms'' @ newline @
        LINE @ newline @
        concat (map (report_line A) results) @
        LINE @ newline @
        ''  '' @ dec_string passed @ ''/'' @ dec_string (passed + failed) @ '' scored tests passed'' @
        (if 0 < skipped then ''  |  '' @ dec_string skipped @ '' skipped (ineligible)'' else []) @
        (if 0 < failed then ''  |  '' @ dec_string failed @ '' FAILED'' else []) @
        newline @ LINE @ newline @ newline)"

section \<open>Main\<close>

text \<open>\<open>args.windows(2).find(|w| w[0] == flag)\<close>, then the second string of the pair\<close>

fun arg_after :: "string \<Rightarrow> string list \<Rightarrow> string option" where
  "arg_after flag (a # b # rest) = (if a = flag then Some b else arg_after flag (b # rest))"
| "arg_after flag _ = None"

definition requested_bits :: "string list \<Rightarrow> nat" where
  "requested_bits args =
     (case Option.bind (arg_after ''--bits'' args) (\<lambda>w. from_str_radix 10 (2 ^ 64) (map of_char w)) of
        Some n \<Rightarrow> n
      | None \<Rightarrow> 10000000)"

record sts_outcome =
  out_stdout :: string
  out_stderr :: string
  out_json :: "(string \<times> string) option"
  out_exit :: nat

text \<open>
  The run after the self-tests. \<open>write path text\<close> is \<open>None\<close> when the file is written and the
  error message otherwise; \<open>out_json\<close> is the report that was written.
\<close>

definition sts_run ::
  "'f farith \<Rightarrow> mac \<Rightarrow> (string \<Rightarrow> string \<Rightarrow> string option) \<Rightarrow> nat \<Rightarrow> string list \<Rightarrow> module_state
     \<Rightarrow> sts_outcome job" where
  "sts_run A H write elapsed args m =
     (let n = requested_bits args;
          out_path = arg_after ''--out'' args;
          dots = [CHR 0xE2, CHR 0x80, CHR 0xA6];
          err0 = ''[STS] Generating '' @ dec_string n @ '' NAPQES v8 bits'' @ dots @ newline
      in job_bind (Some (generate_bits H m n)) (\<lambda>bits.
         let err1 = err0 @ ''[STS] Running 15 SP 800-22 tests'' @ dots @ newline
         in job_bind (run_tests A bits) (\<lambda>results.
            let out = print_report A results n elapsed;
                any_fail = (\<exists>r \<in> set results. tr_status r = Fail);
                code = (if any_fail then 1 else 0)
            in case out_path of
                 None \<Rightarrow> Some (Ok \<lparr>out_stdout = out, out_stderr = err1, out_json = None, out_exit = code\<rparr>)
               | Some path \<Rightarrow>
                   let s = json_report A results n elapsed
                   in case write path s of
                        None \<Rightarrow>
                          Some (Ok \<lparr>out_stdout = out,
                            out_stderr = err1 @ ''JSON report written to '' @ path @ newline,
                            out_json = Some (path, s), out_exit = code\<rparr>)
                      | Some e \<Rightarrow>
                          Some (Ok \<lparr>out_stdout = out,
                            out_stderr = err1 @ ''ERROR: could not write '' @ path @ '': '' @ e @ newline,
                            out_json = None, out_exit = code\<rparr>))))"

definition sts_main ::
  "'f farith \<Rightarrow> mac \<Rightarrow> post_env \<Rightarrow> (string \<Rightarrow> string \<Rightarrow> string option) \<Rightarrow> nat \<Rightarrow> string list \<Rightarrow> module_state
     \<Rightarrow> sts_outcome job" where
  "sts_main A H E write elapsed args m =
     (case run_power_on_self_tests (self_tests H E) m of
        (Ok _, m') \<Rightarrow> sts_run A H write elapsed args m'
      | _ \<Rightarrow> Some Panic)"

section \<open>The reports agree\<close>

lemma fold_tally:
  "fold tally results (p, f, s) =
     (p + count_status Pass results, f + count_status Fail results, s + count_status Skip results)"
  by (induction results arbitrary: p f s) (auto simp: tally_def count_status_def split: status.splits)

lemma count_status_total:
  "count_status Pass results + count_status Fail results + count_status Skip results = length results"
proof (induction results)
  case (Cons r rs)
  then show ?case by (cases "tr_status r") (simp_all add: count_status_def)
qed (simp add: count_status_def)

lemma any_fail_count: "(\<exists>r \<in> set results. tr_status r = Fail) \<longleftrightarrow> 0 < count_status Fail results"
  by (induction results) (auto simp: count_status_def)

lemma sts_run_results:
  assumes "generate_bits H m (requested_bits args) = Ok bits" "run_tests A bits = Some (Ok rs)"
  shows "\<exists>out. sts_run A H write elapsed args m = Some (Ok out) \<and>
    out_stdout out = print_report A rs (requested_bits args) elapsed \<and>
    out_exit out = (if 0 < count_status Fail rs then 1 else 0)"
  unfolding sts_run_def Let_def assms(1) job_bind.simps assms(2) any_fail_count
  by (simp split: option.split)

text \<open>The exit code is zero exactly when every scored result has a p-value of at least 0.01.\<close>

definition all_pass :: "'f farith \<Rightarrow> (string \<times> bool) list \<Rightarrow> 'f tr list \<Rightarrow> bool" where
  "all_pass A es rs = list_all2 (\<lambda>e t. snd e \<longrightarrow> f_le A (f_dec A 1 2) (tr_p_value t)) es rs"

lemma reported_fail:
  "reported A e t \<Longrightarrow> tr_status t = Fail \<longleftrightarrow> snd e \<and> \<not> f_le A (f_dec A 1 2) (tr_p_value t)"
  by (auto simp: reported_def scored_def Tr_skip_def split: if_splits)

lemma all_pass_iff: "list_all2 (reported A) es rs \<Longrightarrow> all_pass A es rs \<longleftrightarrow> count_status Fail rs = 0"
proof (induction rule: list_all2_induct)
  case (Cons e es t ts)
  then show ?case using reported_fail [OF Cons(1)] by (auto simp: all_pass_def count_status_def)
qed (simp add: all_pass_def count_status_def)

section \<open>Properties\<close>

text \<open>
  C23: the suite reports. On an operational module and for fewer than \<open>2^32\<close> requested bits, whatever
  the library's transcendental functions answer, the program runs all fifteen tests on its own
  bit stream without a panic or an endless recursion and prints their results, exactly when at
  least ten bits are requested; with fewer, the pattern tests index past the end and it panics.
  The results are those of the listed tests in order, the excursion tests skipped below 500
  cycles. The exit code is zero if and only if every scored p-value is at least 0.01 (a NaN is not),
  and the passed, failed and skipped results of the report add up to all.
\<close>

theorem sts_run_reports:
  assumes "fips_check m = Ok ()" and "requested_bits args < 2 ^ 32"
  shows "if 10 \<le> requested_bits args
    then \<exists>bits rs out.
      generate_bits H m (requested_bits args) = Ok bits \<and> length bits = requested_bits args \<and>
      list_all2 (reported (b64_arith lm)) (suite_names (snd (build_walk bits))) rs \<and>
      sts_run (b64_arith lm) H write elapsed args m = Some (Ok out) \<and>
      out_stdout out = print_report (b64_arith lm) rs (requested_bits args) elapsed \<and>
      out_exit out = (if all_pass (b64_arith lm) (suite_names (snd (build_walk bits))) rs then 0 else 1) \<and>
      fold tally rs (0, 0, 0) = (count_status Pass rs, count_status Fail rs, count_status Skip rs) \<and>
      count_status Pass rs + count_status Fail rs + count_status Skip rs = length rs
    else sts_run (b64_arith lm) H write elapsed args m = Some Panic"
proof -
  let ?n = "requested_bits args" and ?A = "b64_arith lm"
  have "?n < 2 ^ 63" using assms(2) by simp
  from generate_bits_Ok [OF assms(1) this] obtain bits where
    bits: "generate_bits H m ?n = Ok bits" "length bits = ?n" "list_all is_bit bits" by blast
  show ?thesis
  proof (cases "10 \<le> ?n")
    case True
    with bits assms(2) obtain rs where
      rs: "run_tests ?A bits = Some (Ok rs)" "list_all2 (reported ?A) (suite_names (snd (build_walk bits))) rs"
      using b64.run_tests_long [of bits lm] by auto
    from sts_run_results [OF bits(1) rs(1)] True bits(1,2) rs(2) all_pass_iff [OF rs(2)] count_status_total [of rs]
    show ?thesis by (auto simp: fold_tally)
  next
    case False
    then have "run_tests ?A bits = Some Panic" using b64.run_tests_short [OF bits(3)] bits(2) by simp
    with False show ?thesis unfolding sts_run_def Let_def bits(1) job_bind.simps by simp
  qed
qed

theorem sts_run_reports_witness:
  "(\<exists>out. sts_run (b64_arith \<lparr>lm_sin = id, lm_cos = id, lm_exp = id, lm_ln = id, lm_log2 = id,
      lm_powi = (\<lambda>x _. x), lm_powf = (\<lambda>x _. x)\<rparr>) (\<lambda>_ _. 0) (\<lambda>_ _. None) 0 [''sts''] open_module = Some (Ok out)) \<and>
   sts_run (b64_arith \<lparr>lm_sin = id, lm_cos = id, lm_exp = id, lm_ln = id, lm_log2 = id,
      lm_powi = (\<lambda>x _. x), lm_powf = (\<lambda>x _. x)\<rparr>) (\<lambda>_ _. 0) (\<lambda>_ _. None) 0 [''sts'', ''--bits'', ''9''] open_module = Some Panic"
proof -
  have n: "requested_bits [''sts''] = 10000000" "requested_bits [''sts'', ''--bits'', ''9''] = 9"
    by (simp_all add: requested_bits_def from_str_radix_def digit_val_def)
  let ?lm = "\<lparr>lm_sin = id, lm_cos = id, lm_exp = id, lm_ln = id, lm_log2 = id,
      lm_powi = (\<lambda>x _. x), lm_powf = (\<lambda>x _. x)\<rparr>"
  from sts_run_reports [OF fips_check_open_module, of "[''sts'']" "\<lambda>_ _. 0" ?lm "\<lambda>_ _. None" 0]
    sts_run_reports [OF fips_check_open_module, of "[''sts'', ''--bits'', ''9'']" "\<lambda>_ _. 0" ?lm "\<lambda>_ _. None" 0]
  show ?thesis unfolding n by auto
qed

end
