(* ===== verification/Harness.thy ===== *)
theory Harness
  imports FuzzTargets Sts StreamCorrect
begin

text \<open>
  The example programs of the crate: the timing harness \<open>rust/examples/dudect_harness.rs\<close> and the
  throughput harness \<open>rust/examples/file_bench.rs\<close>. What they time is not modelled; what they run
  is: the inputs of the two classes, the results of the measured calls, and every \<open>expect\<close> and
  assertion as a panic.
\<close>

section \<open>Timing harness\<close>

datatype timing_class = LeftClass | RightClass

definition flip_byte :: "bytes \<Rightarrow> nat \<Rightarrow> (bytes, error) res" where
  "flip_byte xs i = modify_res xs i (\<lambda>b. b XOR 0xFF)"

text \<open>
  \<open>a.len() == b.len() && a.iter().zip(b).all(|(x, y)| x == y)\<close>, with the number of pairs the
  iterator looks at before it stops
\<close>

fun all_equal :: "(byte \<times> byte) list \<Rightarrow> bool \<times> nat" where
  "all_equal [] = (True, 0)"
| "all_equal ((x, y) # ps) = (if x = y then (case all_equal ps of (r, n) \<Rightarrow> (r, Suc n)) else (False, 1))"

definition early_exit_eq :: "bytes \<Rightarrow> bytes \<Rightarrow> bool \<times> nat" where
  "early_exit_eq a b = (if length a = length b then all_equal (zip a b) else (False, 0))"

text \<open>
  Both comparator benches: \<open>coin\<close> is \<open>rng.gen::<bool>()\<close>, the result the class with the
  answers of the \<open>CT_EQ_REPS\<close> calls.
\<close>

definition comparator_bench :: "(bytes \<Rightarrow> bytes \<Rightarrow> 'r) \<Rightarrow> bool \<Rightarrow> (timing_class \<times> 'r list, error) res" where
  "comparator_bench eq coin =
     (let reference = replicate TAG_SIZE 0xA5
      in if coin
         then res_bind (flip_byte reference 0) (\<lambda>candidate. Ok (LeftClass, replicate 100 (eq reference candidate)))
         else res_bind (flip_byte reference (TAG_SIZE - 1)) (\<lambda>candidate.
                Ok (RightClass, replicate 100 (eq reference candidate))))"

definition bench_ct_eq_bytes :: "bool \<Rightarrow> (timing_class \<times> bool list, error) res" where
  "bench_ct_eq_bytes = comparator_bench ct_bench_eq"

definition bench_positive_control_early_exit :: "bool \<Rightarrow> (timing_class \<times> (bool \<times> nat) list, error) res" where
  "bench_positive_control_early_exit = comparator_bench early_exit_eq"

definition dudect_primes :: "nat list" where
  "dudect_primes = [1000003, 1000033, 1000037, 1000039]"

definition fixed_key :: "mac \<Rightarrow> post_env \<Rightarrow> module_state \<Rightarrow> (NapqesKey \<times> module_state, error) res" where
  "fixed_key H E m =
     (case run_power_on_self_tests (self_tests H E) m of
        (Ok _, m') \<Rightarrow>
          (case NapqesKey_new dudect_primes (replicate 32 0x5A) of
             Ok key \<Rightarrow> Ok (key, m')
           | _ \<Rightarrow> Panic)
      | _ \<Rightarrow> Panic)"

definition dudect_message :: str where
  "dudect_message = map of_char ''napqes v8 dudect constant-time timing harness (CVF-26 retarget)''"

definition base_ct :: "mac \<Rightarrow> module_state \<Rightarrow> NapqesKey \<Rightarrow> (bytes, error) res" where
  "base_ct H m key =
     (case encrypt_bytes_v8_key H m dudect_message key [] of Ok ct \<Rightarrow> Ok ct | _ \<Rightarrow> Panic)"

text \<open>One sample: the class and what the measured decryption returns.\<close>

definition bench_tag_comparison ::
    "mac \<Rightarrow> module_state \<Rightarrow> NapqesKey \<Rightarrow> bytes \<Rightarrow> bool \<Rightarrow> (timing_class \<times> (str, error) res, error) res" where
  "bench_tag_comparison H m key base coin =
     (let n = length base
      in if coin
         then res_bind (sub_usize n TAG_SIZE) (\<lambda>i. res_bind (flip_byte base i) (\<lambda>ct.
                Ok (LeftClass, decrypt_bytes_v8_key H m ct key [])))
         else res_bind (sub_usize n 1) (\<lambda>i. res_bind (flip_byte base i) (\<lambda>ct.
                Ok (RightClass, decrypt_bytes_v8_key H m ct key []))))"

section \<open>Throughput harness\<close>

definition bench_arg :: "string list \<Rightarrow> string \<Rightarrow> nat \<Rightarrow> nat" where
  "bench_arg args flag dflt =
     (case dropWhile (\<lambda>a. a \<noteq> flag) args of
        _ # v # _ \<Rightarrow> (case from_str_radix 10 (2 ^ 64) (map of_char v) of Some n \<Rightarrow> n | None \<Rightarrow> dflt)
      | _ \<Rightarrow> dflt)"

text \<open>One byte of the generator, one codepoint; \<open>raw\<close> is what \<open>fill_bytes\<close> wrote.\<close>

definition random_text :: "bytes \<Rightarrow> str" where
  "random_text raw = map unat raw"

text \<open>The module state, the number of nonces drawn so far and \<open>ct_bytes\<close>.\<close>

record bench_state =
  bs_module :: module_state
  bs_draws :: nat
  bs_bytes :: nat

text \<open>The closure \<open>enc\<close>; \<open>nonces i\<close> is draw \<open>i\<close> of the system generator.\<close>

definition bench_enc ::
    "mac \<Rightarrow> (nat \<Rightarrow> bytes) \<Rightarrow> nat list \<Rightarrow> bytes \<Rightarrow> nat \<Rightarrow> str \<Rightarrow> bench_state \<Rightarrow> (bytes \<times> bench_state, error) res" where
  "bench_enc H nonces primes sk frame p st =
     (case encrypt_stream_ae_v8 H (nonces (bs_draws st)) (bs_module st) p primes sk [] frame of
        (Ok ct, m') \<Rightarrow> Ok (ct, st\<lparr>bs_module := m', bs_draws := Suc (bs_draws st)\<rparr>)
      | _ \<Rightarrow> Panic)"

definition bench_count :: "nat \<Rightarrow> bench_state \<Rightarrow> (bench_state, error) res" where
  "bench_count n st = res_bind (add_u64 (bs_bytes st) n) (\<lambda>t. Ok (st\<lparr>bs_bytes := t\<rparr>))"

text \<open>The closure \<open>run\<close>.\<close>

definition bench_run ::
    "mac \<Rightarrow> (nat \<Rightarrow> bytes) \<Rightarrow> nat list \<Rightarrow> bytes \<Rightarrow> nat \<Rightarrow> string \<Rightarrow> str \<Rightarrow> bytes \<Rightarrow> bench_state
       \<Rightarrow> (bench_state, error) res" where
  "bench_run H nonces primes sk frame op p c st =
     (if op = ''enc'' then res_bind (bench_enc H nonces primes sk frame p st) (\<lambda>(ct, st). bench_count (length ct) st)
      else case decrypt_stream_ae_v8 H (bs_module st) c primes sk [] of
             Ok pt \<Rightarrow> if length pt = length p then bench_count (length c) st else Panic
           | _ \<Rightarrow> Panic)"

definition done_line :: "nat \<Rightarrow> nat \<Rightarrow> string \<Rightarrow> string" where
  "done_line file_size ct_bytes wall =
     ''DONE {'' @ quoted ''plaintext_bytes'' @ '':'' @ dec_string file_size @ '','' @
     quoted ''ciphertext_bytes'' @ '':'' @ dec_string ct_bytes @ '','' @
     quoted ''wall_s'' @ '':'' @ wall @ '','' @
     quoted ''max_noise_run'' @ '':'' @ dec_string MAX_NOISE_RUN @ ''}''"

text \<open>One block of the timed loop; \<open>due i\<close> tells whether half a second has passed at block \<open>i\<close>.\<close>

definition progress_line :: "nat \<Rightarrow> nat \<Rightarrow> string" where
  "progress_line chunk i = ''PROGRESS '' @ dec_string ((i + 1) * chunk)"

definition bench_block ::
    "mac \<Rightarrow> (nat \<Rightarrow> bytes) \<Rightarrow> nat list \<Rightarrow> bytes \<Rightarrow> nat \<Rightarrow> string \<Rightarrow> str \<Rightarrow> bytes \<Rightarrow> (nat \<Rightarrow> bool) \<Rightarrow> nat \<Rightarrow> nat
       \<Rightarrow> bench_state \<times> string list \<Rightarrow> (bench_state \<times> string list, error) res" where
  "bench_block H nonces primes sk frame op p c due chunk i acc =
     res_bind (bench_run H nonces primes sk frame op p c (fst acc)) (\<lambda>st.
       Ok (st, if due i then snd acc @ [progress_line chunk i] else snd acc))"

text \<open>
  The work after key generation. \<open>fill k n\<close> are the \<open>n\<close> bytes of the \<open>k\<close>-th call of
  \<open>fill_bytes\<close>, \<open>wall\<close> the printed time.
\<close>

definition bench_work ::
    "mac \<Rightarrow> (nat \<Rightarrow> bytes) \<Rightarrow> (nat \<Rightarrow> nat \<Rightarrow> bytes) \<Rightarrow> (nat \<Rightarrow> bool) \<Rightarrow> string \<Rightarrow> string \<Rightarrow> nat \<Rightarrow> nat \<Rightarrow> nat
       \<Rightarrow> nat list \<Rightarrow> bytes \<Rightarrow> module_state \<Rightarrow> (string list, error) res" where
  "bench_work H nonces fill due wall op file_size chunk frame primes sk m =
     (let n_full = file_size div chunk;
          tail_len = file_size mod chunk;
          plain = random_text (fill 0 chunk);
          tail = random_text (fill 1 tail_len);
          st = \<lparr>bs_module = m, bs_draws = 0, bs_bytes = 0\<rparr>
      in res_bind
           (if op = ''dec''
            then res_bind (bench_enc H nonces primes sk frame plain st) (\<lambda>(ct, st).
                 res_bind (bench_enc H nonces primes sk frame tail st) (\<lambda>(tail_ct, st). Ok (ct, tail_ct, st)))
            else Ok ([], [], st)) (\<lambda>(ct, tail_ct, st).
         res_bind
           (fold_res (bench_block H nonces primes sk frame op plain ct due chunk) [0..<n_full] (st, [''READY''])) (\<lambda>(st, out).
         res_bind (if 0 < tail_len then bench_run H nonces primes sk frame op tail tail_ct st else Ok st) (\<lambda>st.
           Ok (out @ [done_line file_size (bs_bytes st) wall])))))"

definition clamp_chunk :: "nat \<Rightarrow> nat \<Rightarrow> nat" where
  "clamp_chunk chunk file_size = min (max chunk 1) (max file_size 1)"

text \<open>The lines on standard output with the exit code.\<close>

definition file_bench_main ::
    "mac \<Rightarrow> post_env \<Rightarrow> (nat \<Rightarrow> nat) \<Rightarrow> bytes \<Rightarrow> (nat \<Rightarrow> bytes) \<Rightarrow> (nat \<Rightarrow> nat \<Rightarrow> bytes) \<Rightarrow> (nat \<Rightarrow> bool) \<Rightarrow> string
       \<Rightarrow> string list \<Rightarrow> module_state \<Rightarrow> (string list \<times> nat, error) res" where
  "file_bench_main H E draw sk_draw nonces fill due wall args m =
     (let op = (if 1 < length args then args ! 1 else [])
      in if op \<noteq> ''enc'' \<and> op \<noteq> ''dec'' then Ok ([], 2)
         else let file_size = bench_arg args ''--size'' (2 ^ 20);
                  chunk = clamp_chunk (bench_arg args ''--chunk'' (2 ^ 16)) file_size;
                  frame = bench_arg args ''--frame'' 1024 mod 2 ^ 32
              in case run_power_on_self_tests (self_tests H E) m of
                   (Ok _, m') \<Rightarrow>
                     (case generate_v8_key draw sk_draw m' DEFAULT_KEY_COUNT MIN_KEY_PRIME MAX_KEY_PRIME of
                        Ok (primes, sk) \<Rightarrow>
                          res_bind (bench_work H nonces fill due wall op file_size chunk frame primes sk m')
                            (\<lambda>out. Ok (out, 0))
                      | _ \<Rightarrow> Panic)
                 | _ \<Rightarrow> Panic)"

section \<open>Both classes are rejected\<close>

lemma xor_ff_neq: "(b :: byte) XOR 0xFF \<noteq> b"
proof
  assume "b XOR 0xFF = b"
  then have "b XOR (b XOR 0xFF) = b XOR b" by simp
  then show False by (simp add: xor.assoc [symmetric])
qed

lemma flip_byte_Ok:
  assumes "i < length xs"
  obtains ys where "flip_byte xs i = Ok ys" "length ys = length xs" "ys \<noteq> xs" "ys = xs[i := xs ! i XOR 0xFF]"
proof (rule that)
  show "flip_byte xs i = Ok (xs[i := xs ! i XOR 0xFF])" using assms by (simp add: flip_byte_def)
  show "xs[i := xs ! i XOR 0xFF] \<noteq> xs" using assms xor_ff_neq by (metis nth_list_update_eq)
qed simp_all

lemma dudect_key_valid: "validate_key dudect_primes = Ok ()"
  using sample_tuple_prime by (simp add: dudect_primes_def sample_tuple_def validate_key_def key_consts)

definition dudect_key :: NapqesKey where
  "dudect_key = \<lparr>key_primes = dudect_primes, key_sk = replicate 32 0x5A\<rparr>"

lemma NapqesKey_new_dudect: "NapqesKey_new dudect_primes (replicate 32 0x5A) = Ok dudect_key"
  by (simp add: NapqesKey_new_def dudect_key_valid dudect_key_def)

lemma flipped_tag_rejected:
  assumes "fips_check m = Ok ()" "decrypt_bytes_v8_key H m ct key aad = Ok s" "length ct - 32 \<le> i" "i < length ct"
    "flip_byte ct i = Ok ct'"
  shows "decrypt_bytes_v8_key H m ct' key aad = Err AuthenticationFailed"
proof -
  have core: "decrypt_bytes_v8_core H ct (key_primes key) (key_sk key) aad = Ok s"
    using assms(1,2) by (simp add: decrypt_bytes_v8_key_def)
  obtain ys where "flip_byte ct i = Ok ys" "length ys = length ct" "ys \<noteq> ct" "ys = ct[i := ct ! i XOR 0xFF]"
    using assms(4) by (rule flip_byte_Ok)
  moreover from this have "take (length ct - 32) ys = take (length ct - 32) ct" using assms(3) by simp
  ultimately have "decrypt_bytes_v8_core H ct' (key_primes key) (key_sk key) aad = Err AuthenticationFailed"
    using assms(5) by (intro block_other_tag [OF core]) simp_all
  with assms(1) show ?thesis by (simp add: decrypt_bytes_v8_key_def)
qed

lemma bench_tag_comparison_rejects:
  assumes "fips_check m = Ok ()" "decrypt_bytes_v8_key H m ct key [] = Ok s"
  shows "bench_tag_comparison H m key ct coin =
    Ok (if coin then LeftClass else RightClass, Err AuthenticationFailed)"
proof -
  obtain B where "length ct = 48 + 160 * (B + 2)"
    using assms by (auto simp: decrypt_bytes_v8_key_def elim: decrypt_core_shape)
  then have len: "32 \<le> length ct" by simp
  have "\<exists>ct'. flip_byte ct i = Ok ct' \<and> decrypt_bytes_v8_key H m ct' key [] = Err AuthenticationFailed"
    if "length ct - 32 \<le> i" "i < length ct" for i
    using flip_byte_Ok [OF that(2)] flipped_tag_rejected [OF assms that] by metis
  from this [of "length ct - 32"] this [of "length ct - 1"] len show ?thesis
    by (auto simp: bench_tag_comparison_def sub_usize_def Let_def TAG_SIZE_def)
qed

lemma all_equal_replicate: "all_equal (replicate k (x, x) @ ps) = (case all_equal ps of (r, n) \<Rightarrow> (r, k + n))"
  by (induction k) (auto split: prod.split)

lemma replicate_32: "replicate 32 x = x # replicate 31 x" "replicate 32 x = replicate 31 x @ [x]"
proof -
  show *: "replicate 32 x = x # replicate 31 x" by (simp add: numeral_eq_Suc)
  show "replicate 32 x = replicate 31 x @ [x]" unfolding * by (rule replicate_append_same [symmetric])
qed

lemma comparator_bench_inputs:
  "comparator_bench eq True = Ok (LeftClass, replicate 100 (eq (0xA5 # replicate 31 0xA5) (0x5A # replicate 31 0xA5)))"
  "comparator_bench eq False = Ok (RightClass, replicate 100 (eq (replicate 31 0xA5 @ [0xA5]) (replicate 31 0xA5 @ [0x5A])))"
proof -
  have "flip_byte (replicate 32 0xA5) 0 = Ok (0x5A # replicate 31 0xA5)"
    unfolding replicate_32(1) flip_byte_def by simp
  then show "comparator_bench eq True = Ok (LeftClass, replicate 100 (eq (0xA5 # replicate 31 0xA5) (0x5A # replicate 31 0xA5)))"
    by (simp only: comparator_bench_def TAG_SIZE_def Let_def if_True res_bind.simps replicate_32(1))
  have "flip_byte (replicate 31 0xA5 @ [0xA5]) 31 = Ok (replicate 31 0xA5 @ [0x5A])"
    unfolding flip_byte_def by (simp add: list_update_append nth_append)
  then have "flip_byte (replicate 32 0xA5) (32 - 1) = Ok (replicate 31 0xA5 @ [0x5A])"
    by (simp add: replicate_32(2))
  then show "comparator_bench eq False = Ok (RightClass, replicate 100 (eq (replicate 31 0xA5 @ [0xA5]) (replicate 31 0xA5 @ [0x5A])))"
    unfolding comparator_bench_def TAG_SIZE_def Let_def by (simp add: replicate_32(2))
qed

lemma early_exit_answers:
  "early_exit_eq (0xA5 # replicate 31 0xA5) (0x5A # replicate 31 0xA5) = (False, 1)"
  "early_exit_eq (replicate 31 0xA5 @ [0xA5]) (replicate 31 0xA5 @ [0x5A]) = (False, 32)"
  by (simp_all add: early_exit_eq_def all_equal_replicate zip_replicate)

section \<open>The throughput harness decrypts what it encrypted\<close>

lemma random_text_scalar: "list_all is_scalar (random_text raw)"
proof -
  have "is_scalar (unat b)" for b :: byte
  proof -
    have "unat b < 2 ^ LENGTH(8)" by (rule unsigned_less)
    then have "unat b < 256" by simp
    then show ?thesis unfolding is_scalar_def by presburger
  qed
  then show ?thesis by (simp add: random_text_def list_all_iff)
qed

lemma bench_enc_Ok:
  assumes "fips_check (bs_module st) = Ok ()" "prev_nonce (bs_module st) \<noteq> Some (nonces (bs_draws st))"
    "length (nonces (bs_draws st)) = 16" "validate_key primes = Ok ()" "validate_stream_v8_frame frame = Ok ()"
    "list_all is_scalar p" "length p \<le> frame * (2 ^ 32 - 1)"
  obtains ct st' where "bench_enc H nonces primes sk frame p st = Ok (ct, st')"
    "bs_module st' = (bs_module st)\<lparr>prev_nonce := Some (nonces (bs_draws st))\<rparr>"
    "bs_draws st' = Suc (bs_draws st)" "bs_bytes st' = bs_bytes st"
    "\<And>m. fips_check m = Ok () \<Longrightarrow> decrypt_stream_ae_v8 H m ct primes sk [] = Ok p"
proof -
  let ?nonce = "nonces (bs_draws st)" and ?m = "bs_module st"
  have f: "0 < frame" "frame \<le> 16384" using assms(5) by (auto simp: validate_stream_v8_frame_def split: if_splits)
  have "safe_key primes" using assms(4) by (simp add: validate_key_Ok_iff valid_key_safe)
  from stream_round_trip_inner [OF this f assms(3) _ assms(7), of H _ "[]"] assms(6) obtain ct where
    ct: "encrypt_stream_ae_v8_inner H p primes (derive_format_subkey H sk FORMAT_STREAM_AE_V8) ?nonce [] frame = Ok ct"
      "decrypt_stream_ae_v8_inner H ct primes (derive_format_subkey H sk FORMAT_STREAM_AE_V8) [] = Ok p"
    by (auto simp: list_all_iff)
  have "generate_nonce_with_crng_check ?nonce ?m = (Ok ?nonce, ?m\<lparr>prev_nonce := Some ?nonce\<rparr>)"
    by (cases rule: crng_cases [of ?m ?nonce]) (use assms(2) in simp_all)
  then have "encrypt_stream_ae_v8 H ?nonce ?m p primes sk [] frame = (Ok ct, ?m\<lparr>prev_nonce := Some ?nonce\<rparr>)"
    using assms(1,4,5) ct(1) by (simp add: encrypt_stream_ae_v8_def with_nonce_def encrypt_stream_ae_v8_with_nonce_def)
  then show thesis
    using ct(2) assms(4) by (intro that [of ct "st\<lparr>bs_module := ?m\<lparr>prev_nonce := Some ?nonce\<rparr>, bs_draws := Suc (bs_draws st)\<rparr>"])
      (simp_all add: bench_enc_def decrypt_stream_ae_v8_def)
qed

lemma fips_check_prev_nonce [simp]: "fips_check (m\<lparr>prev_nonce := v\<rparr>) = fips_check m"
  by (simp add: fips_check_def require_post_def)

lemma bench_run_dec:
  assumes "op \<noteq> ''enc''" "decrypt_stream_ae_v8 H (bs_module st) c primes sk [] = Ok p" "bs_bytes st + length c < 2 ^ 64"
  shows "bench_run H nonces primes sk frame op p c st = Ok (st\<lparr>bs_bytes := bs_bytes st + length c\<rparr>)"
  using assms by (simp add: bench_run_def bench_count_def add_u64_def u64_limit_def)

lemma bench_loop_dec:
  assumes "op \<noteq> ''enc''" "\<And>m. fips_check m = Ok () \<Longrightarrow> decrypt_stream_ae_v8 H m c primes sk [] = Ok p"
    "fips_check (bs_module st) = Ok ()"
  shows "bs_bytes st + n * length c < 2 ^ 64 \<Longrightarrow>
    fold_res (bench_block H nonces primes sk frame op p c due chunk) [0..<n] (st, out) =
    Ok (st\<lparr>bs_bytes := bs_bytes st + n * length c\<rparr>, out @ map (progress_line chunk) (filter due [0..<n]))"
proof (induction n)
  case (Suc n)
  let ?st = "st\<lparr>bs_bytes := bs_bytes st + n * length c\<rparr>"
  have "bench_run H nonces primes sk frame op p c ?st = Ok (?st\<lparr>bs_bytes := bs_bytes ?st + length c\<rparr>)"
    using Suc.prems assms by (intro bench_run_dec) simp_all
  with Suc show ?case by (simp add: fold_res_append bench_block_def add.commute add.left_commute)
qed simp

section \<open>Properties\<close>

text \<open>
  C29: the inputs of the timing harness. On an operational module the pinned key is valid and its
  ciphertext exists; in both classes the measured decryption answers with the authentication
  failure, in both classes the comparator answers no in all its 100 calls, and the positive control
  answers the same but looks at one byte pair in the left class and at all 32 in the right one.
\<close>

theorem timing_classes_rejected:
  assumes "fips_check m = Ok ()"
  shows "NapqesKey_new dudect_primes (replicate 32 0x5A) = Ok dudect_key \<and>
    (\<exists>ct. base_ct H m dudect_key = Ok ct \<and>
       bench_tag_comparison H m dudect_key ct True = Ok (LeftClass, Err AuthenticationFailed) \<and>
       bench_tag_comparison H m dudect_key ct False = Ok (RightClass, Err AuthenticationFailed)) \<and>
    bench_ct_eq_bytes True = Ok (LeftClass, replicate 100 False) \<and>
    bench_ct_eq_bytes False = Ok (RightClass, replicate 100 False) \<and>
    bench_positive_control_early_exit True = Ok (LeftClass, replicate 100 (False, 1)) \<and>
    bench_positive_control_early_exit False = Ok (RightClass, replicate 100 (False, 32))"
proof -
  have key: "usable_key dudect_key" using NapqesKey_new_Ok [OF NapqesKey_new_dudect] by simp
  have "text_message dudect_message" by (simp add: text_message_def dudect_message_def is_scalar_def)
  from key_round_trip [OF assms key this, of H "[]"] obtain ct where
    ct: "encrypt_bytes_v8_key H m dudect_message dudect_key [] = Ok ct"
      "decrypt_bytes_v8_key H m ct dudect_key [] = Ok dudect_message" by blast
  have "bench_ct_eq_bytes True = Ok (LeftClass, replicate 100 False)"
    "bench_ct_eq_bytes False = Ok (RightClass, replicate 100 False)"
    "bench_positive_control_early_exit True = Ok (LeftClass, replicate 100 (False, 1))"
    "bench_positive_control_early_exit False = Ok (RightClass, replicate 100 (False, 32))"
    by (simp_all only: bench_ct_eq_bytes_def bench_positive_control_early_exit_def comparator_bench_inputs
        early_exit_answers) (simp_all add: ct_bench_eq_def)
  then show ?thesis
    using NapqesKey_new_dudect ct bench_tag_comparison_rejects [OF assms ct(2)] by (auto simp: base_ct_def)
qed

theorem timing_classes_rejected_witness:
  "\<exists>ct. base_ct (\<lambda>_ _. 0) open_module dudect_key = Ok ct \<and>
     bench_tag_comparison (\<lambda>_ _. 0) open_module dudect_key ct True = Ok (LeftClass, Err AuthenticationFailed)"
  using timing_classes_rejected [OF fips_check_open_module, of "\<lambda>_ _. 0"] by blast

text \<open>
  The throughput harness in decryption mode. With a valid key, a frame size the format accepts
  and two different nonces, setup encrypts the block and the tail, every timed decryption
  returns the text that was encrypted, so that the assertion on its length holds, and the program
  ends by reporting the file size and the exact number of ciphertext bytes it went through,
  provided the count fits in 64 bits.
\<close>

lemma file_bench_decrypts:
  assumes "fips_check m = Ok ()" "validate_key primes = Ok ()" "validate_stream_v8_frame frame = Ok ()"
    and "prev_nonce m \<noteq> Some (nonces 0)" "nonces 0 \<noteq> nonces 1" "length (nonces 0) = 16" "length (nonces 1) = 16"
    and "\<And>k n. length (fill k n) = n" "0 < chunk" "chunk \<le> frame * (2 ^ 32 - 1)"
  shows "\<exists>ct tail_ct.
    decrypt_stream_ae_v8 H m ct primes sk [] = Ok (random_text (fill 0 chunk)) \<and>
    decrypt_stream_ae_v8 H m tail_ct primes sk [] = Ok (random_text (fill 1 (file_size mod chunk))) \<and>
    (let total = file_size div chunk * length ct + (if 0 < file_size mod chunk then length tail_ct else 0)
     in total < 2 ^ 64 \<longrightarrow>
        bench_work H nonces fill due wall ''dec'' file_size chunk frame primes sk m =
          Ok ([''READY''] @ map (progress_line chunk) (filter due [0..<file_size div chunk]) @
              [done_line file_size total wall]))"
proof -
  let ?p = "random_text (fill 0 chunk)" and ?t = "random_text (fill 1 (file_size mod chunk))"
  let ?st = "\<lparr>bs_module = m, bs_draws = 0, bs_bytes = 0\<rparr>"
  have "length ?p \<le> frame * (2 ^ 32 - 1)" "length ?t \<le> frame * (2 ^ 32 - 1)"
    using assms(8,10) mod_less_divisor [OF assms(9), of file_size] by (simp_all add: random_text_def)
  note len = this
  obtain ct st1 where e1: "bench_enc H nonces primes sk frame ?p ?st = Ok (ct, st1)"
    "bs_module st1 = m\<lparr>prev_nonce := Some (nonces 0)\<rparr>" "bs_draws st1 = 1" "bs_bytes st1 = 0"
    "\<And>m. fips_check m = Ok () \<Longrightarrow> decrypt_stream_ae_v8 H m ct primes sk [] = Ok ?p"
    by (rule bench_enc_Ok [of ?st nonces primes frame ?p H sk]) (use assms random_text_scalar len in simp_all)
  obtain tail_ct st2 where e2: "bench_enc H nonces primes sk frame ?t st1 = Ok (tail_ct, st2)"
    "bs_module st2 = m\<lparr>prev_nonce := Some (nonces 1)\<rparr>" "bs_bytes st2 = 0"
    "\<And>m. fips_check m = Ok () \<Longrightarrow> decrypt_stream_ae_v8 H m tail_ct primes sk [] = Ok ?t"
    by (rule bench_enc_Ok [of st1 nonces primes frame ?t H sk]) (use assms e1 random_text_scalar len in simp_all)
  define n where "n = file_size div chunk"
  define total where "total = n * length ct + (if 0 < file_size mod chunk then length tail_ct else 0)"
  have "bench_work H nonces fill due wall ''dec'' file_size chunk frame primes sk m =
      Ok ([''READY''] @ map (progress_line chunk) (filter due [0..<n]) @ [done_line file_size total wall])"
    if small: "total < 2 ^ 64"
  proof -
    have dec: "''dec'' \<noteq> ''enc''" by simp
    have ok: "fips_check (bs_module st2) = Ok ()" using e2(2) assms(1) by simp
    have "bs_bytes st2 + n * length ct < 2 ^ 64" using small e2(3) by (simp add: total_def)
    then have loop: "fold_res (bench_block H nonces primes sk frame ''dec'' ?p ct due chunk) [0..<n] (st2, [''READY'']) =
        Ok (st2\<lparr>bs_bytes := bs_bytes st2 + n * length ct\<rparr>,
            [''READY''] @ map (progress_line chunk) (filter due [0..<n]))"
      by (intro bench_loop_dec dec e1(5) ok)
    let ?st3 = "st2\<lparr>bs_bytes := bs_bytes st2 + n * length ct\<rparr>"
    have tail: "(if 0 < file_size mod chunk then bench_run H nonces primes sk frame ''dec'' ?t tail_ct ?st3 else Ok ?st3) =
        Ok (st2\<lparr>bs_bytes := total\<rparr>)"
    proof (cases "0 < file_size mod chunk")
      case True
      then show ?thesis
        using bench_run_dec [OF dec, of H ?st3 tail_ct primes sk ?t nonces frame] e2(3) e2(4) [OF ok] small
        by (simp add: total_def)
    qed (simp add: total_def e2(3))
    show ?thesis
      unfolding bench_work_def Let_def n_def [symmetric] if_P [OF refl] e1(1) res_bind.simps prod.case e2(1) loop tail
      by simp
  qed
  with e1(5) [OF assms(1)] e2(4) [OF assms(1)] show ?thesis
    by (intro exI [of _ ct] exI [of _ tail_ct]) (simp add: Let_def total_def n_def)
qed

end
