(* ===== verification/Spec2Isabelle.thy ===== *)
theory Spec2Isabelle
  imports GatewayRun Harness
begin

text \<open>
NAPQES (\<open>rust/\<close>): a symmetric cipher that hides text among noise tokens, its key
  material, its key establishment and a gateway that carries industrial protocol frames under
  it. This development models the Rust crate and proves the properties that make its parts
  correct. Paths below are relative to \<open>src/rust/src/\<close>.

  \<^bold>\<open>The program.\<close> A key is a tuple of distinct primes and a 32-byte secret. A message is a
  list of Unicode scalar values; it is padded to a block, every padded codepoint \<open>c\<close> becomes
  a token \<open>c * k + addend\<close> for the next prime \<open>k\<close>, noise tokens are interleaved at
  positions only the key holder can tell, the tokens are serialised, masked with a keystream
  and authenticated. \<open>lib.rs\<close> has three formats over this: v8 blocks, v8 streams and the
  legacy v7 blocks. \<open>key.rs\<close> wraps validated keys, \<open>kem.rs\<close> derives them from
  FrodoKEM and X25519 shared secrets, \<open>kem_exchange.rs\<close> runs the key establishment between
  two gateways, \<open>ot_frame.rs\<close> wraps protocol data units into envelopes with sequence
  numbers, \<open>protocols/\<close> extracts Modbus and DNP3 units from frames, and
  \<open>bin/ls_gateway.rs\<close> connects all of it. \<open>self_test.rs\<close> holds the power-on
  self-tests and the latch that refuses the cryptographic services until they have passed,
  \<open>bin/napqes_integrity.rs\<close> writes the reference values of its integrity test,
  \<open>bin/sts.rs\<close> runs a statistical test suite over ciphertexts, \<open>../fuzz/\<close> holds the
  fuzz targets and \<open>../examples/\<close> a timing and a throughput harness.

  \<^bold>\<open>Theories and what they model.\<close>
  \<^item> \<open>Prelude\<close>: machine types, the outcome of a call (\<open>Ok\<close>, \<open>Err\<close>, \<open>Panic\<close>), error
    values, checked arithmetic, big-endian encodings, list lemmas.
  \<^item> \<open>F64\<close>: the binary64 operations the crate uses, with rounding written out.
  \<^item> \<open>Primes\<close> (\<open>lib.rs\<close>: \<open>isqrt_u64\<close>, \<open>is_prime\<close>, \<open>validate_key\<close>,
    \<open>validate_key_v7_decrypt\<close>, \<open>generate_prime_numbers\<close>): trial division decides
    primality for every \<open>u64\<close>; validation accepts exactly the tuples of the specification.
  \<^item> \<open>Derive\<close> (\<open>lib.rs\<close>: serialisation helpers and the HMAC schedule): one definition
    per derivation, with the range of every derived value.
  \<^item> \<open>Padding\<close> (\<open>lib.rs\<close>: \<open>PadProfile\<close>, \<open>pad_to_block\<close>, \<open>unpad_message\<close>,
    \<open>varint_keystream\<close>): reachable block sizes, padding round trip, the keystream loop
    against its closed form.
  \<^item> \<open>Tokens\<close> (\<open>lib.rs\<close>: \<open>emit_tokens_v8\<close>, \<open>decrypt_core_v8\<close>,
    \<open>decrypt_v8_stream_chunk_core\<close>, the token codec): the emitter and the decoder run in
    lock-step; emission always ends with twenty tokens per codepoint.
  \<^item> \<open>PostGate\<close> (\<open>self_test.rs\<close>: \<open>admit\<close>, \<open>require_post\<close>,
    \<open>run_power_on_self_tests\<close>, \<open>enter_error_state\<close>; \<open>lib.rs\<close>:
    \<open>generate_nonce_with_crng_check\<close>): the latch as functions on the module state, and the
    same operations interleaved between threads as a step relation with its invariant.
  \<^item> \<open>BlockV8\<close> (\<open>lib.rs\<close>: \<open>encrypt_bytes_v8*\<close>, \<open>decrypt_bytes_v8*\<close>): round trip,
    totality, freedom from panics, shape and binding of accepted ciphertexts.
  \<^item> \<open>KeyMaterial\<close> (\<open>key.rs\<close>; \<open>generate_v8_key\<close>, \<open>zeroize_*\<close>): the wrapper agrees
    with the entry points on slices; the locale \<open>aead\<close> states the contract of an
    authenticated cipher and is interpreted on the wrapper's entry points.
  \<^item> \<open>LegacyV7\<close> (\<open>lib.rs\<close>: the v7 functions): round trips of the text and raw
    conventions, with the floating-point noise schedule.
  \<^item> \<open>StreamV8\<close>, \<open>StreamCorrect\<close> (\<open>lib.rs\<close>: the streaming format and
    \<open>StreamV8Encryptor\<close>): round trip, equality of the incremental and the all-at-once
    encryptor, structure of accepted streams.
  \<^item> \<open>OtFrame\<close> (\<open>ot_frame.rs\<close>): envelopes, replay window, key stores; the locales
    \<open>byte_channel\<close> (an \<open>aead\<close> that carries bytes), \<open>key_store\<close> and \<open>rekeyed_store\<close>
    state what the frame layer and the gateway rely on and are interpreted on the block cipher
    and on both stores.
  \<^item> \<open>Kem\<close>, \<open>KemExchange\<close> (\<open>kem.rs\<close>, \<open>kem_exchange.rs\<close>): seed expansion and when it
    returns, agreement of both ends, the exchange over an undisturbed connection.
  \<^item> \<open>ModbusPdu\<close>, \<open>DnpPdu\<close> (\<open>protocols/\<close>): extraction and reconstruction, the CRC
    table against the bit-serial definition.
  \<^item> \<open>Gateway\<close> (\<open>bin/ls_gateway.rs\<close>): the connection handlers as functions from the
    bytes of a connection to the list of their events. What the egress loop forwards are the
    contents of envelopes it read and opened, in increasing order of their numbers; what it makes
    of the length-prefixed bytes the ingress side writes is computed exactly.
  \<^item> \<open>GatewayRun\<close> (\<open>bin/ls_gateway.rs\<close>: \<open>Config\<close>, \<open>main\<close>, \<open>wait_for_key\<close>,
    \<open>start_ot_listeners\<close>, the listeners; \<open>kem_exchange.rs\<close>: the re-keying loops):
    start-up, and the concurrent connection tasks as the step relation \<open>gw_step\<close> on key
    store, counters and tasks, with a history of what was read, sealed, delivered, reported and
    installed. In every interleaving sealed and delivered headers are unique and every record is
    explained by the history before it; what one gateway seals the other can deliver; the tasks
    reach what the sequential handlers compute. The
    store of a running gateway interprets \<open>key_store\<close>.
  \<^item> \<open>Integrity\<close>, \<open>SelfTests\<close> (\<open>self_test.rs\<close>: INT-1, INT-2, KAT-1 to KAT-11;
    \<open>bin/napqes_integrity.rs\<close>; \<open>main.rs\<close>): the integrity test accepts what the tool
    wrote and rejects modified images; the self-tests reduce to their known answers.
  \<^item> \<open>Messages\<close> (the \<open>Display\<close> texts of \<open>protocols/\<close>, \<open>ot_frame.rs\<close> and
    \<open>self_test.rs\<close>, the debug output of \<open>key.rs\<close>): error texts determine the error, the text of a key only its size.
  \<^item> \<open>Utf8\<close>: the decoder of the standard library, with its exact domain.
  \<^item> \<open>Lucas\<close>, \<open>FuzzTargets\<close> (\<open>../fuzz/fuzz_targets/\<close>, the fuzz hooks of \<open>lib.rs\<close>):
    the keys of the targets are prime (by Lucas certificates), and no input makes a target panic.
  \<^item> \<open>StsStream\<close>, \<open>BerlekampMassey\<close>, \<open>Gf2Rank\<close>, \<open>StsPatterns\<close>,
    \<open>StsWalk\<close> (\<open>bin/sts.rs\<close>): the bit stream and the integer statistics of the suite;
    linear complexity against the shortest feedback register, rank against the dimension
    of the row space, pattern and excursion counts against their definitions.
  \<^item> \<open>Floats\<close>: the \<open>f64\<close> operations of the suite as a record, IEEE 754 binary64 (infinities,
    NaN, subnormals, rounding to nearest) as its instance with a half-unit error bound, and the
    locale \<open>float_laws\<close> of what the special functions and reports rely on, interpreted on binary64.
  \<^item> \<open>StsMath\<close>, \<open>Fft\<close>, \<open>StsTests\<close>, \<open>Sts\<close> (\<open>bin/sts.rs\<close>: the special functions,
    \<open>fft_inplace\<close>, the fifteen tests, both reports, \<open>main\<close>): the recursions return, the
    transform is the discrete Fourier transform in exact arithmetic and never leaves its arrays,
    the excursion probabilities are a distribution, and the program reports exactly when enough
    bits are requested, with an exit code that agrees with the p-values.
  \<^item> \<open>Harness\<close> (\<open>../examples/\<close>): the inputs and results of the timing harness, and the
    throughput harness decrypting what it encrypted.
  \<^item> This theory: the properties that span components.

  \<^bold>\<open>Conventions.\<close> HMAC-SHA256 is the parameter \<open>H\<close> of every definition that uses it;
  FrodoKEM, X25519 and HKDF are the fields of \<open>kem_prims\<close>, with the contracts
  \<open>frodo_contract\<close> and \<open>x25519_contract\<close> as named hypotheses; random draws and the
  base64 engine are arguments. The cargo feature \<open>fips_gate\<close> is a field of the module
  state, so that the theorems cover both builds. Integers that take part in checked arithmetic
  are naturals with the overflow panic written out; bytes, identifiers, sequence numbers and
  check sums are words. A Rust error string is an error value that keeps the interpolated
  data.

  \<^bold>\<open>Bounds.\<close> No definition uses fuel: every loop is a total function, except the template
  search of \<open>StsPatterns\<close> and the recursions of \<open>lgamma\<close> and \<open>erfc\<close> in \<open>StsMath\<close>, partial
  functions that are proved to return: the search for the aperiodic templates of the suite, the
  recursions in every arithmetic with the comparison laws. The bounds in the theorems are those
  of the code: 65535 codepoints of a block message, \<open>F * (2^32 - 1)\<close>
  codepoints of a stream (the 32-bit chunk index), \<open>32 * (2^32 - 1)\<close> bytes of keystream
  (the 32-bit block counter), 2^64 - 1 sequence numbers. Seed expansion panics when its 32-bit
  counter is exhausted, and the theorem says exactly when that is.

  \<^bold>\<open>Not modelled.\<close> The transcendental functions behind \<open>f64\<close> (\<open>sin\<close>, \<open>cos\<close>, \<open>exp\<close>,
  \<open>ln\<close>, \<open>log2\<close>, \<open>powi\<close>, \<open>powf\<close>: Rust leaves their precision unspecified, they are the fields of
  \<open>libm\<close>) and so the accuracy of the suite's p-values; the corpus tests \<open>kat_cross_check.rs\<close> and
  all unit and integration tests; sockets, name lookup, clocks, JSON parsing, and the console output
  of the programs other than the suite; the test-only fault injection; constant-time execution and
  the erasure of memory beyond the final contents of a buffer; the Python and C ports. SHA-256,
  HMAC, HKDF, FrodoKEM, X25519 and base64 belong to third-party crates and are parameters.
\<close>

section \<open>The gate in front of the cryptographic services\<close>

text \<open>What the framing, which has no gate of its own, does behind a closed gate.\<close>

lemma closed_unwrap:
  assumes "fips_check m = Err e"
  shows "unwrap_pdu H m buf key c =
    ((case parse_envelope_header buf of
        Ok (proto, dev, s, _, _) \<Rightarrow> Err (FrameAuthenticationFailed dev proto s) | Err f \<Rightarrow> Err f | Panic \<Rightarrow> Panic), c)"
  using assms by (cases "parse_envelope_header buf")
    (auto simp: unwrap_pdu_def open_envelope_def decrypt_bytes_v8_key_def Let_def)

lemma closed_ingress_loop:
  assumes "\<And>c frame evs c'. handle c frame = (Ok evs, c') \<Longrightarrow> forwarded evs = []"
  shows "forwarded (fst (ingress_loop handle c frames)) = []"
proof (induction frames arbitrary: c)
  case (Cons frame frames)
  obtain r c' where r: "handle c frame = (r, c')" by (metis prod.exhaust)
  then show ?case using Cons.IH [of c'] assms [of c frame _ c'] by (cases r) (auto split: prod.splits)
qed simp

lemma closed_seal:
  assumes "fips_check m = Err e" "ingress_seal H m load c proto dev pdu = (Ok evs, c')"
  shows "forwarded evs = []"
  using assms by (auto simp: ingress_seal_def wrap_pdu_def encrypt_bytes_v8_key_def split: prod.splits res.splits)

lemma closed_egress:
  assumes "fips_check m = Err e"
  shows "forwarded (fst (handle_egress H m load proto c stream)) = []"
proof -
  obtain evs c' where r: "handle_egress H m load proto c stream = (evs, c')" by (metis prod.exhaust)
  obtain ds where ds: "forwarded evs = map (delivery_wire proto) ds" "list_all (delivery_backed H m load c) ds"
    using handle_egress_deliveries [OF r] by blast
  have "\<not> delivery_backed H m load c d" for d
    using assms by (cases d) (auto simp: open_envelope_def decrypt_bytes_v8_key_def Let_def)
  then have "ds = []" using ds(2) by (cases ds) auto
  then show ?thesis using ds(1) r by simp
qed

text \<open>
  C6: with the gate compiled in, a module that is not operational performs no cryptography through
  the services that \<open>Cargo.toml\<close> lists as gated: every v8 and v7 encryption and decryption
  entry point, block, key-wrapper and streaming (an encryptor already open included), key
  generation, and key encapsulation and decapsulation return the not-operational error and leave
  the module and an open encryptor unchanged. The framing, the key exchange and the gateways have
  no gate of their own and are closed through these services: wrapping returns their error,
  unwrapping reports the header's own parse error or, since it maps every decryption error, an
  authentication failure, and leaves the counters alone; neither side of the exchange obtains a
  key; and neither the ingress loops nor the egress loop forward anything, whatever arrives.
  The services listed there as not gated (primality, validation, \<open>NapqesKey::new\<close>, key-pair
  generation and key derivation) take no module state in the model and are not covered.
\<close>

theorem closed_gate_refuses_services:
  assumes "fips_gate m" "require_post m = Err e" "\<not> se_finished st"
  shows "encrypt_bytes_v8 H m msg ps sk aad = Err NotOperational \<and>
     encrypt_bytes_v8_with_profile H m msg ps sk aad profile = Err NotOperational \<and>
     decrypt_bytes_v8 H m ct ps sk aad = Err NotOperational \<and>
     encrypt_bytes_v8_key H m msg key aad = Err NotOperational \<and>
     encrypt_bytes_v8_with_profile_key H m msg key aad profile = Err NotOperational \<and>
     decrypt_bytes_v8_key H m ct key aad = Err NotOperational \<and>
     generate_prime_numbers draw m n lo hi = Err NotOperational \<and>
     generate_v8_key draw sk m n lo hi = Err NotOperational \<and>
     NapqesKey_generate draw sk m = Err NotOperational \<and>
     encrypt H nonce m msg ps = (Err NotOperational, m) \<and>
     decrypt H m nonce tokens ps = Err NotOperational \<and>
     encrypt_bytes H nonce m msg ps aad = (Err NotOperational, m) \<and>
     decrypt_bytes H m ct ps aad = Err NotOperational \<and>
     encrypt_raw H nonce m data ps aad = (Err NotOperational, m) \<and>
     decrypt_raw H m ct ps aad = Err NotOperational \<and>
     encrypt_str enc64 H nonce m msg ps aad = (Err NotOperational, m) \<and>
     decrypt_str dec64 H m msg ps aad = Err NotOperational \<and>
     encrypt_stream_ae_v8 H nonce m msg ps sk aad f = (Err NotOperational, m) \<and>
     encrypt_stream_ae_v8_key H nonce m msg key aad f = (Err NotOperational, m) \<and>
     decrypt_stream_ae_v8 H m ct ps sk aad = Err NotOperational \<and>
     decrypt_stream_ae_v8_key H m ct key aad = Err NotOperational \<and>
     stream_enc_new H nonce m ps sk aad f = (Err NotOperational, m) \<and>
     stream_enc_new_key H nonce m key aad f = (Err NotOperational, m) \<and>
     stream_enc_push H m st ch = (Err NotOperational, st) \<and>
     stream_enc_finish H m st = Err NotOperational \<and>
     encapsulate H P rand m ct = Err NotOperational \<and>
     decapsulate H P m ct sk = Err NotOperational \<and>
     encapsulate_v8 H P rand m ct = Err NotOperational \<and>
     decapsulate_v8 H P m ct sk = Err NotOperational \<and>
     encapsulate_hybrid H P rand ec m ct = Err NotOperational \<and>
     decapsulate_hybrid H P m ct sk = Err NotOperational \<and>
     wrap_pdu H m data hdr key = Err (CryptoError NotOperational) \<and>
     unwrap_pdu H m buf key c =
       ((case parse_envelope_header buf of
           Ok (proto, dev, s, _, _) \<Rightarrow> Err (FrameAuthenticationFailed dev proto s) | Err f \<Rightarrow> Err f | Panic \<Rightarrow> Panic), c) \<and>
     (\<nexists>x. initiator_reply H P rand m hello = Ok x) \<and> (\<nexists>x. responder_finish H P m sk answer = Ok x) \<and>
     forwarded (fst (handle_ingress_modbus H m load c reads)) = [] \<and>
     forwarded (fst (handle_ingress_dnp3 H m load c reads)) = [] \<and>
     forwarded (fst (handle_egress H m load p c bytes_in)) = []"
proof -
  have g: "fips_check m = Err NotOperational" using assms(1,2) by (simp add: fips_check_def)
  have "encrypt_bytes_v8 H m msg ps sk aad = Err NotOperational"
    "encrypt_bytes_v8_with_profile H m msg ps sk aad profile = Err NotOperational"
    "decrypt_bytes_v8 H m ct ps sk aad = Err NotOperational"
    "encrypt_bytes_v8_key H m msg key aad = Err NotOperational"
    "encrypt_bytes_v8_with_profile_key H m msg key aad profile = Err NotOperational"
    "decrypt_bytes_v8_key H m ct key aad = Err NotOperational"
    "generate_prime_numbers draw m n lo hi = Err NotOperational"
    "generate_v8_key draw sk m n lo hi = Err NotOperational"
    "NapqesKey_generate draw sk m = Err NotOperational"
    "wrap_pdu H m data hdr key = Err (CryptoError NotOperational)"
    using g by (simp_all add: encrypt_bytes_v8_def encrypt_bytes_v8_with_profile_def decrypt_bytes_v8_def
        encrypt_bytes_v8_key_def encrypt_bytes_v8_with_profile_key_def decrypt_bytes_v8_key_def
        generate_prime_numbers_def generate_v8_key_def NapqesKey_generate_def wrap_pdu_def)
  moreover have "encrypt H nonce m msg ps = (Err NotOperational, m)"
    "decrypt H m nonce tokens ps = Err NotOperational"
    "encrypt_bytes H nonce m msg ps aad = (Err NotOperational, m)"
    "decrypt_bytes H m ct ps aad = Err NotOperational"
    "encrypt_raw H nonce m data ps aad = (Err NotOperational, m)"
    "decrypt_raw H m ct ps aad = Err NotOperational"
    "encrypt_str enc64 H nonce m msg ps aad = (Err NotOperational, m)"
    "decrypt_str dec64 H m msg ps aad = Err NotOperational"
    using g by (simp_all add: encrypt_def decrypt_def encrypt_bytes_def decrypt_bytes_def encrypt_raw_def
        decrypt_raw_def encrypt_str_def decrypt_str_def v7_seal_drawn_def v7_encrypt_checks_def)
  moreover have "encrypt_stream_ae_v8 H nonce m msg ps sk aad f = (Err NotOperational, m)"
    "encrypt_stream_ae_v8_key H nonce m msg key aad f = (Err NotOperational, m)"
    "decrypt_stream_ae_v8 H m ct ps sk aad = Err NotOperational"
    "decrypt_stream_ae_v8_key H m ct key aad = Err NotOperational"
    "stream_enc_new H nonce m ps sk aad f = (Err NotOperational, m)"
    "stream_enc_new_key H nonce m key aad f = (Err NotOperational, m)"
    "stream_enc_push H m st ch = (Err NotOperational, st)"
    "stream_enc_finish H m st = Err NotOperational"
    using g assms(3) by (simp_all add: encrypt_stream_ae_v8_def encrypt_stream_ae_v8_key_def
        decrypt_stream_ae_v8_def decrypt_stream_ae_v8_key_def stream_enc_new_def stream_enc_new_key_def
        stream_enc_push_def stream_enc_finish_def)
  moreover have "encapsulate H P rand m ct = Err NotOperational" "decapsulate H P m ct sk = Err NotOperational"
    "encapsulate_v8 H P rand m ct = Err NotOperational" "decapsulate_v8 H P m ct sk = Err NotOperational"
    "encapsulate_hybrid H P rand ec m ct = Err NotOperational" "decapsulate_hybrid H P m ct sk = Err NotOperational"
    using g by (simp_all add: encapsulate_def decapsulate_def encapsulate_v8_def decapsulate_v8_def
        encapsulate_hybrid_def decapsulate_hybrid_def)
  moreover have "\<nexists>x. initiator_reply H P rand m hello = Ok x" "\<nexists>x. responder_finish H P m sk answer = Ok x"
    using g by (auto simp: initiator_reply_def responder_finish_def encapsulate_v8_def decapsulate_v8_def)
  moreover have "forwarded (fst (handle_ingress_modbus H m load c reads)) = []"
    "forwarded (fst (handle_ingress_dnp3 H m load c reads)) = []"
    unfolding handle_ingress_modbus_def handle_ingress_dnp3_def
    using closed_seal [OF g]
    by (intro closed_ingress_loop; auto simp: ingress_modbus_frame_def ingress_dnp3_frame_def split: res.splits prod.splits)+
  moreover note closed_unwrap [OF g, of H buf key c] closed_egress [OF g, of H load p c bytes_in]
  ultimately show ?thesis by (intro conjI) assumption+
qed

theorem closed_gate_refuses_services_witness:
  "encrypt_bytes_v8 (\<lambda>_ _. 0) (enter_error_state (open_module\<lparr>fips_gate := True\<rparr>)) [65] sample_key [] [] = Err NotOperational \<and>
   forwarded (fst (handle_ingress_modbus (\<lambda>_ _. 0) (enter_error_state (open_module\<lparr>fips_gate := True\<rparr>))
     (\<lambda>_. Ok \<lparr>key_primes = sample_key, key_sk = []\<rparr>) SequenceCounter_new [[0, 1, 0, 0, 0, 2, 9, 3]])) = []"
proof -
  let ?st = "\<lparr>se_primes = [], se_sk_fmt = [], se_aad = [], se_nonce = [], se_f = 1, se_chunk_idx = 0,
      se_total_real_cps = 0, se_cp_buf = [], se_finished = False\<rparr>"
  let ?m = "enter_error_state (open_module\<lparr>fips_gate := True\<rparr>)"
  have "fips_gate ?m" "require_post ?m = Err NotOperationalPost" "\<not> se_finished ?st"
    by (simp_all add: enter_error_state_def open_module_def require_post_def)
  note closed = closed_gate_refuses_services [OF this, where H = "\<lambda>_ _. 0" and msg = "[65]" and ps = sample_key and sk = "[]"
      and aad = "[]" and load = "\<lambda>_. Ok \<lparr>key_primes = sample_key, key_sk = []\<rparr>" and c = SequenceCounter_new
      and reads = "[[0, 1, 0, 0, 0, 2, 9, 3]]"]
  show ?thesis by (simp only: closed simp_thms)
qed

section \<open>From key establishment to delivered frames\<close>

text \<open>
  C5: from key exchange to delivery. After one key exchange whose results both gateways install
  under the wildcard entry of their session stores, the envelope in which a data unit is wrapped
  with the key the ingress store loads for a device is opened by the egress loop, which loads the
  key from its own store and forwards exactly that data unit. The loop is given the envelope
  itself; the length that the ingress side writes in front of it is a matter of its own.
\<close>

theorem exchange_to_delivery:
  assumes "frodo_contract P rand rand'" "fips_check m_in = Ok ()" "fips_check m_eg = Ok ()"
    and "exchange H P rand rand' m_eg m_in = Ok (key_in, key_eg)"
    and "store_in dev = None" "store_eg dev = None" "length pdu \<le> 0xFFFF" "last_seen c (proto, dev) < s"
  shows "\<exists>key env c'.
     SessionKeyStore_load (rekey_step store_in (Ok key_in)) dev = Ok key \<and>
     wrap_pdu H m_in pdu \<lparr>protocol = proto, device_id = dev, seq = s\<rparr> key = Ok env \<and>
     handle_egress H m_eg (SessionKeyStore_load (rekey_step store_eg (Ok key_eg))) proto c env =
       ([Forward (forward_envelope (case proto of ModbusTcp \<Rightarrow> reassemble_modbus pdu | Dnp3 \<Rightarrow> pdu))], c') \<and>
     last_seen c' (proto, dev) = s"
proof -
  let ?aad = "\<lparr>protocol = proto, device_id = dev, seq = s\<rparr>"
  have op: "operational m_in" "operational m_eg" using assms(2,3) by (simp_all add: operational_def)
  have same: "key_in = key_eg" and use: "usable_key key_in"
    using assms(4) unfolding exchange_agrees [OF assms(1) op(2,1)] by (auto dest: derive_v8_key_usable)
  have pdu: "length pdu \<le> MAX_PLAINTEXT_CODEPOINTS" using assms(7) by simp
  obtain env where env: "wrap_pdu H m_in pdu ?aad key_in = Ok env" using open_wrapped [OF op(1) use pdu] by blast
  have env': "wrap_pdu H m_eg pdu ?aad key_in = Ok env"
    using env op by (simp add: wrap_pdu_def encrypt_bytes_v8_key_def operational_def)
  have l_in: "SessionKeyStore_load (rekey_step store_in (Ok key_in)) dev = Ok key_in"
    using assms(5) by (rule rekey_load)
  have "SessionKeyStore_load (rekey_step store_eg (Ok key_eg)) (device_id ?aad) = Ok key_in"
    using rekey_load [of store_eg dev key_eg] assms(6) same by simp
  moreover have "last_seen c (protocol ?aad, device_id ?aad) < seq ?aad" using assms(8) by simp
  ultimately obtain c' where c': "handle_egress H m_eg (SessionKeyStore_load (rekey_step store_eg (Ok key_eg))) proto c (env @ [])
      = (case handle_egress H m_eg (SessionKeyStore_load (rekey_step store_eg (Ok key_eg))) proto c' [] of
         (evs, c'') \<Rightarrow> (Forward (forward_envelope (case proto of ModbusTcp \<Rightarrow> reassemble_modbus pdu | Dnp3 \<Rightarrow> pdu)) # evs, c''))"
      "last_seen c' (protocol ?aad, device_id ?aad) = seq ?aad"
    by (rule handle_egress_wrapped [OF op(2) use pdu env', where proto = proto and rest = "[]"])
  have "handle_egress H m_eg load proto c' [] = ([], c')" for load by (subst handle_egress.simps) simp
  with c' l_in env show ?thesis by (intro exI [of _ key_in] exI [of _ env] exI [of _ c']) simp
qed

theorem exchange_to_delivery_witness:
  "\<exists>key env c'.
     SessionKeyStore_load (rekey_step SessionKeyStore_new (Ok key)) 3 = Ok key \<and>
     wrap_pdu sample_mac open_module [7] \<lparr>protocol = Dnp3, device_id = 3, seq = 1\<rparr> key = Ok env \<and>
     handle_egress sample_mac open_module (SessionKeyStore_load (rekey_step SessionKeyStore_new (Ok key))) Dnp3
       SequenceCounter_new env = ([Forward (forward_envelope [7])], c')"
proof -
  obtain key where x: "exchange sample_mac sample_prims [] [] open_module open_module = Ok (key, key)"
    using exchange_sample by blast
  have n: "SessionKeyStore_new 3 = None" by (simp add: SessionKeyStore_new_def)
  have w: "last_seen SequenceCounter_new (Dnp3, 3) < 1"
    by (simp add: last_seen_def entry_or_0_def SequenceCounter_new_def)
  have l: "SessionKeyStore_load (rekey_step SessionKeyStore_new (Ok key)) 3 = Ok key" using n by (rule rekey_load)
  from exchange_to_delivery [where store_in = SessionKeyStore_new and store_eg = SessionKeyStore_new and dev = 3,
      OF sample_contracts(1) fips_check_open_module fips_check_open_module x n n _ w, of "[7]"]
  show ?thesis using l by (intro exI [of _ key]) auto
qed

end
